(* ===== verification/Pequin_Prelude.thy ===== *)
theory Pequin_Prelude
  imports Main "HOL-Library.Word" "HOL-Library.Char_ord" "HOL-Library.List_Lexorder"
    "HOL-Library.Monad_Syntax"
begin

text \<open>
  Shared vocabulary of the development.  The replica keeps its concurrency-control state in
  \<open>std::map\<close> and \<open>std::set\<close> containers ordered by timestamp and in hash maps keyed by
  strings.  Ordered containers are association lists with strictly increasing keys; the
  iterators the code obtains from \<open>lower_bound\<close> and \<open>upper_bound\<close> are suffixes of that list,
  and \<open>--it\<close> is the last element of the complementary prefix.  Hash maps are HOL maps.
  The locale \<open>ordered_map\<close> states the contract the clients rely on; it is interpreted here on
  the association lists.
\<close>

unbundle bit_operations_syntax

type_synonym u64 = "64 word"
type_synonym u32 = "32 word"
type_synonym bytes = string

named_theorems om_simps \<open>equations of the ordered containers\<close>
named_theorems om_ok \<open>operations that keep an ordered container ordered\<close>
named_theorems frame \<open>fields of the replica an operation leaves alone\<close>

section \<open>Ordered containers\<close>

type_synonym ('k, 'v) omap = "('k \<times> 'v) list"

definition om_sorted :: "('k::linorder, 'v) omap \<Rightarrow> bool" where
  "om_sorted m \<longleftrightarrow> sorted_wrt (<) (map fst m)"

fun om_insert :: "'k::linorder \<Rightarrow> 'v \<Rightarrow> ('k, 'v) omap \<Rightarrow> ('k, 'v) omap" where
  "om_insert k v [] = [(k, v)]"
| "om_insert k v ((k', v') # m) =
     (if k < k' then (k, v) # (k', v') # m
      else if k = k' then (k', v') # m
      else (k', v') # om_insert k v m)"

fun om_put :: "'k::linorder \<Rightarrow> 'v \<Rightarrow> ('k, 'v) omap \<Rightarrow> ('k, 'v) omap" where
  "om_put k v [] = [(k, v)]"
| "om_put k v ((k', v') # m) =
     (if k < k' then (k, v) # (k', v') # m
      else if k = k' then (k, v) # m
      else (k', v') # om_put k v m)"

definition om_erase :: "'k \<Rightarrow> ('k, 'v) omap \<Rightarrow> ('k, 'v) omap" where
  "om_erase k m = filter (\<lambda>p. fst p \<noteq> k) m"

definition om_lower_bound :: "'k::linorder \<Rightarrow> ('k, 'v) omap \<Rightarrow> ('k, 'v) omap" where
  "om_lower_bound k m = dropWhile (\<lambda>p. fst p < k) m"

definition om_upper_bound :: "'k::linorder \<Rightarrow> ('k, 'v) omap \<Rightarrow> ('k, 'v) omap" where
  "om_upper_bound k m = dropWhile (\<lambda>p. fst p \<le> k) m"

text \<open>\<open>--lower_bound(k)\<close> and \<open>--upper_bound(k)\<close>; \<open>None\<close> when the iterator is \<open>begin()\<close>.\<close>

definition om_pred_lt :: "'k::linorder \<Rightarrow> ('k, 'v) omap \<Rightarrow> ('k \<times> 'v) option" where
  "om_pred_lt k m = (case takeWhile (\<lambda>p. fst p < k) m of [] \<Rightarrow> None | p # ps \<Rightarrow> Some (last (p # ps)))"

definition om_pred_le :: "'k::linorder \<Rightarrow> ('k, 'v) omap \<Rightarrow> ('k \<times> 'v) option" where
  "om_pred_le k m = (case takeWhile (\<lambda>p. fst p \<le> k) m of [] \<Rightarrow> None | p # ps \<Rightarrow> Some (last (p # ps)))"

lemma om_sorted_Nil [simp, om_ok]: "om_sorted []"
  by (simp add: om_sorted_def)

lemma om_sorted_Cons [simp]:
  "om_sorted ((k, v) # m) \<longleftrightarrow> (\<forall>p \<in> set m. k < fst p) \<and> om_sorted m"
  by (simp add: om_sorted_def)

lemma set_om_insert_subset: "set (om_insert k v m) \<subseteq> insert (k, v) (set m)"
  by (induction k v m rule: om_insert.induct) auto

lemma set_om_put_subset: "set (om_put k v m) \<subseteq> insert (k, v) (set m)"
  by (induction k v m rule: om_put.induct) auto

lemma om_sorted_insert [simp, om_ok]: "om_sorted m \<Longrightarrow> om_sorted (om_insert k v m)"
proof (induction k v m rule: om_insert.induct)
  case (2 k v k' v' m)
  then show ?case using set_om_insert_subset [of k v m] by auto
qed simp

lemma om_sorted_put [simp, om_ok]: "om_sorted m \<Longrightarrow> om_sorted (om_put k v m)"
proof (induction k v m rule: om_put.induct)
  case (2 k v k' v' m)
  then show ?case using set_om_put_subset [of k v m] by auto
qed simp

lemma om_sorted_filter: "om_sorted m \<Longrightarrow> om_sorted (filter P m)"
  by (induction m) auto

lemma om_sorted_erase [simp, om_ok]: "om_sorted m \<Longrightarrow> om_sorted (om_erase k m)"
  by (simp add: om_erase_def om_sorted_filter)

lemma om_sorted_distinct: "om_sorted m \<Longrightarrow> distinct (map fst m)"
  by (simp add: om_sorted_def strict_sorted_iff)

lemma om_lookup_iff: "om_sorted m \<Longrightarrow> map_of m k = Some v \<longleftrightarrow> (k, v) \<in> set m"
  by (simp add: om_sorted_distinct)

lemma om_not_dom: "(\<forall>p \<in> set m. k \<noteq> fst p) \<Longrightarrow> map_of m k = None"
  by (induction m) auto

lemma map_of_om_put [simp, om_simps]:
  "om_sorted m \<Longrightarrow> map_of (om_put k v m) = (map_of m)(k \<mapsto> v)"
  by (induction k v m rule: om_put.induct) (auto simp: fun_eq_iff)

lemma map_of_om_insert [om_simps]:
  "om_sorted m \<Longrightarrow>
   map_of (om_insert k v m) = (case map_of m k of None \<Rightarrow> (map_of m)(k \<mapsto> v) | Some _ \<Rightarrow> map_of m)"
proof (induction k v m rule: om_insert.induct)
  case (2 k v k' v' m)
  have "k < k' \<Longrightarrow> map_of m k = None" using 2(2) by (intro om_not_dom) auto
  then show ?case using 2 by (auto simp: fun_eq_iff split: option.splits)
qed auto

lemma map_of_om_erase [simp, om_simps]: "map_of (om_erase k m) = (map_of m)(k := None)"
  by (induction m) (auto simp: om_erase_def fun_eq_iff)

lemma om_upper_bound_filter:
  "om_sorted m \<Longrightarrow> om_upper_bound k m = filter (\<lambda>p. k < fst p) m"
proof (induction m)
  case (Cons p m)
  then show ?case
    by (cases p) (auto simp: om_upper_bound_def intro!: filter_True [symmetric])
qed (simp add: om_upper_bound_def)

lemma om_lower_bound_filter:
  "om_sorted m \<Longrightarrow> om_lower_bound k m = filter (\<lambda>p. k \<le> fst p) m"
proof (induction m)
  case (Cons p m)
  then show ?case
    by (cases p) (auto simp: om_lower_bound_def intro!: filter_True [symmetric])
qed (simp add: om_lower_bound_def)

lemma om_takeWhile_filter_lt:
  "om_sorted m \<Longrightarrow> takeWhile (\<lambda>p. fst p < k) m = filter (\<lambda>p. fst p < k) m"
proof (induction m)
  case (Cons p m)
  then show ?case by (cases p) (auto intro!: filter_False [symmetric])
qed simp

lemma om_takeWhile_filter_le:
  "om_sorted m \<Longrightarrow> takeWhile (\<lambda>p. fst p \<le> k) m = filter (\<lambda>p. fst p \<le> k) m"
proof (induction m)
  case (Cons p m)
  then show ?case by (cases p) (auto intro!: filter_False [symmetric])
qed simp

lemma om_sorted_last_max:
  assumes "om_sorted m" "p \<in> set m"
  shows "fst p \<le> fst (last m)"
  using assms by (induction m) (auto intro: less_imp_le)

lemma om_pred_lt_Some:
  assumes "om_sorted m" "om_pred_lt t m = Some (w, v)"
  shows "map_of m w = Some v" "w < t" "\<And>w'. w' \<in> dom (map_of m) \<Longrightarrow> w' < t \<Longrightarrow> w' \<le> w"
proof -
  let ?b = "filter (\<lambda>p. fst p < t) m"
  have ne: "?b \<noteq> []" and l: "last ?b = (w, v)"
    using assms by (auto simp: om_pred_lt_def om_takeWhile_filter_lt split: list.splits)
  from last_in_set [OF ne] l have mem: "(w, v) \<in> set ?b" by simp
  then show "map_of m w = Some v" "w < t" using assms(1) by (auto simp: om_lookup_iff)
  fix w' assume "w' \<in> dom (map_of m)" "w' < t"
  then obtain v' where "(w', v') \<in> set ?b" using assms(1) by (auto simp: om_lookup_iff)
  then show "w' \<le> w" using om_sorted_last_max [of ?b "(w', v')"] l assms(1)
    by (simp add: om_sorted_filter)
qed

lemma om_pred_lt_None:
  assumes "om_sorted m"
  shows "om_pred_lt t m = None \<longleftrightarrow> (\<forall>w \<in> dom (map_of m). \<not> w < t)"
proof -
  have "om_pred_lt t m = None \<longleftrightarrow> filter (\<lambda>p. fst p < t) m = []"
    using assms by (simp add: om_pred_lt_def om_takeWhile_filter_lt split: list.splits)
  also have "\<dots> \<longleftrightarrow> (\<forall>w \<in> dom (map_of m). \<not> w < t)"
    by (auto simp: filter_empty_conv dom_map_of_conv_image_fst)
  finally show ?thesis .
qed

lemma om_pred_le_Some:
  assumes "om_sorted m" "om_pred_le t m = Some (w, v)"
  shows "map_of m w = Some v" "w \<le> t" "\<And>w'. w' \<in> dom (map_of m) \<Longrightarrow> w' \<le> t \<Longrightarrow> w' \<le> w"
proof -
  let ?b = "filter (\<lambda>p. fst p \<le> t) m"
  have ne: "?b \<noteq> []" and l: "last ?b = (w, v)"
    using assms by (auto simp: om_pred_le_def om_takeWhile_filter_le split: list.splits)
  from last_in_set [OF ne] l have mem: "(w, v) \<in> set ?b" by simp
  then show "map_of m w = Some v" "w \<le> t" using assms(1) by (auto simp: om_lookup_iff)
  fix w' assume "w' \<in> dom (map_of m)" "w' \<le> t"
  then obtain v' where "(w', v') \<in> set ?b" using assms(1) by (auto simp: om_lookup_iff)
  then show "w' \<le> w" using om_sorted_last_max [of ?b "(w', v')"] l assms(1)
    by (simp add: om_sorted_filter)
qed

lemma om_pred_le_None:
  assumes "om_sorted m"
  shows "om_pred_le t m = None \<longleftrightarrow> (\<forall>w \<in> dom (map_of m). \<not> w \<le> t)"
proof -
  have "om_pred_le t m = None \<longleftrightarrow> filter (\<lambda>p. fst p \<le> t) m = []"
    using assms by (simp add: om_pred_le_def om_takeWhile_filter_le split: list.splits)
  also have "\<dots> \<longleftrightarrow> (\<forall>w \<in> dom (map_of m). \<not> w \<le> t)"
    by (auto simp: filter_empty_conv dom_map_of_conv_image_fst)
  finally show ?thesis .
qed

section \<open>The contract of an ordered container\<close>

locale ordered_map =
  fixes ins :: "'k::linorder \<Rightarrow> 'v \<Rightarrow> 'm \<Rightarrow> 'm"
    and rem :: "'k \<Rightarrow> 'm \<Rightarrow> 'm"
    and lookup :: "'m \<Rightarrow> 'k \<Rightarrow> 'v option"
    and pred_lt :: "'k \<Rightarrow> 'm \<Rightarrow> ('k \<times> 'v) option"
    and pred_le :: "'k \<Rightarrow> 'm \<Rightarrow> ('k \<times> 'v) option"
    and invar :: "'m \<Rightarrow> bool"
  assumes invar_ins: "invar m \<Longrightarrow> invar (ins k v m)"
    and invar_rem: "invar m \<Longrightarrow> invar (rem k m)"
    and lookup_ins: "invar m \<Longrightarrow> lookup (ins k v m) =
          (case lookup m k of None \<Rightarrow> (lookup m)(k \<mapsto> v) | Some _ \<Rightarrow> lookup m)"
    and lookup_rem: "invar m \<Longrightarrow> lookup (rem k m) = (lookup m)(k := None)"
    and pred_lt_lookup: "invar m \<Longrightarrow> pred_lt t m = Some (w, v) \<Longrightarrow> lookup m w = Some v \<and> w < t"
    and pred_lt_greatest:
          "invar m \<Longrightarrow> pred_lt t m = Some (w, v) \<Longrightarrow> w' \<in> dom (lookup m) \<Longrightarrow> w' < t \<Longrightarrow> w' \<le> w"
    and pred_lt_none: "invar m \<Longrightarrow> pred_lt t m = None \<Longrightarrow> w \<in> dom (lookup m) \<Longrightarrow> \<not> w < t"
    and pred_le_lookup: "invar m \<Longrightarrow> pred_le t m = Some (w, v) \<Longrightarrow> lookup m w = Some v \<and> w \<le> t"
    and pred_le_greatest:
          "invar m \<Longrightarrow> pred_le t m = Some (w, v) \<Longrightarrow> w' \<in> dom (lookup m) \<Longrightarrow> w' \<le> t \<Longrightarrow> w' \<le> w"
    and pred_le_none: "invar m \<Longrightarrow> pred_le t m = None \<Longrightarrow> w \<in> dom (lookup m) \<Longrightarrow> \<not> w \<le> t"
begin

lemma pred_lt_covers:
  assumes "invar m" "lookup m w = Some v" "w < t"
  obtains w' v' where "pred_lt t m = Some (w', v')" "w \<le> w'" "w' < t" "lookup m w' = Some v'"
  using assms pred_lt_none [of m t w] pred_lt_greatest [of m t _ _ w] pred_lt_lookup [of m t]
  by (cases "pred_lt t m") (auto simp: domIff)

lemma pred_le_covers:
  assumes "invar m" "lookup m w = Some v" "w \<le> t"
  obtains w' v' where "pred_le t m = Some (w', v')" "w \<le> w'" "w' \<le> t" "lookup m w' = Some v'"
  using assms pred_le_none [of m t w] pred_le_greatest [of m t _ _ w] pred_le_lookup [of m t]
  by (cases "pred_le t m") (auto simp: domIff)

lemma pred_le_unique:
  assumes "invar m" "lookup m w = Some v" "w \<le> t"
    "\<And>w'. w' \<in> dom (lookup m) \<Longrightarrow> w' \<le> t \<Longrightarrow> w' \<le> w"
  shows "pred_le t m = Some (w, v)"
proof -
  obtain w' v' where p: "pred_le t m = Some (w', v')" "w \<le> w'" "w' \<le> t" "lookup m w' = Some v'"
    using pred_le_covers [OF assms(1-3)] .
  with assms(4) [of w'] have "w' = w" by auto
  with p assms(2) show ?thesis by simp
qed

lemma pred_lt_unique:
  assumes "invar m" "lookup m w = Some v" "w < t"
    "\<And>w'. w' \<in> dom (lookup m) \<Longrightarrow> w' < t \<Longrightarrow> w' \<le> w"
  shows "pred_lt t m = Some (w, v)"
proof -
  obtain w' v' where p: "pred_lt t m = Some (w', v')" "w \<le> w'" "w' < t" "lookup m w' = Some v'"
    using pred_lt_covers [OF assms(1-3)] .
  with assms(4) [of w'] have "w' = w" by auto
  with p assms(2) show ?thesis by simp
qed

lemma ins_keeps: "invar m \<Longrightarrow> lookup m k = Some v \<Longrightarrow> lookup (ins k' v' m) k = Some v"
  by (auto simp: lookup_ins split: option.splits)

lemma ins_present: "invar m \<Longrightarrow> k \<in> dom (lookup (ins k v m))"
  by (auto simp: lookup_ins split: option.splits)

end

interpretation omap: ordered_map om_insert om_erase map_of om_pred_lt om_pred_le om_sorted
proof (unfold_locales, goal_cases)
  case (5 m t w v) then show ?case by (blast dest: om_pred_lt_Some(1,2))
next
  case (6 m t w v w') then show ?case by (blast dest: om_pred_lt_Some(3))
next
  case (8 m t w v) then show ?case by (blast dest: om_pred_le_Some(1,2))
next
  case (9 m t w v w') then show ?case by (blast dest: om_pred_le_Some(3))
qed (simp_all add: map_of_om_insert om_pred_lt_None om_pred_le_None)

section \<open>Maps with sequence values\<close>

definition lookup_list :: "('k \<rightharpoonup> 'v list) \<Rightarrow> 'k \<Rightarrow> 'v list" where
  "lookup_list m k = (case m k of None \<Rightarrow> [] | Some xs \<Rightarrow> xs)"

lemma lookup_list_upd [simp]:
  "lookup_list (m(k \<mapsto> xs)) k' = (if k' = k then xs else lookup_list m k')"
  by (simp add: lookup_list_def)

lemma lookup_list_empty [simp]: "lookup_list (\<lambda>_. None) k = []" "lookup_list Map.empty k = []"
  by (simp_all add: lookup_list_def)

lemma lookup_list_Some: "m k = Some xs \<Longrightarrow> lookup_list m k = xs"
  by (simp add: lookup_list_def)

end
