(* ===== verification/Timestamps.thy ===== *)
theory Timestamps
  imports Pequin_Prelude
begin

text \<open>
  Transaction timestamps (\<open>store/common/timestamp.*\<close>), the simulated clock that produces them
  (\<open>store/common/truetime.cc\<close>), the conversions between the packed representation and
  wall-clock units (\<open>store/pequinstore/common.h\<close>) and the packing of a client id into the free
  low bits (\<open>snapshot_mgr.cc\<close>).  All arithmetic is on 64-bit words.
\<close>

section \<open>The timestamp class\<close>

datatype Timestamp = Timestamp (getTimestamp: u64) (getID: u64)

definition Timestamp_lt :: "Timestamp \<Rightarrow> Timestamp \<Rightarrow> bool" where
  "Timestamp_lt s t \<longleftrightarrow>
     (if getTimestamp s = getTimestamp t then getID s < getID t
      else getTimestamp s < getTimestamp t)"

definition Timestamp_le :: "Timestamp \<Rightarrow> Timestamp \<Rightarrow> bool" where
  "Timestamp_le s t \<longleftrightarrow>
     (if getTimestamp s = getTimestamp t then getID s \<le> getID t
      else getTimestamp s \<le> getTimestamp t)"

text \<open>The comparison operators make timestamps a linear order.\<close>

instantiation Timestamp :: linorder
begin

definition less_Timestamp_lt: "s < t \<longleftrightarrow> Timestamp_lt s t"

definition less_eq_Timestamp_le: "s \<le> t \<longleftrightarrow> Timestamp_le s t"

instance
  by standard (auto simp: less_Timestamp_lt less_eq_Timestamp_le Timestamp_lt_def Timestamp_le_def
      Timestamp.expand split: if_splits)

end

lemmas less_Timestamp_def = less_Timestamp_lt [unfolded Timestamp_lt_def]
lemmas less_eq_Timestamp_def = less_eq_Timestamp_le [unfolded Timestamp_le_def]

definition ts_zero :: Timestamp where
  "ts_zero = Timestamp 0 0"

definition isValid :: "Timestamp \<Rightarrow> bool" where
  "isValid t \<longleftrightarrow> getTimestamp t > 0 \<and> getID t > 0"

lemma ts_zero_least [simp]: "ts_zero \<le> t"
  by (simp add: ts_zero_def less_eq_Timestamp_def)

section \<open>The clock and the packed representation\<close>

definition GetTime :: "u64 \<Rightarrow> u64 \<Rightarrow> u64 \<Rightarrow> u64" where
  "GetTime simSkew tv_sec tv_usec =
     (let us = tv_usec + simSkew;
          (sec, us) = (if sint us > 999999 then (tv_sec + 1, us - 1000000)
                       else if sint us < 0 then (tv_sec - 1, us + 1000000)
                       else (tv_sec, us))
      in push_bit 32 sec OR push_bit 12 us)"

definition MStoTS :: "u64 \<Rightarrow> u64" where
  "MStoTS time_milis =
     (let second_comp = time_milis div 1000;
          milisecond_remain = time_milis mod 1000;
          microsecond_comp = milisecond_remain * 1000
      in push_bit 32 second_comp OR push_bit 12 microsecond_comp)"

definition TStoMS :: "u64 \<Rightarrow> u64" where
  "TStoMS time_stamp =
     (let second_comp = drop_bit 32 time_stamp;
          microsecond_comp = drop_bit 12 (time_stamp - push_bit 32 second_comp)
      in second_comp * 1000 + microsecond_comp div 1000)"

definition UStoTS :: "u64 \<Rightarrow> u64" where
  "UStoTS time_micros =
     (let second_comp = time_micros div 1000000;
          microsecond_comp = time_micros mod 1000000
      in push_bit 32 second_comp OR push_bit 12 microsecond_comp)"

definition TStoUS :: "u64 \<Rightarrow> u64" where
  "TStoUS time_stamp =
     (let second_comp = drop_bit 32 time_stamp;
          microsecond_comp = drop_bit 12 (time_stamp - push_bit 32 second_comp)
      in second_comp * 1000 * 1000 + microsecond_comp)"

text \<open>\<open>None\<close> is the \<open>Panic\<close> of a client id that does not fit, or of occupied low bits.\<close>

definition MergeTimestampId :: "u64 \<Rightarrow> u64 \<Rightarrow> u64 option" where
  "MergeTimestampId timestamp i =
     (let time_mask = 0xFFF in
      if i > time_mask then None
      else if timestamp AND time_mask = 0 then Some (timestamp OR i)
      else None)"

lemma unat_push_bit_small:
  fixes a :: u64
  assumes "unat a * 2 ^ n < 2 ^ 64"
  shows "unat (push_bit n a) = unat a * 2 ^ n"
proof -
  have "unat (push_bit n a) = take_bit 64 (push_bit n (unat a))"
    by (simp add: unsigned_push_bit_eq)
  also have "\<dots> = unat a * 2 ^ n"
    using assms by (simp only: push_bit_eq_mult take_bit_nat_eq_self)
  finally show ?thesis .
qed

lemma unat_drop_bit: "unat (drop_bit n (t::u64)) = unat t div 2 ^ n"
proof -
  have "unat (drop_bit n t) = drop_bit n (unat t)"
    using unsigned_less [of t, where 'a = nat]
    by (simp add: unsigned_drop_bit_eq take_bit_nat_eq_self)
  then show ?thesis by (simp only: drop_bit_eq_div)
qed

lemma pack_disjoint:
  fixes a b :: u64
  assumes "unat b < 2 ^ 20"
  shows "push_bit 32 a OR push_bit 12 b = push_bit 32 a + push_bit 12 b"
proof (rule disjunctive_add [symmetric])
  fix n
  have "\<not> bit b m" if "20 \<le> m" for m
  proof -
    have "unat b < 2 ^ m" using assms that power_increasing [of 20 m "2::nat"] by simp
    then have "\<not> bit (unat b) m" by (simp add: bit_iff_odd)
    then show ?thesis using bit_imp_le_length [of b m] by (auto simp: bit_unsigned_iff)
  qed
  then show "\<not> bit (push_bit 32 a) n \<or> \<not> bit (push_bit 12 b) n"
    by (auto simp: bit_push_bit_iff)
qed

lemma unat_pack:
  fixes a b :: u64
  assumes "unat a < 2 ^ 32" "unat b < 2 ^ 20"
  shows "unat (push_bit 32 a OR push_bit 12 b) = unat a * 2 ^ 32 + unat b * 2 ^ 12"
proof -
  have 1: "unat (push_bit 32 a) = unat a * 2 ^ 32" and 2: "unat (push_bit 12 b) = unat b * 2 ^ 12"
    using assms by (intro unat_push_bit_small; simp)+
  have "unat a * 2 ^ 32 + unat b * 2 ^ 12 < 2 ^ 64" using assms by simp
  then show ?thesis
    by (simp add: pack_disjoint [OF assms(2)] unat_word_ariths 1 2)
qed

lemma unat_seconds: "unat (drop_bit 32 (t::u64)) = unat t div 2 ^ 32"
  by (rule unat_drop_bit)

lemma unat_micros:
  "unat (drop_bit 12 ((t::u64) - push_bit 32 (drop_bit 32 t))) = unat t mod 2 ^ 32 div 2 ^ 12"
proof -
  have s: "unat (drop_bit 32 t) < 2 ^ 32"
    using unsigned_less [of t, where 'a = nat] by (simp add: unat_seconds less_mult_imp_div_less)
  then have p: "unat (push_bit 32 (drop_bit 32 t)) = unat t div 2 ^ 32 * 2 ^ 32"
    by (simp add: unat_push_bit_small unat_seconds)
  have "push_bit 32 (drop_bit 32 t) \<le> t"
    by (simp add: word_le_nat_alt p)
  then have "unat (t - push_bit 32 (drop_bit 32 t)) = unat t - unat t div 2 ^ 32 * 2 ^ 32"
    by (simp add: unat_sub p)
  also have "\<dots> = unat t mod 2 ^ 32" by (simp add: minus_div_mult_eq_mod)
  finally show ?thesis by (simp only: unat_drop_bit)
qed

lemma unat_TStoUS:
  "unat (TStoUS t) = unat t div 2 ^ 32 * 1000000 + unat t mod 2 ^ 32 div 2 ^ 12"
proof -
  have "unat t < 2 ^ 64" using unsigned_less [of t, where 'a = nat] by simp
  then have "unat t div 2 ^ 32 < 2 ^ 32" by (simp add: less_mult_imp_div_less)
  moreover have "unat t mod 2 ^ 32 div 2 ^ 12 < 2 ^ 20" by (simp add: less_mult_imp_div_less)
  ultimately show ?thesis
    by (simp add: TStoUS_def Let_def unat_word_ariths unat_seconds unat_micros)
qed

lemma unat_TStoMS:
  "unat (TStoMS t) = unat t div 2 ^ 32 * 1000 + unat t mod 2 ^ 32 div 2 ^ 12 div 1000"
proof -
  have "unat t < 2 ^ 64" using unsigned_less [of t, where 'a = nat] by simp
  then have "unat t div 2 ^ 32 < 2 ^ 32" by (simp add: less_mult_imp_div_less)
  moreover have "unat t mod 2 ^ 32 div 2 ^ 12 < 2 ^ 20" by (simp add: less_mult_imp_div_less)
  ultimately show ?thesis
    by (simp add: TStoMS_def Let_def unat_word_ariths unat_seconds unat_micros unat_div)
qed

lemma unat_MStoTS:
  assumes "unat ms div 1000 < 2 ^ 32"
  shows "unat (MStoTS ms) = unat ms div 1000 * 2 ^ 32 + unat ms mod 1000 * 1000 * 2 ^ 12"
proof -
  have m: "unat (ms mod 1000 * 1000) = unat ms mod 1000 * 1000"
    using mod_less_divisor [of 1000 "unat ms"] by (simp add: unat_word_ariths unat_mod)
  have "unat (ms mod 1000 * 1000) < 2 ^ 20"
    using mod_less_divisor [of 1000 "unat ms"] by (simp add: m)
  then show ?thesis
    using assms by (simp add: MStoTS_def Let_def unat_pack unat_div m)
qed

lemma unat_UStoTS:
  assumes "unat us div 1000000 < 2 ^ 32"
  shows "unat (UStoTS us) = unat us div 1000000 * 2 ^ 32 + unat us mod 1000000 * 2 ^ 12"
proof -
  have "unat (us mod 1000000) < 2 ^ 20"
    using mod_less_divisor [of 1000000 "unat us"] by (simp add: unat_mod)
  then show ?thesis
    using assms by (simp add: UStoTS_def Let_def unat_pack unat_div unat_mod)
qed

text \<open>A packed timestamp whose microsecond field is a number of microseconds.\<close>

definition wf_packed :: "u64 \<Rightarrow> bool" where
  "wf_packed t \<longleftrightarrow> unat t mod 2 ^ 32 div 2 ^ 12 < 1000000"

lemma carry_le: "a < b \<Longrightarrow> c < n \<Longrightarrow> a * n + c \<le> b * n + d" for a b c d n :: nat
  using mult_le_mono1 [of "a + 1" b n] by simp

lemma TStoUS_mono:
  assumes "wf_packed s" "s \<le> t"
  shows "TStoUS s \<le> TStoUS t"
proof -
  have le: "unat s \<le> unat t" using assms(2) by (simp add: word_le_nat_alt)
  show ?thesis
  proof (cases "unat s div 2 ^ 32 = unat t div 2 ^ 32")
    case True
    then have "unat s mod 2 ^ 32 \<le> unat t mod 2 ^ 32"
      using le by (metis add_le_cancel_left div_mult_mod_eq)
    then have "unat s mod 2 ^ 32 div 2 ^ 12 \<le> unat t mod 2 ^ 32 div 2 ^ 12"
      by (rule div_le_mono)
    then show ?thesis using True by (simp add: word_le_nat_alt unat_TStoUS)
  next
    case False
    then have "unat s div 2 ^ 32 < unat t div 2 ^ 32"
      using div_le_mono [OF le, of "2 ^ 32"] by simp
    then show ?thesis
      using assms(1) unfolding word_le_nat_alt unat_TStoUS wf_packed_def by (intro carry_le)
  qed
qed

lemma unat_merge:
  assumes "MergeTimestampId ts i = Some m"
  shows "unat m = unat ts + unat i" "unat i < 2 ^ 12" "2 ^ 12 dvd unat ts"
proof -
  have i: "i \<le> 0xFFF" and a: "ts AND 0xFFF = 0" and m: "m = ts OR i"
    using assms by (auto simp: MergeTimestampId_def Let_def split: if_splits)
  then show i': "unat i < 2 ^ 12" by (simp add: word_le_nat_alt)
  have "take_bit 12 ts = 0" using a by (simp add: take_bit_eq_mask mask_eq_exp_minus_1)
  then have "take_bit 12 (unat ts) = 0"
    by (metis unsigned_0 unsigned_take_bit_eq)
  then show "2 ^ 12 dvd unat ts" by (simp only: take_bit_eq_mod mod_eq_0_iff_dvd)
  have "\<not> bit ts n \<or> \<not> bit i n" for n
  proof (cases "n < 12")
    case True
    then have "bit (take_bit 12 ts) n = bit ts n" by (simp only: bit_take_bit_iff simp_thms)
    then show ?thesis using \<open>take_bit 12 ts = 0\<close> by simp
  next
    case False
    have "unat i < 2 ^ n" using i' False power_increasing [of 12 n "2::nat"] by simp
    then have "\<not> bit (unat i) n" by (simp add: bit_iff_odd)
    then show ?thesis using bit_imp_le_length [of i n] by (auto simp: bit_unsigned_iff)
  qed
  then have sum: "m = ts + i" by (simp add: m disjunctive_add)
  have "unat ts + unat i < 2 ^ 64"
  proof -
    obtain q where q: "unat ts = 2 ^ 12 * q" using \<open>2 ^ 12 dvd unat ts\<close> by auto
    have "unat ts < 2 ^ 64" using unsigned_less [of ts, where 'a = nat] by simp
    then have "q < 2 ^ 52" using q by simp
    then have "q + 1 \<le> 2 ^ 52" by simp
    then show ?thesis using q i' by simp
  qed
  then show "unat m = unat ts + unat i" by (simp add: sum unat_word_ariths)
qed

lemma merge_order:
  assumes "MergeTimestampId ts i = Some m" "MergeTimestampId ts' i' = Some m'"
  shows "m < m' \<longleftrightarrow> Timestamp ts i < Timestamp ts' i'"
proof -
  note u = unat_merge [OF assms(1)] unat_merge [OF assms(2)]
  obtain q q' where q: "unat ts = 2 ^ 12 * q" "unat ts' = 2 ^ 12 * q'"
    using u(3,6) by (auto elim!: dvdE)
  have e: "ts = ts' \<longleftrightarrow> q = q'" "ts < ts' \<longleftrightarrow> q < q'"
    using q by (simp_all add: word_less_nat_alt word_unat_eq_iff)
  show ?thesis
    using u(1,2,4,5) q by (auto simp: less_Timestamp_def e word_less_nat_alt)
qed

lemma pack_low_bits:
  fixes a b :: u64
  shows "(push_bit 32 a OR push_bit 12 b) AND 0xFFF = 0"
proof -
  have "take_bit 12 (push_bit 32 a OR push_bit 12 b) = 0"
    by (simp add: take_bit_or take_bit_push_bit)
  then show ?thesis by (simp add: take_bit_eq_mask mask_eq_exp_minus_1)
qed

lemma GetTime_low_bits: "GetTime skew sec us AND 0xFFF = 0"
  by (simp add: GetTime_def Let_def pack_low_bits split: prod.split)

section \<open>Properties of timestamps\<close>

text \<open>
  C20. The conversions between packed timestamps and wall-clock time lose nothing as long as the
  seconds fit in 32 bits: unpacking a packed number of milliseconds, or of microseconds, returns it.
\<close>
theorem packed_roundtrip:
  assumes "unat ms div 1000 < 2 ^ 32" "unat us div 1000000 < 2 ^ 32"
  shows "TStoMS (MStoTS ms) = ms \<and> TStoUS (UStoTS us) = us"
proof
  have "unat ms mod 1000 * 1000 * 2 ^ 12 < 2 ^ 32"
    using mod_less_divisor [of 1000 "unat ms"] by simp
  then show "TStoMS (MStoTS ms) = ms"
    by (simp add: word_unat_eq_iff unat_TStoMS unat_MStoTS [OF assms(1)] del: mult_Suc_right)
  have "unat us mod 1000000 * 2 ^ 12 < 2 ^ 32"
    using mod_less_divisor [of 1000000 "unat us"] by simp
  then show "TStoUS (UStoTS us) = us"
    by (simp add: word_unat_eq_iff unat_TStoUS unat_UStoTS [OF assms(2)])
qed

theorem packed_roundtrip_witness:
  "TStoMS (MStoTS 1700000000123) = 1700000000123 \<and> TStoUS (UStoTS 1700000000123456) = 1700000000123456"
  using packed_roundtrip [of 1700000000123 1700000000123456] by simp

text \<open>
  C19. Packing a client id into a timestamp is an order embedding: whenever neither call panics, the
  packed words compare exactly as the (timestamp, id) pairs do, and equal words come from equal pairs.
\<close>
theorem MergeTimestampId_embeds:
  assumes "MergeTimestampId ts i = Some m" "MergeTimestampId ts' i' = Some m'"
  shows "(m < m' \<longleftrightarrow> Timestamp ts i < Timestamp ts' i') \<and>
         (m = m' \<longleftrightarrow> Timestamp ts i = Timestamp ts' i')"
  using merge_order [OF assms] merge_order [OF assms(2,1)]
  by (metis less_irrefl linorder_neq_iff)

theorem MergeTimestampId_embeds_witness:
  "MergeTimestampId 0x5000 7 = Some 0x5007 \<and> MergeTimestampId 0x6000 3 = Some 0x6003 \<and>
   Timestamp 0x5000 7 < Timestamp 0x6000 3"
  using MergeTimestampId_embeds [of "0x5000" 7 "0x5007" "0x6000" 3 "0x6003"]
  by (simp add: MergeTimestampId_def)

text \<open>
  A timestamp taken from the clock always has its low twelve bits free, so packing a client id
  into it succeeds exactly for the ids below 4096 and panics for all others.
\<close>
theorem GetTime_mergeable:
  "MergeTimestampId (GetTime skew sec us) i =
     (if i \<le> 0xFFF then Some (GetTime skew sec us OR i) else None)"
  by (auto simp: MergeTimestampId_def Let_def GetTime_low_bits)

end
