(* ===== verification/Version_Store.thy ===== *)
theory Version_Store
  imports Timestamps "HOL-Library.Multiset"
begin

text \<open>
  The multi-version key-value store (\<open>store/common/backend/versionstore_safe.h\<close>): per key a
  \<open>std::set\<close> of versions ordered by write timestamp, and a map of the last committed reader of
  a version.  The locale \<open>version_store\<close> is the contract the replica relies on.
\<close>

section \<open>The store and its operations\<close>

record ('t, 'v) VersionedKVStore =
  vs_store :: "string \<rightharpoonup> ('t, 'v) omap"
  vs_lastReads :: "string \<rightharpoonup> ('t, 't) omap"

definition vs_empty :: "('t, 'v) VersionedKVStore" where
  "vs_empty = \<lparr>vs_store = Map.empty, vs_lastReads = Map.empty\<rparr>"

definition vs_inStore :: "('t, 'v) VersionedKVStore \<Rightarrow> string \<Rightarrow> bool" where
  "vs_inStore s key = (case vs_store s key of None \<Rightarrow> False | Some vs \<Rightarrow> vs \<noteq> [])"

definition vs_getValue ::
  "('t::linorder, 'v) VersionedKVStore \<Rightarrow> string \<Rightarrow> 't \<Rightarrow> ('t \<times> 'v) option" where
  "vs_getValue s key t = om_pred_le t (lookup_list (vs_store s) key)"

definition vs_get_latest :: "('t, 'v) VersionedKVStore \<Rightarrow> string \<Rightarrow> ('t \<times> 'v) option" where
  "vs_get_latest s key =
     (if vs_inStore s key then Some (last (lookup_list (vs_store s) key)) else None)"

definition vs_get ::
  "('t::linorder, 'v) VersionedKVStore \<Rightarrow> string \<Rightarrow> 't \<Rightarrow> ('t \<times> 'v) option" where
  "vs_get s key t = (if vs_inStore s key then vs_getValue s key t else None)"

text \<open>The second bound is only assigned when a later version exists.\<close>

definition vs_getRange ::
  "('t::linorder, 'v) VersionedKVStore \<Rightarrow> string \<Rightarrow> 't \<Rightarrow> ('t \<times> 't option) option" where
  "vs_getRange s key t =
     (if vs_inStore s key then
        (case vs_getValue s key t of
           None \<Rightarrow> None
         | Some (w, _) \<Rightarrow>
             Some (w, case om_upper_bound t (lookup_list (vs_store s) key) of
                        [] \<Rightarrow> None | (w', _) # _ \<Rightarrow> Some w'))
      else None)"

text \<open>\<open>store.insert(a, key)\<close> creates an empty version set for an unknown key.\<close>

definition vs_touch :: "string \<Rightarrow> ('t, 'v) VersionedKVStore \<Rightarrow> ('t, 'v) VersionedKVStore" where
  "vs_touch key s = s\<lparr>vs_store := (vs_store s)(key \<mapsto> lookup_list (vs_store s) key)\<rparr>"

definition vs_getUpperBound ::
  "('t::linorder, 'v) VersionedKVStore \<Rightarrow> string \<Rightarrow> 't \<Rightarrow> ('t, 'v) VersionedKVStore \<times> 't option" where
  "vs_getUpperBound s key t =
     (vs_touch key s,
      case om_upper_bound t (lookup_list (vs_store s) key) of [] \<Rightarrow> None | (w, _) # _ \<Rightarrow> Some w)"

definition vs_put ::
  "string \<Rightarrow> 'v \<Rightarrow> 't::linorder \<Rightarrow> ('t, 'v) VersionedKVStore \<Rightarrow> ('t, 'v) VersionedKVStore" where
  "vs_put key v t s =
     s\<lparr>vs_store := (vs_store s)(key \<mapsto> om_insert t v (lookup_list (vs_store s) key))\<rparr>"

definition vs_commitGet ::
  "string \<Rightarrow> 't::linorder \<Rightarrow> 't \<Rightarrow> ('t, 'v) VersionedKVStore \<Rightarrow> ('t, 'v) VersionedKVStore" where
  "vs_commitGet key readTime commit s =
     (if vs_inStore s key then
        (case vs_getValue s key readTime of
           None \<Rightarrow> s
         | Some (w, _) \<Rightarrow>
             (case vs_lastReads s key of
                None \<Rightarrow> s
              | Some rs \<Rightarrow>
                  (case map_of rs w of
                     None \<Rightarrow> s
                   | Some r \<Rightarrow>
                       if r < commit
                       then s\<lparr>vs_lastReads := (vs_lastReads s)(key \<mapsto> om_put w commit rs)\<rparr>
                       else s)))
      else s)"

definition vs_getLastRead :: "('t, 'v) VersionedKVStore \<Rightarrow> string \<Rightarrow> 't option" where
  "vs_getLastRead s key =
     (case vs_get_latest s key of
        None \<Rightarrow> None
      | Some (w, _) \<Rightarrow> (case vs_lastReads s key of None \<Rightarrow> None | Some rs \<Rightarrow> map_of rs w))"

text \<open>The outer \<open>None\<close> is the dereference of the end iterator.\<close>

definition vs_getLastRead_at ::
  "('t::linorder, 'v) VersionedKVStore \<Rightarrow> string \<Rightarrow> 't \<Rightarrow> 't option option" where
  "vs_getLastRead_at s key t =
     (if vs_inStore s key then
        (case vs_lastReads s key of
           None \<Rightarrow> Some None
         | Some rs \<Rightarrow> (case vs_getValue s key t of None \<Rightarrow> None | Some (w, _) \<Rightarrow> Some (map_of rs w)))
      else Some None)"

definition vs_getCommittedAfter ::
  "('t::linorder, 'v) VersionedKVStore \<Rightarrow> string \<Rightarrow> 't \<Rightarrow> ('t \<times> 'v) list option" where
  "vs_getCommittedAfter s key t =
     (case vs_store s key of None \<Rightarrow> None | Some vs \<Rightarrow> Some (om_upper_bound t vs))"

definition vs_getPreceedingCommit ::
  "('t::linorder, 'v) VersionedKVStore \<Rightarrow> string \<Rightarrow> 't \<Rightarrow> ('t \<times> 'v) option" where
  "vs_getPreceedingCommit s key t =
     (case vs_store s key of None \<Rightarrow> None | Some vs \<Rightarrow> om_pred_lt t vs)"

definition vs_testLatestCommits :: "('t, 'v) VersionedKVStore \<Rightarrow> string \<Rightarrow> ('t \<times> 'v) list" where
  "vs_testLatestCommits s key =
     (case vs_store s key of None \<Rightarrow> [] | Some vs \<Rightarrow> take 10 (rev vs))"

section \<open>Invariant and abstraction\<close>

definition vs_ok :: "('t::linorder, 'v) VersionedKVStore \<Rightarrow> bool" where
  "vs_ok s \<longleftrightarrow> (\<forall>key. om_sorted (lookup_list (vs_store s) key))"

definition vs_versions :: "('t, 'v) VersionedKVStore \<Rightarrow> string \<Rightarrow> 't \<Rightarrow> 'v option" where
  "vs_versions s key = map_of (lookup_list (vs_store s) key)"

lemma vs_ok_empty [simp]: "vs_ok vs_empty"
  by (simp add: vs_ok_def vs_empty_def)

lemma vs_ok_put [simp]: "vs_ok s \<Longrightarrow> vs_ok (vs_put key v t s)"
  by (simp add: vs_ok_def vs_put_def)

lemma vs_ok_touch [simp]: "vs_ok s \<Longrightarrow> vs_ok (vs_touch key s)"
  by (simp add: vs_ok_def vs_touch_def)

lemma vs_ok_commitGet [simp]: "vs_ok s \<Longrightarrow> vs_ok (vs_commitGet key r c s)"
  by (simp add: vs_ok_def vs_commitGet_def split: option.splits)

lemma vs_versions_put:
  "vs_ok s \<Longrightarrow> vs_versions (vs_put key v t s) =
     (case vs_versions s key t of
        None \<Rightarrow> (vs_versions s)(key := (vs_versions s key)(t \<mapsto> v))
      | Some _ \<Rightarrow> vs_versions s)"
  by (rule ext) (auto simp: vs_versions_def vs_put_def vs_ok_def map_of_om_insert
      split: option.splits)

lemma vs_versions_touch [simp]: "vs_versions (vs_touch key s) = vs_versions s"
  by (rule ext) (simp add: vs_versions_def vs_touch_def)

lemma vs_versions_commitGet [simp]: "vs_versions (vs_commitGet key r c s) = vs_versions s"
  by (rule ext) (simp add: vs_versions_def vs_commitGet_def split: option.splits)

lemma vs_get_pred: "vs_get s key t = om_pred_le t (lookup_list (vs_store s) key)"
  by (auto simp: vs_get_def vs_getValue_def vs_inStore_def lookup_list_def om_pred_le_def
      split: option.splits list.splits)

lemma vs_preceeding_pred: "vs_getPreceedingCommit s key t = om_pred_lt t (lookup_list (vs_store s) key)"
  by (auto simp: vs_getPreceedingCommit_def lookup_list_def om_pred_lt_def split: option.splits)

definition vs_after :: "('t::linorder, 'v) VersionedKVStore \<Rightarrow> string \<Rightarrow> 't \<Rightarrow> ('t \<times> 'v) list" where
  "vs_after s key t = (case vs_getCommittedAfter s key t of None \<Rightarrow> [] | Some l \<Rightarrow> l)"

lemma vs_after_upper_bound: "vs_after s key t = om_upper_bound t (lookup_list (vs_store s) key)"
  by (simp add: vs_after_def vs_getCommittedAfter_def lookup_list_def om_upper_bound_def
      split: option.split)

lemma vs_okD: "vs_ok s \<Longrightarrow> om_sorted (lookup_list (vs_store s) key)"
  by (simp add: vs_ok_def)

lemma vs_after_filter:
  "vs_ok s \<Longrightarrow> vs_after s key t = filter (\<lambda>p. t < fst p) (lookup_list (vs_store s) key)"
  by (simp only: vs_after_upper_bound om_upper_bound_filter vs_okD)

section \<open>The contract of a version store\<close>

locale version_store =
  fixes put :: "string \<Rightarrow> 'v \<Rightarrow> 't::linorder \<Rightarrow> 's \<Rightarrow> 's"
    and get :: "'s \<Rightarrow> string \<Rightarrow> 't \<Rightarrow> ('t \<times> 'v) option"
    and preceding :: "'s \<Rightarrow> string \<Rightarrow> 't \<Rightarrow> ('t \<times> 'v) option"
    and after :: "'s \<Rightarrow> string \<Rightarrow> 't \<Rightarrow> ('t \<times> 'v) list"
    and versions :: "'s \<Rightarrow> string \<Rightarrow> 't \<Rightarrow> 'v option"
    and invar :: "'s \<Rightarrow> bool"
  assumes invar_put: "invar s \<Longrightarrow> invar (put k v t s)"
    and versions_put: "invar s \<Longrightarrow> versions (put k v t s) =
          (case versions s k t of
             None \<Rightarrow> (versions s)(k := (versions s k)(t \<mapsto> v)) | Some _ \<Rightarrow> versions s)"
    and get_iff: "invar s \<Longrightarrow> get s k t = Some (w, v) \<longleftrightarrow>
          versions s k w = Some v \<and> w \<le> t \<and> (\<forall>w' \<in> dom (versions s k). w' \<le> t \<longrightarrow> w' \<le> w)"
    and get_none: "invar s \<Longrightarrow> get s k t = None \<longleftrightarrow> (\<forall>w \<in> dom (versions s k). \<not> w \<le> t)"
    and preceding_iff: "invar s \<Longrightarrow> preceding s k t = Some (w, v) \<longleftrightarrow>
          versions s k w = Some v \<and> w < t \<and> (\<forall>w' \<in> dom (versions s k). w' < t \<longrightarrow> w' \<le> w)"
    and after_iff: "invar s \<Longrightarrow> (w, v) \<in> set (after s k t) \<longleftrightarrow> versions s k w = Some v \<and> t < w"
begin

definition puts :: "(string \<times> 't \<times> 'v) list \<Rightarrow> 's \<Rightarrow> 's" where
  "puts ws s = fold (\<lambda>(k, t, v). put k v t) ws s"

lemma invar_puts: "invar s \<Longrightarrow> invar (puts ws s)"
  by (induction ws arbitrary: s) (auto simp: puts_def invar_put)

lemma put_keeps: "invar s \<Longrightarrow> versions s k w = Some x \<Longrightarrow> versions (put k' v t s) k w = Some x"
  by (auto simp: versions_put split: option.splits)

lemma puts_keep: "invar s \<Longrightarrow> versions s k w = Some x \<Longrightarrow> versions (puts ws s) k w = Some x"
  by (induction ws arbitrary: s) (auto simp: puts_def put_keeps invar_put)

lemma versions_puts:
  assumes "invar s"
  shows "versions (puts ws s) k t =
    (case versions s k t of Some x \<Rightarrow> Some x
     | None \<Rightarrow> map_of (map (\<lambda>(k, t, v). ((k, t), v)) ws) (k, t))"
  using assms
proof (induction ws arbitrary: s)
  case (Cons e ws)
  obtain k' t' v' where e: "e = (k', t', v')" by (cases e)
  have "versions (puts (e # ws) s) k t = versions (puts ws (put k' v' t' s)) k t"
    by (simp add: puts_def e)
  also have "\<dots> = (case versions (put k' v' t' s) k t of Some x \<Rightarrow> Some x
     | None \<Rightarrow> map_of (map (\<lambda>(k, t, v). ((k, t), v)) ws) (k, t))"
    by (rule Cons.IH) (simp add: invar_put Cons.prems)
  finally show ?case
    by (auto simp: versions_put [OF Cons.prems] e split: option.splits)
qed (simp add: puts_def split: option.splits)

lemma get_versions_cong:
  assumes "invar s" "invar s'" "versions s k = versions s' k"
  shows "get s k t = get s' k t"
proof (cases "get s k t")
  case None then show ?thesis using assms by (metis get_none)
next
  case (Some p)
  obtain w v where p: "p = (w, v)" by (cases p)
  have "get s' k t = Some (w, v)" using Some assms by (simp add: p get_iff)
  then show ?thesis using Some p by simp
qed

text \<open>Applying the same writes in any order gives a store that answers every read alike.\<close>

lemma puts_permute_get:
  assumes "invar s" "mset ws = mset ws'" "distinct (map (\<lambda>(k, t, v). (k, t)) ws)"
  shows "get (puts ws s) k t = get (puts ws' s) k t"
proof (rule get_versions_cong)
  let ?g = "\<lambda>(k, t, v). ((k, t), v)"
  have d: "distinct (map fst (map ?g ws))"
    using assms(3) by (simp add: comp_def case_prod_unfold)
  have "mset (map fst (map ?g ws)) = mset (map fst (map ?g ws'))" using assms(2) by simp
  with d have d': "distinct (map fst (map ?g ws'))" by (metis mset_eq_imp_distinct_iff)
  have "map_of (map ?g ws) = map_of (map ?g ws')"
    using mset_eq_setD [OF assms(2)] by (subst map_of_inject_set [OF d d']) simp
  then show "versions (puts ws s) k = versions (puts ws' s) k"
    by (intro ext) (simp add: versions_puts assms(1) split: option.splits)
qed (simp_all add: invar_puts assms(1))

lemma get_covers:
  assumes "invar s" "versions s k w = Some v" "w \<le> t"
  obtains w' v' where "get s k t = Some (w', v')" "w \<le> w'" "w' \<le> t"
proof (cases "get s k t")
  case None with assms show ?thesis by (auto simp: get_none)
next
  case (Some p)
  with assms that show ?thesis by (cases p) (auto simp: get_iff)
qed

lemma put_get:
  assumes "invar s" "versions s k t = None"
  shows "get (put k v t s) k t = Some (t, v)"
  using assms by (simp add: get_iff invar_put versions_put)

end

lemma vs_get_iff:
  assumes "vs_ok s"
  shows "vs_get s k t = Some (w, v) \<longleftrightarrow> vs_versions s k w = Some v \<and> w \<le> t \<and>
    (\<forall>w' \<in> dom (vs_versions s k). w' \<le> t \<longrightarrow> w' \<le> w)"
  unfolding vs_get_pred vs_versions_def
  using om_pred_le_Some [OF vs_okD [OF assms, of k], of t w v]
    omap.pred_le_unique [OF vs_okD [OF assms, of k], of w v t] by blast

lemma vs_preceeding_iff:
  assumes "vs_ok s"
  shows "vs_getPreceedingCommit s k t = Some (w, v) \<longleftrightarrow> vs_versions s k w = Some v \<and> w < t \<and>
    (\<forall>w' \<in> dom (vs_versions s k). w' < t \<longrightarrow> w' \<le> w)"
  unfolding vs_preceeding_pred vs_versions_def
  using om_pred_lt_Some [OF vs_okD [OF assms, of k], of t w v]
    omap.pred_lt_unique [OF vs_okD [OF assms, of k], of w v t] by blast

lemma vs_get_none:
  "vs_ok s \<Longrightarrow> vs_get s k t = None \<longleftrightarrow> (\<forall>w \<in> dom (vs_versions s k). \<not> w \<le> t)"
  by (simp only: vs_get_pred vs_versions_def om_pred_le_None vs_okD)

lemma vs_after_iff:
  "vs_ok s \<Longrightarrow> (w, v) \<in> set (vs_after s k t) \<longleftrightarrow> vs_versions s k w = Some v \<and> t < w"
  by (auto simp: vs_after_filter vs_versions_def om_lookup_iff vs_okD)

interpretation vs: version_store vs_put vs_get vs_getPreceedingCommit vs_after vs_versions vs_ok
  by unfold_locales
    (simp_all only: vs_ok_put vs_versions_put vs_get_iff vs_get_none vs_preceeding_iff vs_after_iff)

section \<open>Readers of a version are never recorded\<close>

text \<open>Every way the replica can change the store.\<close>

inductive vs_step ::
  "('t::linorder, 'v) VersionedKVStore \<Rightarrow> ('t, 'v) VersionedKVStore \<Rightarrow> bool" where
  vs_step_put: "vs_step s (vs_put key v t s)"
| vs_step_commitGet: "vs_step s (vs_commitGet key r c s)"
| vs_step_upper: "vs_step s (fst (vs_getUpperBound s key t))"

inductive_cases vs_stepE: "vs_step s s'"

lemma vs_step_ok: "vs_step s s' \<Longrightarrow> vs_ok s \<Longrightarrow> vs_ok s'"
  by (erule vs_stepE) (simp_all add: vs_getUpperBound_def)

lemma vs_step_lastReads:
  "vs_step s s' \<Longrightarrow> vs_lastReads s = Map.empty \<Longrightarrow> vs_lastReads s' = Map.empty"
  by (erule vs_stepE)
    (auto simp: vs_put_def vs_commitGet_def vs_getUpperBound_def vs_touch_def split: option.splits)

lemma vs_reach_lastReads:
  "vs_step\<^sup>*\<^sup>* vs_empty s \<Longrightarrow> vs_lastReads s = Map.empty"
  by (induction rule: rtranclp_induct) (simp_all add: vs_empty_def vs_step_lastReads)

lemma vs_reach_ok: "vs_step\<^sup>*\<^sup>* vs_empty s \<Longrightarrow> vs_ok s"
  by (induction rule: rtranclp_induct) (simp_all add: vs_step_ok)

section \<open>Properties of the version store\<close>

text \<open>
  C13. A read at time t returns the version with the greatest write timestamp not after t, and fails
  exactly when every version of the key is later than t.  This holds in every store the replica can
  build from the empty one.
\<close>
theorem vs_get_greatest:
  assumes "vs_step\<^sup>*\<^sup>* vs_empty s"
  shows "(vs_get s key t = None \<longleftrightarrow> (\<forall>w \<in> dom (vs_versions s key). t < w)) \<and>
    (\<forall>w v. vs_get s key t = Some (w, v) \<longleftrightarrow>
       vs_versions s key w = Some v \<and> w \<le> t \<and> (\<forall>w' \<in> dom (vs_versions s key). w' \<le> t \<longrightarrow> w' \<le> w))"
  using vs_get_iff [OF vs_reach_ok [OF assms]] vs_get_none [OF vs_reach_ok [OF assms]]
  by (simp add: not_le)

theorem vs_get_greatest_witness:
  "let s = vs_put ''k'' ''b'' (5::nat) (vs_put ''k'' ''a'' 2 vs_empty)
   in vs_step\<^sup>*\<^sup>* vs_empty s \<and> vs_get s ''k'' 4 = Some (2, ''a'') \<and> vs_get s ''k'' 1 = None"
proof -
  let ?s = "vs_put ''k'' ''b'' (5::nat) (vs_put ''k'' ''a'' 2 vs_empty)"
  have r: "vs_step\<^sup>*\<^sup>* vs_empty ?s"
    by (meson rtranclp.rtrancl_into_rtrancl rtranclp.rtrancl_refl vs_step_put)
  have v: "vs_versions ?s ''k'' = [2 \<mapsto> ''a'', 5 \<mapsto> ''b'']"
    by (auto simp: vs_versions_put vs_versions_def vs_empty_def fun_eq_iff vs_put_def)
  show ?thesis
    using r vs_get_greatest [OF r, of "''k''" 4] vs_get_greatest [OF r, of "''k''" 1]
    by (auto simp: Let_def v)
qed

text \<open>
  C12. Replica convergence: applying the same set of committed versions (no two of the same key and
  timestamp) in any two orders gives stores that answer every read alike.
\<close>
theorem vs_convergence:
  assumes "vs_ok s" "mset ws = mset ws'" "distinct (map (\<lambda>(k, t, v). (k, t)) ws)"
  shows "vs_get (fold (\<lambda>(k, t, v). vs_put k v t) ws s) key time =
         vs_get (fold (\<lambda>(k, t, v). vs_put k v t) ws' s) key time"
  using vs.puts_permute_get [OF assms] by (simp add: vs.puts_def)

theorem vs_convergence_witness:
  "let ws = [(''k'', 5::nat, ''b''), (''k'', 2, ''a'')]
   in vs_get (fold (\<lambda>(k, t, v). vs_put k v t) ws vs_empty) ''k'' 4 = Some (2, ''a'') \<and>
      vs_get (fold (\<lambda>(k, t, v). vs_put k v t) (rev ws) vs_empty) ''k'' 4 = Some (2, ''a'')"
  using vs_convergence [of vs_empty "[(''k'', 5::nat, ''b''), (''k'', 2, ''a'')]"
      "[(''k'', 2, ''a''), (''k'', 5, ''b'')]" "''k''" 4]
  by (simp add: Let_def vs_get_pred om_pred_le_def vs_put_def vs_empty_def add_mset_commute)

text \<open>
  \<open>commitGet\<close> only updates entries that are already there and nothing ever inserts one, so no
  last read is ever recorded: both \<open>getLastRead\<close> functions fail on every reachable store.
\<close>
theorem vs_getLastRead_never:
  assumes "vs_step\<^sup>*\<^sup>* vs_empty s"
  shows "vs_getLastRead s key = None \<and> vs_getLastRead_at s key t = Some None"
  using vs_reach_lastReads [OF assms]
  by (simp add: vs_getLastRead_def vs_getLastRead_at_def split: option.split)

theorem vs_getLastRead_never_witness:
  "let s = vs_commitGet ''k'' 3 9 (vs_put ''k'' ''a'' (2::nat) vs_empty)
   in vs_step\<^sup>*\<^sup>* vs_empty s \<and> vs_get s ''k'' 3 = Some (2, ''a'') \<and> vs_getLastRead s ''k'' = None"
proof -
  let ?s = "vs_commitGet ''k'' 3 9 (vs_put ''k'' ''a'' (2::nat) vs_empty)"
  have r: "vs_step\<^sup>*\<^sup>* vs_empty ?s"
    by (meson rtranclp.rtrancl_into_rtrancl rtranclp.rtrancl_refl vs_step_put vs_step_commitGet)
  show ?thesis
    using r vs_getLastRead_never [OF r, of "''k''"]
    by (simp add: Let_def vs_get_pred om_pred_le_def vs_commitGet_def vs_getValue_def vs_inStore_def
        vs_put_def vs_empty_def)
qed

end
