(* ===== verification/Proto.thy ===== *)
theory Proto
  imports Timestamps
begin

text \<open>
  The protocol messages (\<open>pequin-proto.proto\<close>, \<open>common-proto.proto\<close>) as records.  An optional field
  the code tests with \<open>has_\<close> is an option; an optional field it only reads is modelled by its
  value, with the default protobuf returns for an absent one.  A repeated field is a list, a
  \<open>map\<close> field an association list, a \<open>oneof\<close> a datatype.
\<close>

section \<open>Reads, writes and transactions\<close>

record ReadMessage =
  read_key :: string
  readtime :: Timestamp
  read_is_table_col_version :: bool

record WriteMessage =
  write_key :: string
  write_value :: "string option"
  write_row_idx :: "int option"
  write_is_table_col_version :: bool

record RowUpdates =
  row_deletion :: "bool option"
  row_column_values :: "string list"
  row_write_set_idx :: int

record TableWrite =
  tw_rows :: "RowUpdates list"

record Signature =
  sig_process_id :: u64
  sig_signature :: string

type_synonym Signatures = "Signature list"
type_synonym GroupedSignatures = "(u64 \<times> Signatures) list"

record Write =
  w_committed_value :: "string option"
  w_committed_timestamp :: "Timestamp option"
  w_prepared_value :: "string option"
  w_prepared_timestamp :: "Timestamp option"
  w_prepared_txn_digest :: "string option"

record Dependency =
  dep_write :: Write
  dep_write_sigs :: "Signatures option"
  dep_involved_group :: int

record ReadPredicate =
  pred_table_name :: string
  pred_table_version :: Timestamp
  pred_instances :: "string list"
  pred_instantiations :: "string list list"

record ReadSet =
  rs_read_set :: "ReadMessage list"
  rs_deps :: "Dependency list"
  rs_read_predicates :: "ReadPredicate list"

record QueryGroupMeta =
  qgm_read_set_hash :: "string option"
  qgm_query_read_set :: "ReadSet option"

record QueryResultMetaData =
  qmd_query_id :: string
  qmd_retry_version :: u64
  qmd_group_meta :: "(u64 \<times> QueryGroupMeta) list"

record Transaction =
  client_id :: u64
  client_seq_num :: u64
  involved_groups :: "int list"
  read_set :: "ReadMessage list"
  write_set :: "WriteMessage list"
  deps :: "Dependency list"
  timestamp :: Timestamp
  query_set :: "QueryResultMetaData list"
  table_writes :: "(string \<times> TableWrite) list"
  last_query_seq :: "u64 option"
  read_predicates :: "ReadPredicate list"
  txndigest :: "string option"
  merged_read_set :: "ReadSet option"

definition empty_txn :: Transaction where
  "empty_txn = \<lparr>client_id = 0, client_seq_num = 0, involved_groups = [], read_set = [], write_set = [],
     deps = [], timestamp = ts_zero, query_set = [], table_writes = [], last_query_seq = None,
     read_predicates = [], txndigest = None, merged_read_set = None\<rparr>"

definition mk_read :: "string \<Rightarrow> Timestamp \<Rightarrow> ReadMessage" where
  "mk_read k t = \<lparr>read_key = k, readtime = t, read_is_table_col_version = False\<rparr>"

definition mk_write :: "string \<Rightarrow> string \<Rightarrow> WriteMessage" where
  "mk_write k v =
     \<lparr>write_key = k, write_value = Some v, write_row_idx = None, write_is_table_col_version = False\<rparr>"

section \<open>Decisions, votes and proofs\<close>

datatype CommitDecision = COMMIT | ABORT

datatype CCResult = CC_COMMIT | CC_ABORT | CC_ABSTAIN | CC_WAIT | CC_RETRY | CC_IGNORE

datatype proof_sigs = P1_sigs GroupedSignatures | P2_sigs GroupedSignatures | No_sigs

record CommittedProof =
  cp_txn :: Transaction
  cp_sigs :: proof_sigs
  cp_p2_view :: "u64 option"

record ConcurrencyControl =
  cc_ccr :: CCResult
  cc_committed_conflict :: "CommittedProof option"
  cc_txn_digest :: string
  cc_involved_group :: u64

record Phase2Decision =
  p2d_decision :: CommitDecision
  p2d_txn_digest :: string
  p2d_involved_group :: u64
  p2d_view :: "u64 option"

record SignedMessage =
  sm_process_id :: u64
  sm_data :: string
  sm_signature :: string

datatype p2_decision_oneof = P2_plain Phase2Decision | P2_signed SignedMessage | P2_none

record Phase2Reply =
  p2r_req_id :: u64
  p2r_decision :: p2_decision_oneof

datatype wb_oneof = WB_p1_sigs GroupedSignatures | WB_p2_sigs GroupedSignatures
  | WB_conflict CommittedProof | WB_none

record Writeback =
  wb_decision :: CommitDecision
  wb_txn_digest :: "string option"
  wb_txn :: "Transaction option"
  wb_proof :: wb_oneof
  wb_p2_view :: "u64 option"

text \<open>The writes the concurrency control looks at: those that are not a table or column version.\<close>

definition kv_writes :: "Transaction \<Rightarrow> WriteMessage list" where
  "kv_writes txn = filter (\<lambda>w. \<not> write_is_table_col_version w) (write_set txn)"

definition kv_reads :: "ReadMessage list \<Rightarrow> ReadMessage list" where
  "kv_reads rs = filter (\<lambda>r. \<not> read_is_table_col_version r) rs"

end
