(* ===== verification/Digest.thy ===== *)
theory Digest
  imports Proto
begin

text \<open>
  Digests of transactions, queries and read sets (\<open>store/pequinstore/common.cc\<close>).  The hash function
  is a parameter (BLAKE3 is a third-party library); the sequence of \<open>blake3_hasher_update\<close> calls is the
  concatenation of their arguments.
\<close>

section \<open>Byte strings\<close>

text \<open>The bytes of a 64-bit integer in memory order (little endian).\<close>

definition byte_at :: "u64 \<Rightarrow> nat \<Rightarrow> char" where
  "byte_at w i = char_of (unat (drop_bit (8 * i) w))"

definition le_bytes :: "u64 \<Rightarrow> string" where
  "le_bytes w = map (byte_at w) [0 ..< 8]"

definition hex_digit :: "nat \<Rightarrow> char" where
  "hex_digit d = ''0123456789abcdef'' ! d"

definition BytesToHex :: "string \<Rightarrow> nat \<Rightarrow> string" where
  "BytesToHex bytes maxLength =
     (let len = (if length bytes < maxLength then length bytes else maxLength)
      in concat (map (\<lambda>c. let n = of_char c :: nat in [hex_digit (n div 16), hex_digit (n mod 16)])
           (take len bytes)))"

section \<open>Digests\<close>

definition ts_bytes :: "Timestamp \<Rightarrow> string" where
  "ts_bytes t = le_bytes (getID t) @ le_bytes (getTimestamp t)"

definition read_bytes :: "ReadMessage \<Rightarrow> string" where
  "read_bytes r = read_key r @ ts_bytes (readtime r)"

definition opt_bytes :: "string option \<Rightarrow> string" where
  "opt_bytes v = (case v of None \<Rightarrow> [] | Some b \<Rightarrow> b)"

definition dep_digest :: "Dependency \<Rightarrow> string" where
  "dep_digest d = opt_bytes (w_prepared_txn_digest (dep_write d))"

definition pred_bytes :: "ReadPredicate \<Rightarrow> string" where
  "pred_bytes p =
     pred_table_name p @ ts_bytes (pred_table_version p) @ concat (map concat (pred_instantiations p))"

definition group_meta_bytes :: "u64 \<times> QueryGroupMeta \<Rightarrow> string" where
  "group_meta_bytes g =
     le_bytes (fst g) @
     (case qgm_read_set_hash (snd g) of
        Some h \<Rightarrow> h
      | None \<Rightarrow>
          (case qgm_query_read_set (snd g) of
             None \<Rightarrow> []
           | Some rs \<Rightarrow> concat (map read_bytes (rs_read_set rs)) @ concat (map dep_digest (rs_deps rs)) @
                        concat (map pred_bytes (rs_read_predicates rs))))"

definition query_md_bytes :: "QueryResultMetaData \<Rightarrow> string" where
  "query_md_bytes q =
     qmd_query_id q @ le_bytes (qmd_retry_version q) @ concat (map group_meta_bytes (qmd_group_meta q))"

definition row_bytes :: "RowUpdates \<Rightarrow> string" where
  "row_bytes r =
     (case row_deletion r of None \<Rightarrow> [] | Some d \<Rightarrow> [char_of (if d then 1 else 0 :: nat)]) @
     concat (row_column_values r)"

definition table_bytes :: "string \<times> TableWrite \<Rightarrow> string" where
  "table_bytes t = fst t @ concat (map row_bytes (tw_rows (snd t)))"

text \<open>The byte stream that is hashed; the tables are visited in name order.\<close>

definition txn_preimage :: "Transaction \<Rightarrow> string" where
  "txn_preimage txn =
     le_bytes (client_id txn) @ le_bytes (client_seq_num txn) @
     concat (map (\<lambda>g. le_bytes (of_int g)) (involved_groups txn)) @
     concat (map read_bytes (read_set txn)) @
     concat (map (\<lambda>w. write_key w @ opt_bytes (write_value w)) (write_set txn)) @
     concat (map dep_digest (deps txn)) @
     ts_bytes (timestamp txn) @
     concat (map query_md_bytes (query_set txn)) @
     concat (map pred_bytes (read_predicates txn)) @
     concat (map table_bytes (sort_key fst (table_writes txn)))"

definition TransactionDigest :: "(string \<Rightarrow> string) \<Rightarrow> Transaction \<Rightarrow> bool \<Rightarrow> string" where
  "TransactionDigest blake3 txn hashDigest =
     (if hashDigest then blake3 (txn_preimage txn)
      else le_bytes (client_id txn) @ le_bytes (client_seq_num txn))"

record Query =
  q_client_id :: u64
  q_query_seq_num :: u64
  q_query_cmd :: string
  q_timestamp :: Timestamp
  q_query_manager :: u64

definition QueryDigest :: "(string \<Rightarrow> string) \<Rightarrow> Query \<Rightarrow> bool \<Rightarrow> string" where
  "QueryDigest blake3 q queryHashDigest =
     (if queryHashDigest
      then blake3 (le_bytes (q_client_id q) @ le_bytes (q_query_seq_num q) @ q_query_cmd q @
                   ts_bytes (q_timestamp q) @ le_bytes (q_query_manager q))
      else le_bytes (q_client_id q) @ le_bytes (q_query_seq_num q))"

definition QueryRetryId :: "(string \<Rightarrow> string) \<Rightarrow> string \<Rightarrow> u64 \<Rightarrow> bool \<Rightarrow> string" where
  "QueryRetryId blake3 queryId retry_version queryHashDigest =
     (if queryHashDigest then blake3 (queryId @ le_bytes retry_version)
      else queryId @ le_bytes retry_version)"

definition generateReadSetSingleHash :: "(string \<Rightarrow> string) \<Rightarrow> ReadSet \<Rightarrow> string" where
  "generateReadSetSingleHash blake3 rs =
     blake3 (concat (map read_bytes (rs_read_set rs)) @
             concat (map (\<lambda>p. concat (map concat (pred_instantiations p))) (rs_read_predicates rs)))"

definition generateReadSetSingleHash_map ::
  "(string \<Rightarrow> string) \<Rightarrow> (string, Timestamp) omap \<Rightarrow> string" where
  "generateReadSetSingleHash_map blake3 rs = blake3 (concat (map (\<lambda>(k, t). k @ ts_bytes t) rs))"

section \<open>The Merkle root of a read set\<close>

text \<open>
  The tree is an array of hashes: node 0 is the root, node i has the children \<open>m * i + 1 .. m * i + m\<close>
  as far as they exist, and the leaves occupy the last \<open>n\<close> slots.  The loop hashes groups of siblings
  from the right until the root is written.
\<close>

definition mk_inner :: "nat \<Rightarrow> nat \<Rightarrow> nat" where
  "mk_inner m n = (n - 1 + (m - 2)) div (m - 1)"

definition mk_leaf :: "(string \<Rightarrow> string) \<Rightarrow> string \<times> Timestamp \<Rightarrow> string" where
  "mk_leaf blake3 e = blake3 (fst e @ ts_bytes (snd e))"

function (sequential) mk_loop :: "(string \<Rightarrow> string) \<Rightarrow> nat \<Rightarrow> nat \<Rightarrow> string list \<Rightarrow> string list" where
  "mk_loop blake3 m r tree =
     (if r > 1 \<and> m > 0 then
        let l = (r - 1) div m * m + 1;
            h = blake3 (concat (take (r + 1 - l) (drop l tree)))
        in mk_loop blake3 m (l - 1) (tree[(r - 1) div m := h])
      else tree)"
  by pat_completeness auto
termination
proof (relation "measure (\<lambda>(_, _, r, _). r)")
  fix blake3 :: "string \<Rightarrow> string" and m r :: nat and tree x h
  assume "1 < r \<and> 0 < m" "x = (r - 1) div m * m + 1"
  then have "x - 1 \<le> r - 1" by (simp add: div_times_less_eq_dividend)
  then show "((blake3, m, x - 1, tree[(r - 1) div m := h]), blake3, m, r, tree)
      \<in> measure (\<lambda>(_, _, r, _). r)"
    using \<open>1 < r \<and> 0 < m\<close> by auto
qed simp

declare mk_loop.simps [simp del]

text \<open>\<open>None\<close> is the failed assertion on an empty set, and a branching factor the size formula divides by.\<close>

definition generateReadSetMerkleRoot ::
  "(string \<Rightarrow> string) \<Rightarrow> (string, Timestamp) omap \<Rightarrow> nat \<Rightarrow> string option" where
  "generateReadSetMerkleRoot blake3 rs m =
     (let n = length rs in
      if n = 0 \<or> m < 2 then None
      else let inner = mk_inner m n;
               tree = replicate inner [] @ map (mk_leaf blake3) rs
           in Some (hd (mk_loop blake3 m (inner + n - 1) tree)))"

text \<open>The specification: a node is a leaf, or the hash of the concatenation of its children.\<close>

function mk_node :: "(string \<Rightarrow> string) \<Rightarrow> nat \<Rightarrow> nat \<Rightarrow> string list \<Rightarrow> nat \<Rightarrow> string" where
  "mk_node blake3 m inner leaves i =
     (if inner \<le> i \<or> m = 0 then (if i - inner < length leaves then leaves ! (i - inner) else [])
      else blake3 (concat (map (mk_node blake3 m inner leaves)
             [m * i + 1 ..< min (m * i + m + 1) (inner + length leaves)])))"
  by pat_completeness auto
termination
proof (relation "measure (\<lambda>(_, _, inner, leaves, i). inner + length leaves - i)")
  fix blake3 :: "string \<Rightarrow> string" and m inner :: nat and leaves :: "string list" and i x :: nat
  assume "\<not> (inner \<le> i \<or> m = 0)" "x \<in> set [m * i + 1 ..< min (m * i + m + 1) (inner + length leaves)]"
  then have "1 \<le> m" "m * i + 1 \<le> x" "x < inner + length leaves" by auto
  moreover from \<open>1 \<le> m\<close> have "1 * i \<le> m * i" by (rule mult_le_mono1)
  ultimately have "i < x \<and> x < inner + length leaves" by linarith
  then show "((blake3, m, inner, leaves, x), blake3, m, inner, leaves, i)
      \<in> measure (\<lambda>(_, _, inner, leaves, i). inner + length leaves - i)" by auto
qed simp

declare mk_node.simps [simp del]

lemma mk_node_leaf: "k < length leaves \<Longrightarrow> mk_node h m inner leaves (inner + k) = leaves ! k"
  by (simp add: mk_node.simps)

lemma take_drop_nth_map:
  "l + k \<le> length xs \<Longrightarrow> take k (drop l xs) = map ((!) xs) [l ..< l + k]"
  by (rule nth_equalityI) auto

lemma mk_loop_node:
  assumes "2 \<le> m" "length tree = N" "N = inner + length leaves" "N \<le> m * inner + 1" "0 < N"
    "r < N" "r = N - 1 \<or> m dvd r" "N \<noteq> 2"
    "\<And>j. j < N \<Longrightarrow> inner \<le> j \<or> r < m * j + 1 \<Longrightarrow> tree ! j = mk_node h m inner leaves j"
  shows "hd (mk_loop h m r tree) = mk_node h m inner leaves 0"
  using assms
proof (induction h m r tree rule: mk_loop.induct)
  case (1 h m r tree)
  note IH = 1(1) and m = 1(2) and len = 1(3) and N = 1(4) and bound = 1(5) and pos = 1(6)
    and r = 1(7) and edge = 1(8) and N2 = 1(9) and inv = 1(10)
  show ?case
  proof (cases "1 < r")
    case False
    have "r \<noteq> 1" using edge N2 m r by auto
    then have "tree ! 0 = mk_node h m inner leaves 0" using inv [of 0] False pos by simp
    moreover have "tree \<noteq> []" using len pos by auto
    ultimately show ?thesis using False by (simp add: mk_loop.simps [of h m r] hd_conv_nth)
  next
    case True
    define p where "p = (r - 1) div m"
    define l where "l = p * m + 1"
    have lr: "l \<le> r" "r \<le> p * m + m"
      using True m div_mult_mod_eq [of "r - 1" m] mod_less_divisor [of m "r - 1"]
      unfolding l_def p_def by linarith+
    have pin: "p < inner"
    proof -
      have "r - 1 < m * inner" using r bound True by linarith
      then show ?thesis using m by (simp add: p_def less_mult_imp_div_less mult.commute)
    qed
    have top: "min (m * p + m + 1) N = r + 1"
    proof (cases "r = N - 1")
      case True
      then have "N = r + 1" using r by simp
      then show ?thesis using lr(2) by (simp add: min_def mult.commute)
    next
      case False
      then obtain k where k: "r = m * k" using edge by (auto elim: dvdE)
      have "p < k" using lr(1) k m unfolding l_def
        by (metis Suc_eq_plus1 Suc_le_eq mult.commute mult_less_cancel1)
      then have "m * p + m \<le> r" using k m by (metis Suc_leI add.commute mult_Suc_right mult_le_mono2)
      then show ?thesis using lr(2) r by (simp add: min_def mult.commute)
    qed
    have kids: "tree ! i = mk_node h m inner leaves i" if "l \<le> i" "i \<le> r" for i
    proof (rule inv)
      show "i < N" using that r by simp
      have "m * l \<le> m * i" using that by simp
      moreover have "m * l = m * (p * m) + m" by (simp add: l_def algebra_simps)
      moreover have "1 * (p * m) \<le> m * (p * m)" using m by (intro mult_le_mono1) simp
      ultimately show "inner \<le> i \<or> r < m * i + 1" using lr(2) by linarith
    qed
    let ?h = "h (concat (take (r + 1 - l) (drop l tree)))"
    have "take (r + 1 - l) (drop l tree) = map ((!) tree) [l ..< r + 1]"
      using lr(1) r len by (subst take_drop_nth_map) auto
    also have "\<dots> = map (mk_node h m inner leaves) [l ..< r + 1]" using kids by auto
    finally have hp: "?h = mk_node h m inner leaves p"
      using pin m top N by (simp add: mk_node.simps [of h m inner leaves p] l_def mult.commute)
    have "hd (mk_loop h m (l - 1) (tree[p := ?h])) = mk_node h m inner leaves 0"
    proof (rule IH [OF _ l_def [unfolded p_def] refl, folded p_def l_def])
      show "1 < r \<and> 0 < m" using True m by simp
      show "length (tree[p := ?h]) = N" using len by simp
      show "l - 1 < N" using lr r by simp
      show "l - 1 = N - 1 \<or> m dvd l - 1" by (simp add: l_def)
      fix j assume j: "j < N" "inner \<le> j \<or> l - 1 < m * j + 1"
      show "(tree[p := ?h]) ! j = mk_node h m inner leaves j"
      proof (cases "j = p")
        case True then show ?thesis using hp j len by simp
      next
        case False
        have "inner \<le> j \<or> r < m * j + 1"
        proof (cases "inner \<le> j")
          case False
          then have "p * m < m * j + 1" using j(2) by (simp add: l_def)
          then have "p \<le> j" using m by (simp add: mult.commute less_Suc_eq_le)
          then have "p + 1 \<le> j" using \<open>j \<noteq> p\<close> by simp
          then have "m * (p + 1) \<le> m * j" by (rule mult_le_mono2)
          then show ?thesis using lr(2) by (simp add: mult.commute)
        qed simp
        then show ?thesis using inv j(1) False by simp
      qed
    qed (use m N bound pos N2 in simp_all)
    then show ?thesis using True m by (simp add: mk_loop.simps [of h m r] p_def l_def Let_def)
  qed
qed

lemma mk_inner_bounds:
  assumes "2 \<le> m" "0 < n"
  shows "mk_inner m n + n \<le> m * mk_inner m n + 1" "mk_inner m n + n \<noteq> 2"
    "m * (n - 1) + (m - 2) = (n - 1) * (m - 1) + (n - 1 + (m - 2))"
proof -
  obtain a where a: "m = a + 2" using assms(1) by (metis add.commute le_Suc_ex)
  obtain b where b: "n = b + 1" using assms(2) by (metis Suc_eq_plus1 gr0_implies_Suc)
  have d: "mk_inner m n = (b + a) div (a + 1)" by (simp add: mk_inner_def a b)
  have "b \<le> (b + a) div (a + 1) * (a + 1)"
    using div_mult_mod_eq [of "b + a" "a + 1"] mod_less_divisor [of "a + 1" "b + a"] by linarith
  then have "b \<le> mk_inner m n * (a + 1)" by (simp only: d)
  moreover have "m * mk_inner m n = mk_inner m n * (a + 1) + mk_inner m n"
    by (simp only: a) (simp add: algebra_simps)
  ultimately show "mk_inner m n + n \<le> m * mk_inner m n + 1" using b by linarith
  show "mk_inner m n + n \<noteq> 2"
  proof
    assume e: "mk_inner m n + n = 2"
    have "b = 0 \<Longrightarrow> mk_inner m n = 0" by (simp add: d)
    moreover have "b = 1 \<Longrightarrow> mk_inner m n = 1" by (simp add: d)
    ultimately show False using e b by (cases "b = 0"; cases "b = 1") auto
  qed
  show "m * (n - 1) + (m - 2) = (n - 1) * (m - 1) + (n - 1 + (m - 2))" by (simp add: a b algebra_simps)
qed

lemma mk_num_nodes:
  assumes "2 \<le> m" "0 < n"
  shows "(m * (n - 1) + (m - 2)) div (m - 1) + 1 = mk_inner m n + n"
proof -
  have "(m * (n - 1) + (m - 2)) div (m - 1) = n - 1 + mk_inner m n"
    unfolding mk_inner_bounds(3) [OF assms] mk_inner_def using assms(1) by (subst div_mult_self3) auto
  then show ?thesis using assms(2) by simp
qed

lemma MerkleRoot_node:
  assumes "2 \<le> m" "rs \<noteq> []"
  shows "generateReadSetMerkleRoot h rs m =
    Some (mk_node h m (mk_inner m (length rs)) (map (mk_leaf h) rs) 0)"
proof -
  let ?i = "mk_inner m (length rs)"
  have n: "0 < length rs" using assms(2) by simp
  have "hd (mk_loop h m (?i + length rs - 1) (replicate ?i [] @ map (mk_leaf h) rs)) =
    mk_node h m ?i (map (mk_leaf h) rs) 0"
  proof (rule mk_loop_node [where N = "?i + length rs"])
    fix j assume j: "j < ?i + length rs" "?i \<le> j \<or> ?i + length rs - 1 < m * j + 1"
    have "?i \<le> j"
    proof (rule ccontr)
      assume "\<not> ?i \<le> j"
      then have lt: "j + 1 \<le> ?i" and "?i + length rs - 1 < m * j + 1" using j(2) by auto
      obtain a where a: "m = a + 2" using assms(1) by (metis add.commute le_Suc_ex)
      obtain b where b: "length rs = b + 1" using n by (metis Suc_eq_plus1 gr0_implies_Suc)
      have d: "?i = (b + a) div (a + 1)" by (simp add: mk_inner_def a b)
      have "?i * (a + 1) \<le> b + a" unfolding d by (rule div_times_less_eq_dividend)
      moreover have "j * (a + 1) + (a + 1) \<le> ?i * (a + 1)"
        using mult_le_mono1 [OF lt, of "a + 1"] by (simp add: algebra_simps)
      ultimately have "j * (a + 1) + 1 \<le> b" by linarith
      moreover have "m * j = j * (a + 1) + j" by (simp add: a algebra_simps)
      ultimately show False using \<open>?i + length rs - 1 < m * j + 1\<close> lt b by linarith
    qed
    moreover from this have "j - ?i < length rs" using j(1) by linarith
    ultimately show "(replicate ?i [] @ map (mk_leaf h) rs) ! j = mk_node h m ?i (map (mk_leaf h) rs) j"
      by (simp add: mk_node.simps nth_append)
  qed (use assms n mk_inner_bounds [OF assms(1) n] in auto)
  then show ?thesis using assms by (simp add: generateReadSetMerkleRoot_def Let_def)
qed

section \<open>Injectivity of the byte encodings\<close>

lemma length_le_bytes [simp]: "length (le_bytes w) = 8"
  by (simp add: le_bytes_def)

lemma le_bytes_inj [simp]: "le_bytes v = le_bytes w \<longleftrightarrow> v = w"
proof
  assume e: "le_bytes v = le_bytes w"
  show "v = w"
  proof (rule bit_eqI)
    fix n assume "possible_bit TYPE(64 word) n"
    then have n: "n div 8 < 8" by (simp add: possible_bit_word)
    have "byte_at v (n div 8) = byte_at w (n div 8)"
      using arg_cong [OF e, of "\<lambda>bs. bs ! (n div 8)"] n by (simp add: le_bytes_def)
    then have "take_bit 8 (unat (drop_bit (8 * (n div 8)) v)) = take_bit 8 (unat (drop_bit (8 * (n div 8)) w))"
      by (metis byte_at_def char_of_eq_iff)
    then have "bit (take_bit 8 (unat (drop_bit (8 * (n div 8)) v))) (n mod 8) =
      bit (take_bit 8 (unat (drop_bit (8 * (n div 8)) w))) (n mod 8)" by simp
    then show "bit v n = bit w n"
      using n by (auto simp only: bit_take_bit_iff bit_unsigned_iff bit_drop_bit_eq comp_def
          mult_div_mod_eq mod_less_divisor) (auto dest: bit_imp_le_length)
  qed
qed simp

lemma ts_bytes_length [simp]: "length (ts_bytes t) = 16"
  by (simp add: ts_bytes_def)

lemma ts_bytes_inj [simp]: "ts_bytes s = ts_bytes t \<longleftrightarrow> s = t"
  by (cases s; cases t) (auto simp: ts_bytes_def)

lemma append_ts_inj [simp]: "k @ ts_bytes t = k' @ ts_bytes t' \<longleftrightarrow> k = k' \<and> t = t'"
  by (metis append_eq_append_conv ts_bytes_inj ts_bytes_length)

definition mk_children :: "nat \<Rightarrow> nat \<Rightarrow> nat \<Rightarrow> nat list" where
  "mk_children m N i = [m * i + 1 ..< min (m * i + m + 1) N]"

text \<open>Every byte string that is hashed while the root of a read set is computed.\<close>

definition mk_inputs :: "(string \<Rightarrow> string) \<Rightarrow> nat \<Rightarrow> (string, Timestamp) omap \<Rightarrow> string set" where
  "mk_inputs h m rs =
     (\<lambda>e. fst e @ ts_bytes (snd e)) ` set rs \<union>
     (\<lambda>i. concat (map (mk_node h m (mk_inner m (length rs)) (map (mk_leaf h) rs))
            (mk_children m (mk_inner m (length rs) + length rs) i))) ` {..< mk_inner m (length rs)}"

lemma mk_inputs_leaf: "k < length rs \<Longrightarrow> fst (rs ! k) @ ts_bytes (snd (rs ! k)) \<in> mk_inputs h m rs"
  unfolding mk_inputs_def by (intro UnI1 image_eqI [OF refl] nth_mem)

lemma mk_inputs_inner:
  "i < mk_inner m (length rs) \<Longrightarrow>
   concat (map (mk_node h m (mk_inner m (length rs)) (map (mk_leaf h) rs))
     (mk_children m (mk_inner m (length rs) + length rs) i)) \<in> mk_inputs h m rs"
  unfolding mk_inputs_def by (intro UnI2 image_eqI [OF refl]) simp

lemma mk_node_length:
  assumes "\<And>x. length (h x) = L" "\<forall>l \<in> set leaves. length l = L" "j < inner + length leaves" "0 < m"
  shows "length (mk_node h m inner leaves j) = L"
proof (cases "inner \<le> j")
  case True
  then have "j - inner < length leaves" using assms(3) by linarith
  then show ?thesis using True assms(2) by (simp add: mk_node.simps)
qed (use assms in \<open>simp add: mk_node.simps [of h m inner leaves j]\<close>)

lemma mk_nodes_equal:
  assumes h: "\<And>x. length (h x) = L" and m: "2 \<le> m" and n: "0 < n"
    and len: "length ls = n" "length ls' = n"
    and L: "\<forall>l \<in> set ls. length l = L" "\<forall>l \<in> set ls'. length l = L"
    and inj: "\<And>i. i < inner \<Longrightarrow>
      h (concat (map (mk_node h m inner ls) (mk_children m (inner + n) i))) =
      h (concat (map (mk_node h m inner ls') (mk_children m (inner + n) i))) \<Longrightarrow>
      concat (map (mk_node h m inner ls) (mk_children m (inner + n) i)) =
      concat (map (mk_node h m inner ls') (mk_children m (inner + n) i))"
    and bound: "inner + n \<le> m * inner + 1"
    and root: "mk_node h m inner ls 0 = mk_node h m inner ls' 0"
  shows "j < inner + n \<Longrightarrow> mk_node h m inner ls j = mk_node h m inner ls' j"
proof (induction j rule: less_induct)
  case (less j)
  show ?case
  proof (cases "j = 0")
    case False
    define p where "p = (j - 1) div m"
    let ?c = "mk_children m (inner + n) p"
    have b: "m * p + 1 \<le> j" "j \<le> m * p + m"
      using False m mult_div_mod_eq [of m "j - 1"] mod_less_divisor [of m "j - 1"]
      unfolding p_def by linarith+
    have pj: "p < j" using b(1) m mult_le_mono1 [of 1 m p] by linarith
    have "j - 1 < m * inner" using less.prems bound False by linarith
    then have pin: "p < inner" using m by (simp add: p_def less_mult_imp_div_less mult.commute)
    have mem: "j \<in> set ?c" using b less.prems by (auto simp: mk_children_def)
    have "mk_node h m inner ls p = mk_node h m inner ls' p" using less pj by simp
    then have e: "concat (map (mk_node h m inner ls) ?c) = concat (map (mk_node h m inner ls') ?c)"
      using inj [OF pin] pin m len
      by (simp add: mk_node.simps [of h m inner ls p] mk_node.simps [of h m inner ls' p] mk_children_def)
    have "map (mk_node h m inner ls) ?c = map (mk_node h m inner ls') ?c"
    proof (rule concat_injective [OF e], goal_cases)
      case 2
      have "length (mk_node h m inner ls i) = L" "length (mk_node h m inner ls' i) = L" if "i \<in> set ?c" for i
        using that m len L h by (auto intro!: mk_node_length simp: mk_children_def)
      then show ?case by (auto simp: set_zip)
    qed simp
    then show ?thesis using mem by simp
  qed (use root in simp)
qed

section \<open>Hexadecimal rendering\<close>

definition hex_val :: "char \<Rightarrow> nat" where
  "hex_val c = (let n = of_char c :: nat in if n < 58 then n - 48 else n - 87)"

fun hex_decode :: "string \<Rightarrow> string" where
  "hex_decode (a # b # cs) = char_of (16 * hex_val a + hex_val b) # hex_decode cs"
| "hex_decode _ = []"

lemma hex_val_digit: "d < 16 \<Longrightarrow> hex_val (hex_digit d) = d"
proof -
  assume "d < 16"
  moreover have "list_all (\<lambda>d. hex_val (hex_digit d) = d) [0 ..< 16]" by code_simp
  ultimately show ?thesis by (simp add: list_all_iff)
qed

lemma hex_decode_encode:
  "hex_decode (concat (map (\<lambda>c. let n = of_char c :: nat in [hex_digit (n div 16), hex_digit (n mod 16)]) bs)) = bs"
proof (induction bs)
  case (Cons c bs)
  have "(of_char c :: nat) < 256" by (rule nat_of_char_less_256)
  then have "(of_char c :: nat) div 16 < 16" by (simp add: less_mult_imp_div_less)
  then show ?case using Cons by (simp add: Let_def hex_val_digit)
qed simp

section \<open>Properties of the digests\<close>





text \<open>
  The unhashed digest of a transaction identifies exactly its client and sequence number, and so
  does the hashed digest unless the two byte streams collide under the hash.
\<close>
theorem TransactionDigest_client:
  assumes "h (txn_preimage a) = h (txn_preimage b) \<longrightarrow> txn_preimage a = txn_preimage b"
  shows "(TransactionDigest h a False = TransactionDigest h b False \<longleftrightarrow>
            client_id a = client_id b \<and> client_seq_num a = client_seq_num b) \<and>
         (TransactionDigest h a True = TransactionDigest h b True \<longrightarrow>
            client_id a = client_id b \<and> client_seq_num a = client_seq_num b)"
  using assms by (auto simp: TransactionDigest_def txn_preimage_def)

theorem TransactionDigest_client_witness:
  "TransactionDigest id (empty_txn\<lparr>client_id := 1\<rparr>) True \<noteq> TransactionDigest id (empty_txn\<lparr>client_id := 2\<rparr>) True"
  using TransactionDigest_client [of id "empty_txn\<lparr>client_id := 1\<rparr>" "empty_txn\<lparr>client_id := 2\<rparr>"] by auto

text \<open>
  C21. The byte stream under the hashed digest does not delimit its variable-length fields: two
  transactions of the same client that write different values to different keys have the same digest
  under every hash function.
\<close>
theorem TransactionDigest_ambiguous:
  "\<exists>a b. write_set a = [mk_write ''a'' ''bc''] \<and> write_set b = [mk_write ''ab'' ''c''] \<and>
         (\<forall>h. TransactionDigest h a True = TransactionDigest h b True)"
  by (rule exI [of _ "empty_txn\<lparr>write_set := [mk_write ''a'' ''bc'']\<rparr>"],
      rule exI [of _ "empty_txn\<lparr>write_set := [mk_write ''ab'' ''c'']\<rparr>"])
    (simp add: TransactionDigest_def txn_preimage_def empty_txn_def mk_write_def opt_bytes_def)

text \<open>
  The hexadecimal rendering of a byte string is invertible: decoding the first \<open>maxLength\<close> bytes'
  rendering returns those bytes.
\<close>
theorem BytesToHex_decode: "hex_decode (BytesToHex bs maxLength) = take maxLength bs"
  by (simp add: BytesToHex_def Let_def hex_decode_encode [unfolded Let_def])

end
