(* ===== verification/Locking.thy ===== *)
theory Locking
  imports Proto "HOL-Library.Char_ord" "HOL-Library.List_Lexorder"
begin

text \<open>
  Key locking for the parallel concurrency check (\<open>store/pequinstore/concurrencycontrol.cc\<close>).  A lock
  is named by its key, an acquisition is the list of keys in the order of the \<open>lock\<close> calls.  The
  two loops walk the read set and the write set side by side.  The interface \<open>ordered_locking\<close> is
  what the absence of deadlocks rests on: every thread takes its locks in strictly ascending order.
\<close>

section \<open>The locking loops\<close>

definition dup_head :: "string list \<Rightarrow> bool" where
  "dup_head ks = (case ks of a # b # _ \<Rightarrow> a = b | _ \<Rightarrow> False)"

function lock_loop :: "string list \<Rightarrow> string list \<Rightarrow> string list" where
  "lock_loop rs ws =
     (if rs = [] \<and> ws = [] then []
      else if dup_head rs then lock_loop (tl rs) ws
      else if dup_head ws then lock_loop rs (tl ws)
      else if rs = [] then hd ws # lock_loop rs (tl ws)
      else if ws = [] then hd rs # lock_loop (tl rs) ws
      else if hd rs \<le> hd ws then
        hd rs # (if hd rs = hd ws then lock_loop (tl rs) (tl ws) else lock_loop (tl rs) ws)
      else hd ws # lock_loop rs (tl ws))"
  by pat_completeness auto
termination
  by (relation "measure (\<lambda>(rs, ws). length rs + length ws)")
    (auto simp: dup_head_def split: list.splits)

declare lock_loop.simps [simp del]

definition LockTxnKeys_scoped :: "Transaction \<Rightarrow> ReadMessage list \<Rightarrow> string list" where
  "LockTxnKeys_scoped txn readSet = lock_loop (map read_key readSet) (map write_key (write_set txn))"

text \<open>The deprecated pair: no duplicates are skipped, and the locks are released from the back.\<close>

fun lock_merge :: "string list \<Rightarrow> string list \<Rightarrow> string list" where
  "lock_merge [] ws = ws"
| "lock_merge rs [] = rs"
| "lock_merge (r # rs) (w # ws) =
     (if r \<le> w then r # (if r = w then lock_merge rs ws else lock_merge rs (w # ws))
      else w # lock_merge (r # rs) ws)"

fun unlock_merge :: "string list \<Rightarrow> string list \<Rightarrow> string list" where
  "unlock_merge [] ws = ws"
| "unlock_merge rs [] = rs"
| "unlock_merge (r # rs) (w # ws) =
     (if r > w then r # unlock_merge rs (w # ws)
      else w # (if r = w then unlock_merge rs ws else unlock_merge (r # rs) ws))"

definition LockTxnKeys :: "Transaction \<Rightarrow> string list" where
  "LockTxnKeys txn = lock_merge (map read_key (read_set txn)) (map write_key (write_set txn))"

definition UnlockTxnKeys :: "Transaction \<Rightarrow> string list" where
  "UnlockTxnKeys txn =
     unlock_merge (rev (map read_key (read_set txn))) (rev (map write_key (write_set txn)))"

section \<open>Threads that lock\<close>

text \<open>
  A thread is the list of the locks it holds and the list of those it still has to take.  It takes
  the next lock when nobody holds it, and releases all of them once it has them all.
\<close>

type_synonym lockers = "nat \<Rightarrow> string list \<times> string list"

inductive lock_step :: "lockers \<Rightarrow> lockers \<Rightarrow> bool" where
  acquire: "s t = (held, k # ks) \<Longrightarrow> \<forall>u. k \<notin> set (fst (s u)) \<Longrightarrow> lock_step s (s(t := (held @ [k], ks)))"
| release: "s t = (held, []) \<Longrightarrow> held \<noteq> [] \<Longrightarrow> lock_step s (s(t := ([], [])))"

definition lock_init :: "string list list \<Rightarrow> lockers" where
  "lock_init kss = (\<lambda>t. ([], if t < length kss then kss ! t else []))"

section \<open>The order of the locks\<close>

lemma lock_loop_cons_lt:
  assumes "sorted rs" "\<not> dup_head rs" "x \<in> set (tl rs)"
  shows "hd rs < x"
proof -
  obtain a b rs' where rs: "rs = a # b # rs'" using assms(3) by (cases rs; cases "tl rs") auto
  then have "a < b" "\<forall>y \<in> set (b # rs'). b \<le> y" using assms(1,2) by (auto simp: dup_head_def)
  then show ?thesis using assms(3) rs by force
qed

lemma sorted_tl_strict:
  assumes "sorted rs" "\<not> dup_head rs" "rs \<noteq> []"
  shows "\<forall>x \<in> set (tl rs). hd rs < x" "sorted (tl rs)" "set rs = insert (hd rs) (set (tl rs))"
  using lock_loop_cons_lt [OF assms(1,2)] assms(1,3) by (cases rs; auto)+

lemma dup_head_tl: "dup_head rs \<Longrightarrow> set (tl rs) = set rs \<and> (sorted rs \<longrightarrow> sorted (tl rs))"
  by (auto simp: dup_head_def split: list.splits)

lemma lock_loop_order:
  assumes "sorted rs" "sorted ws"
  shows "set (lock_loop rs ws) = set rs \<union> set ws \<and> sorted_wrt (<) (lock_loop rs ws)"
  using assms
proof (induction rs ws rule: lock_loop.induct)
  case (1 rs ws)
  note R = sorted_tl_strict [OF 1(8)] and W = sorted_tl_strict [OF 1(9)]
  have lower: "hd ws \<le> x" if "x \<in> set ws" for x using that 1(9) by (cases ws) auto
  have lower': "hd rs \<le> x" if "x \<in> set rs" for x using that 1(8) by (cases rs) auto
  show ?case
  proof (cases "rs = [] \<and> ws = [] \<or> dup_head rs \<or> dup_head ws")
    case True
    then show ?thesis using 1 dup_head_tl [of rs] dup_head_tl [of ws]
      by (subst (1 2) lock_loop.simps) (auto simp: dup_head_def)
  next
    case nd: False
    consider "rs = []" "ws \<noteq> []" | "ws = []" "rs \<noteq> []"
      | "rs \<noteq> []" "ws \<noteq> []" "hd rs < hd ws" | "rs \<noteq> []" "ws \<noteq> []" "hd rs = hd ws"
      | "rs \<noteq> []" "ws \<noteq> []" "hd ws < hd rs" using nd by fastforce
    then show ?thesis
    proof cases
      case 1
      then show ?thesis using nd "1.IH"(3) W \<open>sorted rs\<close> by (subst (1 2) lock_loop.simps) auto
    next
      case 2
      then show ?thesis using nd "1.IH"(4) R \<open>sorted ws\<close> by (subst (1 2) lock_loop.simps) auto
    next
      case 3
      then show ?thesis using nd "1.IH"(6) R \<open>sorted ws\<close> lower
        by (subst (1 2) lock_loop.simps) (auto intro: less_le_trans)
    next
      case 4
      then show ?thesis using nd "1.IH"(5) R W by (subst (1 2) lock_loop.simps) auto
    next
      case 5
      then show ?thesis using nd "1.IH"(7) W \<open>sorted rs\<close> lower'
        by (subst (1 2) lock_loop.simps) (auto intro: less_le_trans)
    qed
  qed
qed

lemma lock_merge_order:
  "sorted_wrt (<) rs \<Longrightarrow> sorted_wrt (<) ws \<Longrightarrow>
   set (lock_merge rs ws) = set rs \<union> set ws \<and> sorted_wrt (<) (lock_merge rs ws)"
proof (induction rs ws rule: lock_merge.induct)
  case (3 r rs w ws)
  consider "r < w" | "r = w" | "w < r" by fastforce
  then show ?case using 3 by cases (auto intro: less_trans)
qed auto

lemma unlock_merge_order:
  "sorted_wrt (>) rs \<Longrightarrow> sorted_wrt (>) ws \<Longrightarrow>
   set (unlock_merge rs ws) = set rs \<union> set ws \<and> sorted_wrt (>) (unlock_merge rs ws)"
proof (induction rs ws rule: unlock_merge.induct)
  case (3 r rs w ws)
  consider "r < w" | "r = w" | "w < r" by fastforce
  then show ?case using 3 by cases (auto intro: less_trans)
qed auto

section \<open>The interface: locks in ascending order\<close>

locale ordered_locking =
  fixes wf :: "'x \<Rightarrow> bool" and locks :: "'x \<Rightarrow> string list"
  assumes locks_ascending: "wf x \<Longrightarrow> sorted_wrt (<) (locks x)"
begin

definition start :: "'x list \<Rightarrow> lockers" where
  "start xs = lock_init (map locks xs)"

definition lockers_ok :: "nat \<Rightarrow> lockers \<Rightarrow> bool" where
  "lockers_ok n s \<longleftrightarrow> (\<forall>t. sorted_wrt (<) (fst (s t) @ snd (s t))) \<and> (\<forall>t \<ge> n. s t = ([], [])) \<and>
     (\<forall>t u. t \<noteq> u \<longrightarrow> set (fst (s t)) \<inter> set (fst (s u)) = {})"

lemma start_ok: "\<forall>x \<in> set xs. wf x \<Longrightarrow> lockers_ok (length xs) (start xs)"
  by (auto simp: lockers_ok_def start_def lock_init_def locks_ascending)

lemma lockers_okD:
  assumes "lockers_ok n s"
  shows "sorted_wrt (<) (fst (s t) @ snd (s t))" "n \<le> t \<Longrightarrow> s t = ([], [])"
    "t \<noteq> u \<Longrightarrow> set (fst (s t)) \<inter> set (fst (s u)) = {}"
  using assms unfolding lockers_ok_def by blast+

lemma step_ok:
  assumes "lock_step s s'" "lockers_ok n s"
  shows "lockers_ok n s'"
  using assms(1)
proof cases
  case (acquire t held k ks)
  have srt: "sorted_wrt (<) ((held @ [k]) @ ks)" using lockers_okD(1) [OF assms(2), of t] acquire(2) by simp
  have "\<not> n \<le> t" using lockers_okD(2) [OF assms(2), of t] acquire(2) by auto
  moreover have "k \<notin> set (fst (s u))" for u using acquire(3) by blast
  moreover have "set held \<inter> set (fst (s u)) = {}" if "u \<noteq> t" for u
    using lockers_okD(3) [OF assms(2), of t u] acquire(2) that by simp
  ultimately show ?thesis unfolding lockers_ok_def acquire(1)
    using srt lockers_okD [OF assms(2)] by (simp add: Int_commute)
next
  case (release t held)
  then show ?thesis unfolding lockers_ok_def using lockers_okD [OF assms(2)] by simp
qed

lemma reach_ok: "lock_step\<^sup>*\<^sup>* (start xs) s \<Longrightarrow> \<forall>x \<in> set xs. wf x \<Longrightarrow> lockers_ok (length xs) s"
  by (induction rule: rtranclp_induct) (auto intro: step_ok start_ok)

text \<open>A thread that waits, waits for a thread that waits for a greater lock.\<close>

lemma waits_for_greater:
  assumes "lockers_ok n s" "\<nexists>s'. lock_step s s'" "s t \<noteq> ([], [])"
  obtains u where "s u \<noteq> ([], [])" "snd (s t) \<noteq> []" "hd (snd (s t)) < hd (snd (s u))"
proof -
  obtain held todo where t: "s t = (held, todo)" by (cases "s t")
  have "todo \<noteq> []" using assms(2,3) t lock_step.release [of s t held] by auto
  then obtain k ks where k: "todo = k # ks" by (cases todo) auto
  then obtain u where u: "k \<in> set (fst (s u))" using assms(2) t lock_step.acquire [of s t held k ks] by auto
  obtain held' todo' where su: "s u = (held', todo')" by (cases "s u")
  have "held' \<noteq> []" using u su by auto
  then have "todo' \<noteq> []" using assms(2) su lock_step.release [of s u held'] by blast
  moreover have "sorted_wrt (<) (held' @ todo')" using assms(1) su by (auto simp: lockers_ok_def dest: spec [of _ u])
  ultimately have "k < hd todo'" using u su by (auto simp: sorted_wrt_append)
  with u su t k show ?thesis by (intro that [of u]) auto
qed

lemma progress:
  assumes "lockers_ok n s" "s t \<noteq> ([], [])"
  shows "\<exists>s'. lock_step s s'"
proof (rule ccontr)
  assume stuck: "\<nexists>s'. lock_step s s'"
  let ?A = "(\<lambda>t. hd (snd (s t))) ` {t. s t \<noteq> ([], [])}"
  have "{t. s t \<noteq> ([], [])} \<subseteq> {..<n}" using lockers_okD(2) [OF assms(1)] by (auto simp: not_less [symmetric])
  then have "finite {t. s t \<noteq> ([], [])}" by (rule finite_subset) simp
  then have fin: "finite ?A" by (rule finite_imageI)
  have ne: "?A \<noteq> {}" using assms(2) by blast
  obtain u where max: "Max ?A = hd (snd (s u))" and u: "u \<in> {t. s t \<noteq> ([], [])}"
    using Max_in [OF fin ne] by (rule imageE)
  obtain v where v: "s v \<noteq> ([], [])" "hd (snd (s u)) < hd (snd (s v))"
    by (rule waits_for_greater [OF assms(1) stuck CollectD [OF u]])
  have "hd (snd (s v)) \<in> ?A" using v(1) by (intro imageI CollectI)
  from Max_ge [OF fin this] show False using v(2) unfolding max by (rule leD [THEN notE])
qed

text \<open>Every step takes one of the remaining locks or ends a thread, so runs are finite.\<close>

definition work :: "nat \<Rightarrow> lockers \<Rightarrow> nat" where
  "work n s = (\<Sum>t<n. length (snd (s t)) + (if s t = ([], []) then 0 else 1))"

lemma step_work:
  assumes "lock_step s s'" "lockers_ok n s"
  shows "work n s' < work n s"
proof -
  let ?w = "\<lambda>p. length (snd p) + (if p = ([], []) then 0 else (1::nat))"
  obtain t p where s': "s' = s(t := p)" and t: "s t \<noteq> ([], [])" and less: "?w p < ?w (s t)"
    using assms(1)
  proof cases
    case (acquire t held k ks)
    then show ?thesis by (intro that [of t "(held @ [k], ks)"]) auto
  next
    case (release t held)
    then show ?thesis by (intro that [of t "([], [])"]) auto
  qed
  have "t < n" using lockers_okD(2) [OF assms(2)] t by (meson not_less)
  then have "\<exists>u \<in> {..<n}. ?w (s' u) < ?w (s u)" using less s' by auto
  moreover have "?w (s' u) \<le> ?w (s u)" for u using less s' by (cases "u = t") simp_all
  ultimately show ?thesis unfolding work_def by (intro sum_strict_mono_ex1) auto
qed

lemma run_bounded: "(lock_step ^^ k) s s' \<Longrightarrow> lockers_ok n s \<Longrightarrow> k + work n s' \<le> work n s \<and> lockers_ok n s'"
proof (induction k arbitrary: s')
  case (Suc k)
  then obtain s1 where "(lock_step ^^ k) s s1" "lock_step s1 s'" by auto
  moreover from this have "k + work n s1 \<le> work n s" "lockers_ok n s1" using Suc by auto
  ultimately show ?case using step_work [of s1 s' n] step_ok [of s1 s' n] by auto
qed simp

lemma completes:
  assumes "lockers_ok n s"
  shows "\<exists>s'. lock_step\<^sup>*\<^sup>* s s' \<and> (\<forall>t. s' t = ([], []))"
  using assms
proof (induction "work n s" arbitrary: s rule: less_induct)
  case less
  show ?case
  proof (cases "\<forall>t. s t = ([], [])")
    case False
    then obtain s1 where s1: "lock_step s s1" using progress [OF less(2)] by blast
    then show ?thesis using less(1) [OF step_work [OF s1 less(2)] step_ok [OF s1 less(2)]]
      by (meson converse_rtranclp_into_rtranclp)
  qed auto
qed

end

section \<open>The code takes its locks in order\<close>

definition keys_sorted :: "Transaction \<times> ReadMessage list \<Rightarrow> bool" where
  "keys_sorted = (\<lambda>(txn, rs). sorted (map read_key rs) \<and> sorted (map write_key (write_set txn)))"

definition keys_strict :: "Transaction \<Rightarrow> bool" where
  "keys_strict txn \<longleftrightarrow> sorted_wrt (<) (map read_key (read_set txn)) \<and> sorted_wrt (<) (map write_key (write_set txn))"

interpretation scoped: ordered_locking keys_sorted "\<lambda>(txn, rs). LockTxnKeys_scoped txn rs"
  by unfold_locales (auto simp: keys_sorted_def LockTxnKeys_scoped_def lock_loop_order)

interpretation deprecated: ordered_locking keys_strict LockTxnKeys
  by unfold_locales (auto simp: keys_strict_def LockTxnKeys_def lock_merge_order)

lemma sorted_wrt_greater_rev: "sorted_wrt (>) (rev xs) \<longleftrightarrow> sorted_wrt (<) (xs :: string list)"
  by (simp add: sorted_wrt_rev)

text \<open>
  C26. The locks of a transaction: for read and write sets sorted by key, possibly with repeated keys, the
  acquisition covers exactly the keys read or written, each of them once, in ascending order.
\<close>
theorem LockTxnKeys_scoped_exact:
  assumes "sorted (map read_key rs)" "sorted (map write_key (write_set txn))"
  shows "LockTxnKeys_scoped txn rs =
    sorted_list_of_set (read_key ` set rs \<union> write_key ` set (write_set txn))"
proof -
  have "set (LockTxnKeys_scoped txn rs) = read_key ` set rs \<union> write_key ` set (write_set txn)"
    "sorted_wrt (<) (LockTxnKeys_scoped txn rs)"
    using lock_loop_order [OF assms] by (simp_all add: LockTxnKeys_scoped_def)
  then show ?thesis
    by (metis List.finite_set sorted_list_of_set.idem_if_sorted_distinct strict_sorted_iff)
qed

theorem LockTxnKeys_scoped_exact_witness:
  "LockTxnKeys_scoped (empty_txn\<lparr>write_set := [mk_write ''a'' ''1'', mk_write ''a'' ''2'', mk_write ''c'' ''3'']\<rparr>)
     [mk_read ''a'' ts_zero, mk_read ''b'' ts_zero] = sorted_list_of_set {''a'', ''b'', ''c''}"
  using LockTxnKeys_scoped_exact [of "[mk_read ''a'' ts_zero, mk_read ''b'' ts_zero]"
      "empty_txn\<lparr>write_set := [mk_write ''a'' ''1'', mk_write ''a'' ''2'', mk_write ''c'' ''3'']\<rparr>"]
  by (simp add: mk_read_def mk_write_def less_eq_list_code less_list_code insert_commute)

text \<open>
  C27. No deadlock: whatever transactions with sorted read and write sets the threads of the parallel
  concurrency check work on, and however their acquisitions interleave, some thread can always go on
  while one is not finished; every run is finite, and every run can be completed.
\<close>
theorem LockTxnKeys_scoped_deadlock_free:
  assumes "\<forall>(txn, rs) \<in> set work. sorted (map read_key rs) \<and> sorted (map write_key (write_set txn))"
    and "(lock_step ^^ n) (lock_init (map (\<lambda>(txn, rs). LockTxnKeys_scoped txn rs) work)) s"
  shows "((\<exists>t. s t \<noteq> ([], [])) \<longrightarrow> (\<exists>s'. lock_step s s')) \<and>
    n \<le> sum_list (map (\<lambda>(txn, rs). length (LockTxnKeys_scoped txn rs) + 1) work) \<and>
    (\<exists>s'. lock_step\<^sup>*\<^sup>* s s' \<and> (\<forall>t. s' t = ([], [])))"
proof -
  have ok: "scoped.lockers_ok (length work) (scoped.start work)"
    using assms(1) by (intro scoped.start_ok) (auto simp: keys_sorted_def)
  note run = scoped.run_bounded [OF assms(2) [folded scoped.start_def] ok]
  have "scoped.work (length work) (scoped.start work) \<le>
      (\<Sum>t<length work. (\<lambda>(txn, rs). length (LockTxnKeys_scoped txn rs) + 1) (work ! t))"
    unfolding scoped.work_def scoped.start_def lock_init_def by (intro sum_mono) (auto split: prod.splits)
  also have "\<dots> = sum_list (map (\<lambda>(txn, rs). length (LockTxnKeys_scoped txn rs) + 1) work)"
    by (simp add: sum_list_sum_nth atLeast0LessThan)
  finally show ?thesis using run scoped.progress scoped.completes by (meson add_leD1 order_trans)
qed

theorem LockTxnKeys_scoped_deadlock_free_witness:
  "let work = [(empty_txn, [mk_read ''a'' ts_zero]), (empty_txn\<lparr>write_set := [mk_write ''a'' ''v'']\<rparr>, [])]
   in \<exists>s'. lock_step\<^sup>*\<^sup>* (lock_init (map (\<lambda>(txn, rs). LockTxnKeys_scoped txn rs) work)) s' \<and> (\<forall>t. s' t = ([], []))"
  using LockTxnKeys_scoped_deadlock_free [of
      "[(empty_txn, [mk_read ''a'' ts_zero]), (empty_txn\<lparr>write_set := [mk_write ''a'' ''v'']\<rparr>, [])]" 0]
  by (simp add: empty_txn_def Let_def)

text \<open>
  C28. The order of the sets matters: nothing on the replica sorts the write set, and on an unsorted one
  the loop takes the same lock twice, so the thread waits for itself.
\<close>
theorem LockTxnKeys_scoped_unsorted:
  "\<exists>txn s. lock_step\<^sup>*\<^sup>* (lock_init [LockTxnKeys_scoped txn []]) s \<and> (\<exists>t. s t \<noteq> ([], [])) \<and> (\<nexists>s'. lock_step s s')"
proof -
  let ?txn = "empty_txn\<lparr>write_set := [mk_write ''a'' ''1'', mk_write ''b'' ''2'', mk_write ''a'' ''3'']\<rparr>"
  let ?s = "(\<lambda>t. ([], []))(0 := ([''a'', ''b''], [''a'']))"
  have keys: "LockTxnKeys_scoped ?txn [] = [''a'', ''b'', ''a'']"
    by (simp add: LockTxnKeys_scoped_def mk_write_def lock_loop.simps dup_head_def)
  have init: "lock_init [[''a'', ''b'', ''a'']] = (\<lambda>t. ([], []))(0 := ([], [''a'', ''b'', ''a'']))"
    by (auto simp: lock_init_def)
  have "lock_step (lock_init [[''a'', ''b'', ''a'']]) ((\<lambda>t. ([], []))(0 := ([''a''], [''b'', ''a''])))"
    unfolding init using lock_step.acquire [of "(\<lambda>t. ([], []))(0 := ([], [''a'', ''b'', ''a'']))" 0 "[]" "''a''"] by simp
  moreover have "lock_step ((\<lambda>t. ([], []))(0 := ([''a''], [''b'', ''a'']))) ?s"
    using lock_step.acquire [of "(\<lambda>t. ([], []))(0 := ([''a''], [''b'', ''a'']))" 0 "[''a'']" "''b''"] by simp
  ultimately have "lock_step\<^sup>*\<^sup>* (lock_init [LockTxnKeys_scoped ?txn []]) ?s"
    unfolding keys by (meson rtranclp.rtrancl_into_rtrancl r_into_rtranclp)
  moreover have "\<not> lock_step ?s s'" for s'
    by (rule notI, erule lock_step.cases) (auto split: if_splits dest: spec [of _ 0])
  moreover have "?s 0 \<noteq> ([], [])" by simp
  ultimately show ?thesis by blast
qed

text \<open>
  The deprecated pair: for strictly sorted read and write sets the release loop frees exactly the
  locks that the acquisition loop took, in the opposite order.
\<close>
theorem UnlockTxnKeys_reverses:
  assumes "keys_strict txn"
  shows "UnlockTxnKeys txn = rev (LockTxnKeys txn)"
proof -
  let ?r = "map read_key (read_set txn)" and ?w = "map write_key (write_set txn)"
  have l: "set (LockTxnKeys txn) = set ?r \<union> set ?w" "sorted_wrt (<) (LockTxnKeys txn)"
    using lock_merge_order [of ?r ?w] assms by (auto simp: LockTxnKeys_def keys_strict_def)
  have u: "set (UnlockTxnKeys txn) = set ?r \<union> set ?w" "sorted_wrt (<) (rev (UnlockTxnKeys txn))"
    using unlock_merge_order [of "rev ?r" "rev ?w"] assms
    by (auto simp: UnlockTxnKeys_def keys_strict_def sorted_wrt_greater_rev sorted_wrt_rev)
  from l u have "LockTxnKeys txn = rev (UnlockTxnKeys txn)"
    by (metis set_rev sorted_distinct_set_unique strict_sorted_iff)
  then show ?thesis by simp
qed

theorem UnlockTxnKeys_reverses_witness:
  "UnlockTxnKeys (empty_txn\<lparr>read_set := [mk_read ''a'' ts_zero], write_set := [mk_write ''a'' ''1'', mk_write ''b'' ''2'']\<rparr>)
   = [''b'', ''a'']"
  by (subst UnlockTxnKeys_reverses)
    (simp_all add: keys_strict_def LockTxnKeys_def mk_read_def mk_write_def less_list_code)

end
