(* ===== verification/Configurations.thy ===== *)
theory Configurations
  imports Pequin_Prelude "HOL-Library.Signed_Division"
begin

text \<open>
  The deployment (\<open>lib/configuration.cc\<close>): the parser of the configuration file with the C string
  functions it calls, the host numbering of the replicas of a group, and the quorum sizes and the
  membership test of \<open>store/pequinstore/common.cc\<close>.  A \<open>Panic\<close> or a null dereference of the
  parser is \<open>None\<close>.
\<close>

section \<open>C strings\<close>

definition cstr :: "string \<Rightarrow> string" where
  "cstr s = takeWhile (\<lambda>c. c \<noteq> CHR 0x00) s"

definition blanks :: string where
  "blanks = [CHR 0x20, CHR 0x09]"

text \<open>\<open>strtok\<close>: the next token and the text that a following call with \<open>NULL\<close> starts from.\<close>

definition strtok :: "string \<Rightarrow> string \<Rightarrow> (string \<times> string) option" where
  "strtok delims s =
     (let s' = dropWhile (\<lambda>c. c \<in> set delims) s in
      if s' = [] then None
      else Some (takeWhile (\<lambda>c. c \<notin> set delims) s',
                 drop 1 (dropWhile (\<lambda>c. c \<notin> set delims) s')))"

definition lower_char :: "char \<Rightarrow> char" where
  "lower_char c = (if CHR ''A'' \<le> c \<and> c \<le> CHR ''Z'' then char_of (of_char c + 32 :: nat) else c)"

definition strcaseeq :: "string \<Rightarrow> string \<Rightarrow> bool" where
  "strcaseeq s t \<longleftrightarrow> map lower_char s = map lower_char t"

definition digit_val :: "char \<Rightarrow> nat option" where
  "digit_val c =
     (let n = of_char c :: nat in
      if 48 \<le> n \<and> n \<le> 57 then Some (n - 48)
      else if 97 \<le> n \<and> n \<le> 122 then Some (n - 87)
      else if 65 \<le> n \<and> n \<le> 90 then Some (n - 55)
      else None)"

definition is_digit :: "nat \<Rightarrow> char \<Rightarrow> bool" where
  "is_digit base c = (case digit_val c of None \<Rightarrow> False | Some d \<Rightarrow> d < base)"

definition num_of :: "nat \<Rightarrow> string \<Rightarrow> nat" where
  "num_of base ds = foldl (\<lambda>a c. a * base + (case digit_val c of None \<Rightarrow> 0 | Some d \<Rightarrow> d)) 0 ds"

definition isspace :: "char \<Rightarrow> bool" where
  "isspace c = (let n = of_char c :: nat in n = 32 \<or> (9 \<le> n \<and> n \<le> 13))"

text \<open>\<open>strtoul(arg, \&end, 0)\<close>: the value, clamped to 64 bits, and the unread rest.\<close>

definition strtoul0 :: "string \<Rightarrow> u64 \<times> string" where
  "strtoul0 arg =
     (let s = dropWhile isspace arg;
          neg = (case s of c # _ \<Rightarrow> c = CHR ''-'' | [] \<Rightarrow> False);
          s = (case s of c # cs \<Rightarrow> if c = CHR ''-'' \<or> c = CHR ''+'' then cs else s | [] \<Rightarrow> s);
          hex = (case s of z # x # d # _ \<Rightarrow>
                   z = CHR ''0'' \<and> lower_char x = CHR ''x'' \<and> is_digit 16 d | _ \<Rightarrow> False);
          base = (if hex then 16 else case s of z # _ \<Rightarrow> if z = CHR ''0'' then 8 else 10 | [] \<Rightarrow> 10);
          s = (if hex then drop 2 s else s);
          ds = takeWhile (is_digit base) s;
          n = num_of base ds
      in if ds = [] then (0, arg)
         else (if n \<ge> 2 ^ 64 then - 1 else if neg then - of_nat n else of_nat n,
               dropWhile (is_digit base) s))"

definition to_int :: "u64 \<Rightarrow> int" where
  "to_int w = sint (ucast w :: u32)"

section \<open>Parsing a configuration file\<close>

record ReplicaAddress =
  host :: string
  port :: string

record parse_state =
  ps_f :: int
  ps_group :: int
  ps_replicas :: "(int, ReplicaAddress list) omap"
  ps_interfaces :: "(int, string list) omap"
  ps_multicast :: "ReplicaAddress option"
  ps_fc :: "ReplicaAddress option"

definition omap_list :: "('k, 'v list) omap \<Rightarrow> 'k \<Rightarrow> 'v list" where
  "omap_list m k = lookup_list (map_of m) k"

definition parse_f :: "string \<Rightarrow> parse_state \<Rightarrow> parse_state option" where
  "parse_f rest s =
     (case strtok blanks rest of
        None \<Rightarrow> None
      | Some (arg, _) \<Rightarrow>
          (let (v, end) = strtoul0 arg in
           if end \<noteq> [] then None else Some (s\<lparr>ps_f := to_int v\<rparr>)))"

text \<open>\<open>host:port\<close>, where the port ends at the given delimiters; the rest is returned.\<close>

definition parse_address :: "string \<Rightarrow> string \<Rightarrow> (ReplicaAddress \<times> string) option" where
  "parse_address delims arg =
     (case strtok '':'' arg of
        None \<Rightarrow> None
      | Some (h, rest) \<Rightarrow>
          (case strtok delims rest of
             None \<Rightarrow> None
           | Some (p, rest') \<Rightarrow> Some (\<lparr>host = h, port = p\<rparr>, rest')))"

definition parse_replica :: "string \<Rightarrow> parse_state \<Rightarrow> parse_state option" where
  "parse_replica rest s =
     (let g = (if ps_group s < 0 then 0 else ps_group s) in
      case strtok blanks rest of
        None \<Rightarrow> None
      | Some (arg, _) \<Rightarrow>
          (case parse_address '':'' arg of
             None \<Rightarrow> None
           | Some (a, iface) \<Rightarrow>
               Some (s\<lparr>ps_group := g,
                       ps_replicas := om_put g (omap_list (ps_replicas s) g @ [a]) (ps_replicas s),
                       ps_interfaces :=
                         om_put g (omap_list (ps_interfaces s) g @ [iface]) (ps_interfaces s)\<rparr>)))"

definition parse_line :: "string \<Rightarrow> parse_state \<Rightarrow> parse_state option" where
  "parse_line line s =
     (if line = [] \<or> hd line = CHR ''#'' then Some s
      else case strtok blanks (cstr line) of
        None \<Rightarrow> None
      | Some (cmd, rest) \<Rightarrow>
          if strcaseeq cmd ''f'' then parse_f rest s
          else if strcaseeq cmd ''group'' then Some (s\<lparr>ps_group := ps_group s + 1\<rparr>)
          else if strcaseeq cmd ''replica'' then parse_replica rest s
          else if strcaseeq cmd ''multicast'' then
            (case strtok blanks rest of
               None \<Rightarrow> None
             | Some (arg, _) \<Rightarrow>
                 map_option (\<lambda>(a, _). s\<lparr>ps_multicast := Some a\<rparr>) (parse_address [] arg))
          else if strcaseeq cmd ''fc'' then
            (case strtok blanks rest of
               None \<Rightarrow> None
             | Some (arg, _) \<Rightarrow>
                 map_option (\<lambda>(a, _). s\<lparr>ps_fc := Some a\<rparr>) (parse_address [] arg))
          else None)"

fun parse_lines :: "string list \<Rightarrow> parse_state \<Rightarrow> parse_state option" where
  "parse_lines [] s = Some s"
| "parse_lines (l # ls) s = (case parse_line l s of None \<Rightarrow> None | Some s' \<Rightarrow> parse_lines ls s')"

fun split_lines :: "string \<Rightarrow> string list" where
  "split_lines [] = [[]]"
| "split_lines (c # cs) =
     (if c = CHR 0x0A then [] # split_lines cs
      else case split_lines cs of [] \<Rightarrow> [[c]] | l # ls \<Rightarrow> (c # l) # ls)"

section \<open>The configuration object\<close>

record Configuration =
  cfg_g :: int
  cfg_n :: int
  cfg_f :: int
  cfg_replicas :: "(int, ReplicaAddress list) omap"
  cfg_interfaces :: "(int, string list) omap"
  cfg_multicast :: "ReplicaAddress option"
  cfg_fc :: "ReplicaAddress option"
  cfg_replicaHosts :: "int \<rightharpoonup> (int, int) omap"
  cfg_hostToGroups :: "string \<rightharpoonup> int list"

text \<open>The inner loop over the replicas of one group: the first replica on a host numbers it.\<close>

fun number_hosts ::
  "nat \<Rightarrow> ReplicaAddress list \<Rightarrow> (string, int) omap \<Rightarrow> (int, int) omap \<Rightarrow> (int, int) omap" where
  "number_hosts idx [] hs rh = rh"
| "number_hosts idx (r # rs) hs rh =
     (case map_of hs (host r) of
        None \<Rightarrow>
          (let h = int (length hs)
           in number_hosts (Suc idx) rs (om_put (host r) h hs) (om_put (int idx) h rh))
      | Some _ \<Rightarrow> number_hosts (Suc idx) rs hs rh)"

definition replica_hosts :: "(int, ReplicaAddress list) omap \<Rightarrow> int \<rightharpoonup> (int, int) omap" where
  "replica_hosts reps = (\<lambda>g. map_option (\<lambda>rs. number_hosts 0 rs [] []) (map_of reps g))"

definition host_groups :: "(int, ReplicaAddress list) omap \<Rightarrow> string \<rightharpoonup> int list" where
  "host_groups reps =
     (\<lambda>h. case map fst (filter (\<lambda>(g, rs). h \<in> host ` set rs) reps) of [] \<Rightarrow> None | gs \<Rightarrow> Some gs)"

text \<open>The two constructors; only the one that takes the replicas fills \<open>hostToGroups\<close>.\<close>

definition Configuration_make ::
  "int \<Rightarrow> int \<Rightarrow> int \<Rightarrow> (int, ReplicaAddress list) omap \<Rightarrow> ReplicaAddress option \<Rightarrow>
   ReplicaAddress option \<Rightarrow> (int, string list) omap \<Rightarrow> Configuration" where
  "Configuration_make g n f reps mc fc ifs =
     \<lparr>cfg_g = g, cfg_n = n, cfg_f = f, cfg_replicas = reps, cfg_interfaces = ifs,
      cfg_multicast = mc, cfg_fc = fc, cfg_replicaHosts = replica_hosts reps,
      cfg_hostToGroups = host_groups reps\<rparr>"

definition Configuration_parse :: "string \<Rightarrow> Configuration option" where
  "Configuration_parse file =
     (case parse_lines (split_lines file)
             \<lparr>ps_f = -1, ps_group = -1, ps_replicas = [], ps_interfaces = [],
              ps_multicast = None, ps_fc = None\<rparr> of
        None \<Rightarrow> None
      | Some s \<Rightarrow>
          (let g = int (length (ps_replicas s)) in
           if g = 0 then None
           else
             let reps = om_insert 0 [] (ps_replicas s);
                 n = length (omap_list reps 0)
             in if (\<exists>kv \<in> set reps. length (snd kv) \<noteq> n) then None
                else if n = 0 then None
                else if ps_f s = -1 then None
                else Some \<lparr>cfg_g = g, cfg_n = int n, cfg_f = ps_f s, cfg_replicas = reps,
                           cfg_interfaces = ps_interfaces s, cfg_multicast = ps_multicast s,
                           cfg_fc = ps_fc s, cfg_replicaHosts = replica_hosts reps,
                           cfg_hostToGroups = Map.empty\<rparr>))"

definition replicaHost :: "Configuration \<Rightarrow> int \<Rightarrow> int \<Rightarrow> int" where
  "replicaHost c grp idx =
     (case cfg_replicaHosts c grp of
        None \<Rightarrow> -1
      | Some m \<Rightarrow> (case map_of m idx of None \<Rightarrow> -1 | Some h \<Rightarrow> h))"

text \<open>\<open>None\<close> is the failed assertion (or the out-of-range access of \<open>replica\<close>).\<close>

definition cfg_replica :: "Configuration \<Rightarrow> int \<Rightarrow> int \<Rightarrow> ReplicaAddress option" where
  "cfg_replica c grp idx =
     (case map_of (cfg_replicas c) grp of
        None \<Rightarrow> None
      | Some rs \<Rightarrow> if 0 \<le> idx \<and> nat idx < length rs then Some (rs ! nat idx) else None)"

definition IsLowestGroupOnHost :: "Configuration \<Rightarrow> int \<Rightarrow> int \<Rightarrow> bool option" where
  "IsLowestGroupOnHost c grp idx =
     (case cfg_replica c grp idx of
        None \<Rightarrow> None
      | Some a \<Rightarrow> (case cfg_hostToGroups c (host a) of
                     Some (g # _) \<Rightarrow> Some (g = grp) | _ \<Rightarrow> None))"

definition GetLeaderIndex :: "Configuration \<Rightarrow> u64 \<Rightarrow> int" where
  "GetLeaderIndex c view = to_int (view mod of_int (cfg_n c))"

definition Config_QuorumSize :: "Configuration \<Rightarrow> int" where
  "Config_QuorumSize c = cfg_f c + 1"

definition Config_FastQuorumSize :: "Configuration \<Rightarrow> int" where
  "Config_FastQuorumSize c = cfg_f c + (cfg_f c + 1) sdiv 2 + 1"

section \<open>Quorum sizes and group membership\<close>

definition QuorumSize :: "Configuration \<Rightarrow> u64" where
  "QuorumSize c = 4 * of_int (cfg_f c) + 1"

definition FastQuorumSize :: "Configuration \<Rightarrow> u64" where
  "FastQuorumSize c = of_int (cfg_n c)"

definition SlowCommitQuorumSize :: "Configuration \<Rightarrow> u64" where
  "SlowCommitQuorumSize c = 3 * of_int (cfg_f c) + 1"

definition FastAbortQuorumSize :: "Configuration \<Rightarrow> u64" where
  "FastAbortQuorumSize c = 3 * of_int (cfg_f c) + 1"

definition SlowAbortQuorumSize :: "Configuration \<Rightarrow> u64" where
  "SlowAbortQuorumSize c = of_int (cfg_f c) + 1"

definition IsReplicaInGroup :: "u64 \<Rightarrow> int \<Rightarrow> Configuration \<Rightarrow> bool" where
  "IsReplicaInGroup i grp c =
     (let n = of_int (cfg_n c);
          h = replicaHost c (to_int (i div n)) (to_int (i mod n))
      in \<exists>j \<in> set [0 ..< nat (cfg_n c)]. h = replicaHost c grp (int j))"

section \<open>A deployment that the protocol supports\<close>

definition cfg_ok :: "Configuration \<Rightarrow> bool" where
  "cfg_ok c \<longleftrightarrow> 0 \<le> cfg_f c \<and> cfg_n c = 5 * cfg_f c + 1 \<and> 0 < cfg_g c \<and>
     cfg_g c * cfg_n c < 2 ^ 31 \<and>
     (\<forall>grp. 0 \<le> grp \<longrightarrow> grp < cfg_g c \<longrightarrow>
        (\<exists>rs. map_of (cfg_replicas c) grp = Some rs \<and> int (length rs) = cfg_n c \<and>
              distinct (map host rs))) \<and>
     (\<forall>grp. grp < 0 \<or> cfg_g c \<le> grp \<longrightarrow> map_of (cfg_replicas c) grp = None) \<and>
     cfg_replicaHosts c = replica_hosts (cfg_replicas c)"

definition cfg_faults :: "Configuration \<Rightarrow> nat" where
  "cfg_faults c = nat (cfg_f c)"

lemma cfg_n_bounds:
  assumes "cfg_ok c"
  shows "0 < cfg_n c" "cfg_n c < 2 ^ 31" "0 \<le> cfg_f c" "cfg_f c < 2 ^ 31"
proof -
  have c: "0 \<le> cfg_f c" "cfg_n c = 5 * cfg_f c + 1" "0 < cfg_g c" "cfg_g c * cfg_n c < 2 ^ 31"
    using assms unfolding cfg_ok_def by blast+
  show n: "0 < cfg_n c" using c(1,2) by linarith
  have "1 * cfg_n c \<le> cfg_g c * cfg_n c"
    using c(3) n by (intro mult_right_mono) linarith+
  then show "cfg_n c < 2 ^ 31" using c(4) by linarith
  then show "0 \<le> cfg_f c" "cfg_f c < 2 ^ 31" using c(1,2) by linarith+
qed

lemma unat_of_int_small: "0 \<le> i \<Longrightarrow> i < 2 ^ 64 \<Longrightarrow> unat (of_int i :: u64) = nat i"
  by (simp add: unat_eq_nat_uint unsigned_of_int take_bit_int_eq_self)

lemma quorum_unat:
  assumes "cfg_ok c"
  shows "unat (QuorumSize c) = 4 * cfg_faults c + 1"
    and "unat (FastQuorumSize c) = 5 * cfg_faults c + 1"
    and "unat (SlowCommitQuorumSize c) = 3 * cfg_faults c + 1"
    and "unat (FastAbortQuorumSize c) = 3 * cfg_faults c + 1"
    and "unat (SlowAbortQuorumSize c) = cfg_faults c + 1"
proof -
  note b = cfg_n_bounds [OF assms]
  have n: "cfg_n c = 5 * cfg_f c + 1" using assms unfolding cfg_ok_def by blast
  have q: "unat (of_int (k * cfg_f c + 1) :: u64) = nat k * cfg_faults c + 1"
    if "0 \<le> k" "k \<le> 5" for k
  proof -
    have "k * cfg_f c \<le> 5 * 2 ^ 31" using that b by (intro mult_mono) simp_all
    moreover have "0 \<le> k * cfg_f c" using that b by simp
    ultimately show ?thesis
      using that b by (subst unat_of_int_small) (simp_all add: cfg_faults_def nat_add_distrib nat_mult_distrib)
  qed
  show "unat (QuorumSize c) = 4 * cfg_faults c + 1" using q [of 4] by (simp add: QuorumSize_def)
  show "unat (FastQuorumSize c) = 5 * cfg_faults c + 1" using q [of 5] by (simp add: FastQuorumSize_def n)
  show "unat (SlowCommitQuorumSize c) = 3 * cfg_faults c + 1"
    using q [of 3] by (simp add: SlowCommitQuorumSize_def)
  show "unat (FastAbortQuorumSize c) = 3 * cfg_faults c + 1"
    using q [of 3] by (simp add: FastAbortQuorumSize_def)
  show "unat (SlowAbortQuorumSize c) = cfg_faults c + 1"
    using q [of 1] by (simp add: SlowAbortQuorumSize_def)
qed

section \<open>Host numbers\<close>

lemma number_hosts_distinct:
  assumes "distinct (map host rs)" "\<forall>r \<in> set rs. map_of hs (host r) = None"
    "om_sorted hs" "om_sorted rh"
  shows "om_sorted (number_hosts idx rs hs rh) \<and>
    map_of (number_hosts idx rs hs rh) k =
      (if int idx \<le> k \<and> k < int (idx + length rs) then Some (k - int idx + int (length hs))
       else map_of rh k)"
  using assms
proof (induction rs arbitrary: idx hs rh)
  case (Cons r rs)
  let ?hs = "om_put (host r) (int (length hs)) hs"
  let ?rh = "om_put (int idx) (int (length hs)) rh"
  have ne: "\<forall>r' \<in> set rs. host r' \<noteq> host r"
    using Cons.prems(1) by (metis distinct.simps(2) image_eqI list.set_map list.simps(9))
  have len: "length ?hs = Suc (length hs)"
  proof -
    have "length m' = card (dom (map_of m'))" if "om_sorted m'" for m' :: "(string, int) omap"
      using that by (simp add: dom_map_of_conv_image_fst distinct_card flip: set_map
          add: om_sorted_distinct)
    from this [of ?hs] this [of hs] show ?thesis
      using Cons.prems by (simp add: card_insert_if domIff finite_dom_map_of)
  qed
  have "om_sorted (number_hosts (Suc idx) rs ?hs ?rh) \<and>
    map_of (number_hosts (Suc idx) rs ?hs ?rh) k =
      (if int (Suc idx) \<le> k \<and> k < int (Suc idx + length rs)
       then Some (k - int (Suc idx) + int (length ?hs)) else map_of ?rh k)"
    using Cons.prems ne by (intro Cons.IH) auto
  then show ?case using Cons.prems by (auto simp: len Let_def)
qed auto

lemma replicaHost_ok:
  assumes "cfg_ok c" "0 \<le> grp" "grp < cfg_g c"
  shows "replicaHost c grp idx = (if 0 \<le> idx \<and> idx < cfg_n c then idx else -1)"
proof -
  obtain rs where rs: "map_of (cfg_replicas c) grp = Some rs" "int (length rs) = cfg_n c"
    "distinct (map host rs)" using assms by (auto simp: cfg_ok_def)
  then show ?thesis
    using number_hosts_distinct [OF rs(3), of "[]" "[]" 0 idx] assms(1)
    by (simp add: replicaHost_def cfg_ok_def replica_hosts_def)
qed

lemma to_int_small:
  assumes "unat w < 2 ^ 31"
  shows "to_int w = int (unat w)"
proof -
  have "unat (ucast w :: u32) = unat w"
    using assms by (simp add: unsigned_ucast_eq take_bit_nat_eq_self)
  then have u: "uint (ucast w :: u32) = int (unat w)" using uint_nat [of "ucast w :: u32"] by simp
  have "sint (ucast w :: u32) = signed_take_bit 31 (uint (ucast w :: u32))"
    by (simp add: sint_uint)
  also have "\<dots> = signed_take_bit 31 (int (unat w))" by (simp only: u)
  also have "\<dots> = int (unat w)"
  proof (rule signed_take_bit_int_eq_self)
    have "int (unat w) < 2 ^ 31" using assms by (metis of_nat_less_iff of_nat_numeral of_nat_power)
    then show "int (unat w) < 2 ^ 31" .
    show "- (2 ^ 31) \<le> int (unat w)" by (rule order_trans [of _ 0]) simp_all
  qed
  finally show ?thesis by (simp only: to_int_def)
qed

lemma replicaHost_out:
  assumes "cfg_ok c" "grp < 0 \<or> cfg_g c \<le> grp"
  shows "replicaHost c grp idx = -1"
  using assms by (auto simp: replicaHost_def cfg_ok_def replica_hosts_def)

lemma IsReplicaInGroup_iff:
  assumes "cfg_ok c" "0 \<le> grp" "grp < cfg_g c"
  shows "IsReplicaInGroup i grp c \<longleftrightarrow>
    0 \<le> to_int (i div of_int (cfg_n c)) \<and> to_int (i div of_int (cfg_n c)) < cfg_g c"
proof -
  note b = cfg_n_bounds [OF assms(1)]
  define n where "n = nat (cfg_n c)"
  have n: "unat (of_int (cfg_n c) :: u64) = n" "int n = cfg_n c" "n < 2 ^ 31"
    using b by (simp_all add: unat_of_int_small n_def nat_less_iff)
  have lt: "unat i mod n < n" using b(1) n(2) by (intro mod_less_divisor) linarith
  then have m: "to_int (i mod of_int (cfg_n c)) = int (unat i mod n)"
    using n(3) by (subst to_int_small) (simp_all only: unat_mod n(1) less_trans)
  have "j < n \<Longrightarrow> replicaHost c grp (int j) = int j" for j
    using n(2) by (subst replicaHost_ok [OF assms]) auto
  then have "IsReplicaInGroup i grp c \<longleftrightarrow>
    (\<exists>j < n. replicaHost c (to_int (i div of_int (cfg_n c))) (int (unat i mod n)) = int j)"
    unfolding IsReplicaInGroup_def Let_def m by (auto simp: n_def)
  also have "\<dots> \<longleftrightarrow>
    0 \<le> to_int (i div of_int (cfg_n c)) \<and> to_int (i div of_int (cfg_n c)) < cfg_g c"
  proof (cases "0 \<le> to_int (i div of_int (cfg_n c)) \<and> to_int (i div of_int (cfg_n c)) < cfg_g c")
    case True
    have "int (unat i mod n) < cfg_n c" using lt n(2) by linarith
    then show ?thesis
      using True lt replicaHost_ok [OF assms(1), of "to_int (i div of_int (cfg_n c))" "int (unat i mod n)"]
      by (auto simp del: of_nat_mod)
  next
    case False
    then have "replicaHost c (to_int (i div of_int (cfg_n c))) (int (unat i mod n)) = -1"
      by (intro replicaHost_out [OF assms(1)]) auto
    then show ?thesis using False by auto
  qed
  finally show ?thesis .
qed

lemma IsReplicaInGroup_small:
  assumes "cfg_ok c" "0 \<le> grp" "grp < cfg_g c" "unat i < 2 ^ 31"
  shows "IsReplicaInGroup i grp c \<longleftrightarrow> int (unat i) < cfg_g c * cfg_n c"
proof -
  note b = cfg_n_bounds [OF assms(1)]
  have d: "unat (i div of_int (cfg_n c)) = unat i div nat (cfg_n c)"
    using b by (simp add: unat_div unat_of_int_small)
  moreover have "unat i div nat (cfg_n c) < 2 ^ 31"
    using assms(4) div_le_dividend [of "unat i" "nat (cfg_n c)"] by linarith
  ultimately have "to_int (i div of_int (cfg_n c)) = int (unat i div nat (cfg_n c))"
    by (simp add: to_int_small)
  moreover have "unat i div nat (cfg_n c) < nat (cfg_g c) \<longleftrightarrow> unat i < nat (cfg_g c) * nat (cfg_n c)"
    using b(1) by (intro div_less_iff_less_mult) simp
  moreover have "nat (cfg_g c) * nat (cfg_n c) = nat (cfg_g c * cfg_n c)"
    using assms(2,3) by (simp add: nat_mult_distrib)
  ultimately show ?thesis
    unfolding IsReplicaInGroup_iff [OF assms(1-3)] by linarith
qed

section \<open>Reading back a configuration file\<close>

text \<open>The canonical text of a deployment, used to state that the parser accepts what it should.\<close>

definition line :: "string \<Rightarrow> string" where
  "line l = l @ [CHR 0x0A]"

definition replica_line :: "ReplicaAddress \<Rightarrow> string" where
  "replica_line a = ''replica '' @ host a @ '':'' @ port a"

definition group_lines :: "ReplicaAddress list \<Rightarrow> string list" where
  "group_lines rs = ''group'' # map replica_line rs"

definition config_lines :: "string \<Rightarrow> ReplicaAddress list list \<Rightarrow> string list" where
  "config_lines f gs = (''f '' @ f) # concat (map group_lines gs)"

definition config_text :: "string \<Rightarrow> ReplicaAddress list list \<Rightarrow> string" where
  "config_text f gs = concat (map line (config_lines f gs))"

definition plain :: "string \<Rightarrow> bool" where
  "plain t \<longleftrightarrow> t \<noteq> [] \<and> list_all (\<lambda>c. c \<notin> {CHR 0x00, CHR 0x09, CHR 0x0A, CHR 0x20, CHR '':''}) t"

definition numbered :: "'a list \<Rightarrow> (int, 'a) omap" where
  "numbered xs = zip (map int [0 ..< length xs]) xs"

lemma strtok_end:
  assumes "t \<noteq> []" "set t \<inter> set ds = {}"
  shows "strtok ds t = Some (t, [])"
proof -
  have "dropWhile (\<lambda>c. c \<in> set ds) t = t" using assms by (cases t) auto
  moreover have "takeWhile (\<lambda>c. c \<notin> set ds) t = t" "dropWhile (\<lambda>c. c \<notin> set ds) t = []"
    using assms by (auto simp: takeWhile_eq_all_conv dropWhile_eq_Nil_conv)
  ultimately show ?thesis using assms(1) by (simp only: strtok_def Let_def if_False drop_Nil)
qed

lemma strtok_delim:
  assumes "t \<noteq> []" "set t \<inter> set ds = {}" "c \<in> set ds"
  shows "strtok ds (t @ c # cs) = Some (t, cs)"
proof -
  have "dropWhile (\<lambda>c. c \<in> set ds) (t @ c # cs) = t @ c # cs" using assms by (cases t) auto
  moreover have "takeWhile (\<lambda>c. c \<notin> set ds) (t @ c # cs) = t"
    "dropWhile (\<lambda>c. c \<notin> set ds) (t @ c # cs) = c # cs"
    using assms by (auto simp: takeWhile_append dropWhile_append)
  ultimately show ?thesis by (simp add: strtok_def)
qed

lemma plain_set: "plain t \<Longrightarrow> t \<noteq> [] \<and> set t \<inter> {CHR 0x00, CHR 0x09, CHR 0x0A, CHR 0x20, CHR '':''} = {}"
  by (auto simp: plain_def list_all_iff)

lemma split_lines_line:
  "CHR 0x0A \<notin> set l \<Longrightarrow> split_lines (line l @ rest) = l # split_lines rest"
  by (induction l) (auto simp: line_def split: list.splits)

lemma split_config:
  "\<forall>l \<in> set ls. CHR 0x0A \<notin> set l \<Longrightarrow> split_lines (concat (map line ls)) = ls @ [[]]"
  by (induction ls) (simp_all add: split_lines_line)

lemma parse_lines_append:
  "parse_lines (xs @ ys) s = (case parse_lines xs s of None \<Rightarrow> None | Some s' \<Rightarrow> parse_lines ys s')"
  by (induction xs arbitrary: s) (auto split: option.splits)

lemma cstr_id: "CHR 0x00 \<notin> set l \<Longrightarrow> cstr l = l"
  by (auto simp: cstr_def)

lemma parse_replica_line:
  assumes "plain (host a)" "plain (port a)"
  shows "parse_line (replica_line a) s =
    (let g = (if ps_group s < 0 then 0 else ps_group s) in
     Some (s\<lparr>ps_group := g,
       ps_replicas := om_put g (omap_list (ps_replicas s) g @ [a]) (ps_replicas s),
       ps_interfaces := om_put g (omap_list (ps_interfaces s) g @ [[]]) (ps_interfaces s)\<rparr>))"
proof -
  let ?arg = "host a @ CHR '':'' # port a"
  note p = plain_set [OF assms(1)] plain_set [OF assms(2)]
  have c: "cstr (replica_line a) = ''replica'' @ CHR 0x20 # ?arg"
    using p by (subst cstr_id) (auto simp: replica_line_def)
  have arg: "strtok blanks ?arg = Some (?arg, [])"
    using p by (intro strtok_end) (auto simp: blanks_def)
  have cmd: "strtok blanks (''replica'' @ CHR 0x20 # ?arg) = Some (''replica'', ?arg)"
    by (intro strtok_delim) (auto simp: blanks_def)
  have "strtok '':'' ?arg = Some (host a, port a)" using p by (intro strtok_delim) auto
  moreover have "strtok '':'' (port a) = Some (port a, [])" using p by (intro strtok_end) auto
  ultimately have addr: "parse_address '':'' ?arg = Some (a, [])" by (simp add: parse_address_def)
  have h: "replica_line a \<noteq> []" "hd (replica_line a) \<noteq> CHR ''#''" by (simp_all add: replica_line_def)
  show ?thesis
    using h unfolding parse_line_def c cmd by (simp add: strcaseeq_def lower_char_def parse_replica_def arg addr)
qed

definition no_ifaces :: "ReplicaAddress list \<Rightarrow> string list" where
  "no_ifaces rs = replicate (length rs) []"

lemma omap_list_put [simp]:
  "om_sorted m \<Longrightarrow> omap_list (om_put k v m) k' = (if k' = k then v else omap_list m k')"
  by (simp add: omap_list_def)

lemma om_put_twice: "om_put k w (om_put k v m) = om_put k w m"
  by (induction k v m rule: om_put.induct) auto

lemma parse_replica_lines:
  assumes "\<forall>a \<in> set rs. plain (host a) \<and> plain (port a)" "0 \<le> ps_group s"
    "om_sorted (ps_replicas s)" "om_sorted (ps_interfaces s)" "rs \<noteq> []"
  shows "parse_lines (map replica_line rs) s =
    Some (s\<lparr>ps_replicas := om_put (ps_group s) (omap_list (ps_replicas s) (ps_group s) @ rs) (ps_replicas s),
            ps_interfaces := om_put (ps_group s)
              (omap_list (ps_interfaces s) (ps_group s) @ no_ifaces rs) (ps_interfaces s)\<rparr>)"
  using assms
proof (induction rs arbitrary: s)
  case (Cons a rs)
  then show ?case
    by (cases "rs = []")
      (simp_all add: parse_replica_line Let_def om_put_twice no_ifaces_def)
qed simp

lemma numbered_sorted: "om_sorted (numbered xs)"
proof -
  have "map fst (numbered xs) = map int [0 ..< length xs]" by (simp add: numbered_def)
  then show ?thesis by (simp add: om_sorted_def sorted_wrt_map)
qed

lemma om_put_last: "\<forall>p \<in> set m. fst p < k \<Longrightarrow> om_put k v m = m @ [(k, v)]"
  by (induction k v m rule: om_put.induct) auto

lemma numbered_lt: "p \<in> set (numbered xs) \<Longrightarrow> fst p < int (length xs)"
  by (cases p) (auto simp: numbered_def dest!: set_zip_leftD)

lemma numbered_put: "om_put (int (length xs)) v (numbered xs) = numbered (xs @ [v])"
  by (subst om_put_last) (auto simp: numbered_lt, simp add: numbered_def)

lemma numbered_omap_list: "omap_list (numbered xs) (int (length xs)) = []"
proof -
  have "map_of (numbered xs) (int (length xs)) = None"
    using numbered_lt [of _ xs] by (intro om_not_dom) fastforce
  then show ?thesis by (simp add: omap_list_def lookup_list_def)
qed

lemma parse_group_line: "parse_line ''group'' s = Some (s\<lparr>ps_group := ps_group s + 1\<rparr>)"
  by (simp add: parse_line_def strcaseeq_def lower_char_def strtok_def blanks_def cstr_def)

lemma parse_groups:
  assumes "\<forall>rs \<in> set gs. rs \<noteq> [] \<and> (\<forall>a \<in> set rs. plain (host a) \<and> plain (port a))"
    "ps_group s = int (length xs) - 1" "ps_replicas s = numbered xs"
    "ps_interfaces s = numbered (map no_ifaces xs)"
  shows "parse_lines (concat (map group_lines gs)) s =
    Some (s\<lparr>ps_group := int (length (xs @ gs)) - 1, ps_replicas := numbered (xs @ gs),
            ps_interfaces := numbered (map no_ifaces (xs @ gs))\<rparr>)"
  using assms
proof (induction gs arbitrary: s xs)
  case (Cons rs gs)
  let ?s = "s\<lparr>ps_group := ps_group s + 1\<rparr>"
  let ?s' = "?s\<lparr>ps_replicas := numbered (xs @ [rs]), ps_interfaces := numbered (map no_ifaces (xs @ [rs]))\<rparr>"
  have i: "numbered (map no_ifaces xs @ [no_ifaces rs]) =
      om_put (int (length xs)) (no_ifaces rs) (numbered (map no_ifaces xs))"
    using numbered_put [of "map no_ifaces xs"] by simp
  have o: "omap_list (numbered (map no_ifaces xs)) (int (length xs)) = []"
    using numbered_omap_list [of "map no_ifaces xs"] by simp
  have "parse_lines (map replica_line rs) ?s = Some ?s'"
    using Cons.prems by (subst parse_replica_lines)
      (auto simp: numbered_sorted numbered_put numbered_omap_list i o)
  moreover have "parse_lines (concat (map group_lines gs)) ?s' =
    Some (?s'\<lparr>ps_group := int (length ((xs @ [rs]) @ gs)) - 1, ps_replicas := numbered ((xs @ [rs]) @ gs),
            ps_interfaces := numbered (map no_ifaces ((xs @ [rs]) @ gs))\<rparr>)"
    using Cons.prems by (intro Cons.IH) auto
  moreover have "concat (map group_lines (rs # gs)) =
      ''group'' # map replica_line rs @ concat (map group_lines gs)"
    by (simp add: group_lines_def)
  ultimately show ?case
    by (simp add: parse_group_line parse_lines_append del: concat.simps list.map)
qed simp

lemma parse_empty_line [simp]: "parse_line [] s = Some s"
  by (simp add: parse_line_def)

lemma parse_f_line:
  assumes "plain f" "strtoul0 f = (v, [])"
  shows "parse_line (''f '' @ f) s = Some (s\<lparr>ps_f := to_int v\<rparr>)"
proof -
  note p = plain_set [OF assms(1)]
  have c: "cstr (''f '' @ f) = ''f'' @ CHR 0x20 # f" using p by (subst cstr_id) auto
  have "strtok blanks (''f'' @ CHR 0x20 # f) = Some (''f'', f)"
    by (intro strtok_delim) (auto simp: blanks_def)
  moreover have "strtok blanks f = Some (f, [])" using p by (intro strtok_end) (auto simp: blanks_def)
  ultimately show ?thesis
    unfolding parse_line_def c by (simp add: strcaseeq_def parse_f_def assms(2))
qed

lemma config_lines_no_newline:
  assumes "plain f" "\<forall>rs \<in> set gs. \<forall>a \<in> set rs. plain (host a) \<and> plain (port a)"
  shows "\<forall>l \<in> set (config_lines f gs). CHR 0x0A \<notin> set l"
proof -
  have "CHR 0x0A \<notin> set (replica_line a)" if "plain (host a)" "plain (port a)" for a
    using plain_set [OF that(1)] plain_set [OF that(2)] by (auto simp: replica_line_def)
  then show ?thesis
    using assms plain_set [OF assms(1)] by (auto simp: config_lines_def group_lines_def)
qed

section \<open>Properties of the configuration\<close>

text \<open>
  C18. Reading a configuration file back: for any fault bound that \<open>strtoul\<close> accepts and any non-empty
  list of equally large groups, parsing the file that lists them yields exactly those groups,
  numbered from 0, with the host numbering computed from them.
\<close>
theorem Configuration_parse_roundtrip:
  assumes "plain f" "strtoul0 f = (v, [])" "to_int v \<noteq> -1" "gs \<noteq> []" "0 < n"
    "\<forall>rs \<in> set gs. length rs = n \<and> (\<forall>a \<in> set rs. plain (host a) \<and> plain (port a))"
  shows "Configuration_parse (config_text f gs) =
    Some \<lparr>cfg_g = int (length gs), cfg_n = int n, cfg_f = to_int v, cfg_replicas = numbered gs,
          cfg_interfaces = numbered (map no_ifaces gs), cfg_multicast = None, cfg_fc = None,
          cfg_replicaHosts = replica_hosts (numbered gs), cfg_hostToGroups = Map.empty\<rparr>"
proof -
  let ?s = "\<lparr>ps_f = -1, ps_group = -1, ps_replicas = [], ps_interfaces = [], ps_multicast = None, ps_fc = None\<rparr>"
  have sp: "split_lines (config_text f gs) = config_lines f gs @ [[]]"
    unfolding config_text_def using assms by (intro split_config config_lines_no_newline) auto
  have ne: "\<forall>rs \<in> set gs. rs \<noteq> [] \<and> (\<forall>a \<in> set rs. plain (host a) \<and> plain (port a))"
    using assms(5,6) by auto
  have pl: "parse_lines (config_lines f gs @ [[]]) ?s =
    Some (?s\<lparr>ps_f := to_int v, ps_group := int (length gs) - 1, ps_replicas := numbered gs,
            ps_interfaces := numbered (map no_ifaces gs)\<rparr>)"
    using parse_groups [OF ne, of "?s\<lparr>ps_f := to_int v\<rparr>" "[]"]
    by (simp add: config_lines_def parse_f_line [OF assms(1,2), simplified] parse_lines_append numbered_def)
  obtain rs gs' where gs: "gs = rs # gs'" using assms(4) by (cases gs) auto
  have num: "numbered gs = (0, rs) # tl (numbered gs)"
    by (simp add: numbered_def gs upt_conv_Cons del: upt_Suc)
  have ins: "om_insert 0 [] (numbered gs) = numbered gs" by (subst (1 2) num) simp
  have l0: "omap_list (numbered gs) 0 = rs" by (subst num) (simp add: omap_list_def lookup_list_def)
  have len: "length (numbered gs) = length gs" by (simp add: numbered_def)
  have all: "\<not> (\<exists>kv \<in> set (numbered gs). length (snd kv) \<noteq> length rs)"
    using assms(6) gs by (auto simp: numbered_def dest!: set_zip_rightD)
  have "length rs = n" using assms(6) gs by simp
  then show ?thesis
    using all assms(3-5) unfolding Configuration_parse_def sp pl by (simp add: Let_def ins l0 len)
qed

theorem Configuration_parse_roundtrip_witness:
  "map_option cfg_replicas (Configuration_parse (config_text ''1'' [[\<lparr>host = ''a'', port = ''80''\<rparr>]])) =
   Some [(0, [\<lparr>host = ''a'', port = ''80''\<rparr>])]"
proof -
  have s: "strtoul0 ''1'' = (1, [])"
    by (simp add: strtoul0_def isspace_def is_digit_def digit_val_def num_of_def)
  have t: "to_int 1 \<noteq> -1" by (simp add: to_int_def)
  show ?thesis
    using Configuration_parse_roundtrip [OF _ s t, of "[[\<lparr>host = ''a'', port = ''80''\<rparr>]]" 1]
    by (simp add: plain_def numbered_def)
qed

text \<open>
  C24. The membership test compares host numbers, and the host numbers of every group start at 0.  In
  a well-formed deployment it therefore accepts a replica id for a group exactly when the id belongs
  to any replica of the deployment, whichever group that replica is in; only with a single group is
  it a test of membership in the group.
\<close>
theorem IsReplicaInGroup_any_group:
  assumes "cfg_ok c" "0 \<le> grp" "grp < cfg_g c" "unat i < 2 ^ 31"
  shows "IsReplicaInGroup i grp c \<longleftrightarrow> int (unat i) < cfg_g c * cfg_n c"
  using assms by (rule IsReplicaInGroup_small)

theorem IsReplicaInGroup_any_group_witness:
  "let c = Configuration_make 2 1 0
             [(0, [\<lparr>host = ''a'', port = ''1''\<rparr>]), (1, [\<lparr>host = ''b'', port = ''1''\<rparr>])] None None []
   in cfg_ok c \<and> IsReplicaInGroup 1 0 c \<and> \<not> IsReplicaInGroup 2 0 c"
proof -
  let ?c = "Configuration_make 2 1 0
    [(0, [\<lparr>host = ''a'', port = ''1''\<rparr>]), (1, [\<lparr>host = ''b'', port = ''1''\<rparr>])] None None []"
  have ok: "cfg_ok ?c"
    by (auto simp: cfg_ok_def Configuration_make_def)
  show ?thesis
    using ok IsReplicaInGroup_any_group [OF ok, of 0 1] IsReplicaInGroup_any_group [OF ok, of 0 2]
    by (simp add: Configuration_make_def)
qed

end
