(* ===== verification/Quorums.thy ===== *)
theory Quorums
  imports Configurations
begin

text \<open>
  Quorum intersection.  The locale \<open>quorum_sizes\<close> names what the protocol needs of the five quorum
  sizes of a configuration and derives the overlap facts once; it is interpreted on the sizes of
  \<open>store/pequinstore/common.cc\<close>.
\<close>

lemma overlap_correct:
  assumes "finite R" "A \<subseteq> R" "B \<subseteq> R" "card R \<le> m" "finite F" "card F \<le> f" "m + f < card A + card B"
  shows "\<exists>r \<in> A \<inter> B. r \<notin> F"
proof (rule ccontr)
  assume "\<not> ?thesis"
  then have "card (A \<inter> B) \<le> card F" using assms(5) by (intro card_mono) auto
  moreover have fin: "finite A" "finite B" using assms(1-3) finite_subset by blast+
  have "card (A \<union> B) \<le> card R" using assms(1-3) by (intro card_mono) auto
  ultimately show False using card_Un_Int [OF fin] assms(4,6,7) by linarith
qed

lemma overlap_many:
  assumes "finite R" "A \<subseteq> R" "B \<subseteq> R" "card R \<le> m" "finite F" "card F \<le> f" "m + f + k \<le> card A + card B"
  shows "k \<le> card (A \<inter> B - F)"
proof -
  have fin: "finite A" "finite B" using assms(1-3) finite_subset by blast+
  have "card (A \<union> B) \<le> card R" using assms(1-3) by (intro card_mono) auto
  moreover have "card (A \<inter> B) - card F \<le> card (A \<inter> B - F)" by (rule diff_card_le_card_Diff [OF assms(5)])
  ultimately show ?thesis using card_Un_Int [OF fin] assms(4,6,7) by linarith
qed

locale quorum_sizes =
  fixes valid :: "'c \<Rightarrow> bool"
    and faults :: "'c \<Rightarrow> nat"
    and members :: "'c \<Rightarrow> nat"
    and fast_commit :: "'c \<Rightarrow> nat"
    and slow_commit :: "'c \<Rightarrow> nat"
    and fast_abort :: "'c \<Rightarrow> nat"
    and slow_abort :: "'c \<Rightarrow> nat"
    and decide :: "'c \<Rightarrow> nat"
  assumes fast_commit_slow_abort: "valid c \<Longrightarrow> members c + faults c < fast_commit c + slow_abort c"
    and slow_commit_fast_abort: "valid c \<Longrightarrow> members c + faults c < slow_commit c + fast_abort c"
    and slow_commit_slow_commit: "valid c \<Longrightarrow> members c + faults c < slow_commit c + slow_commit c"
    and slow_le_fast: "valid c \<Longrightarrow> slow_commit c \<le> fast_commit c"
    and decide_decide: "valid c \<Longrightarrow> members c + faults c + (2 * faults c + 1) \<le> decide c + decide c"
    and decide_live: "valid c \<Longrightarrow> decide c + faults c \<le> members c"
begin

text \<open>A set of replicas of one group together with the Byzantine ones among them.\<close>

definition replica_set :: "'c \<Rightarrow> 'r set \<Rightarrow> 'r set \<Rightarrow> bool" where
  "replica_set c R F \<longleftrightarrow> finite R \<and> card R \<le> members c \<and> finite F \<and> card F \<le> faults c"

lemma commits_overlap:
  assumes "valid c" "replica_set c R F" "A \<subseteq> R" "B \<subseteq> R" "slow_commit c \<le> card A" "slow_commit c \<le> card B"
  shows "\<exists>r \<in> A \<inter> B. r \<notin> F"
  using assms slow_commit_slow_commit [of c] unfolding replica_set_def
  by (intro overlap_correct [of R A B "members c" F "faults c"]) auto

lemma commit_fast_abort_overlap:
  assumes "valid c" "replica_set c R F" "A \<subseteq> R" "B \<subseteq> R" "slow_commit c \<le> card A" "fast_abort c \<le> card B"
  shows "\<exists>r \<in> A \<inter> B. r \<notin> F"
  using assms slow_commit_fast_abort [of c] unfolding replica_set_def
  by (intro overlap_correct [of R A B "members c" F "faults c"]) auto

lemma fast_commit_abort_overlap:
  assumes "valid c" "replica_set c R F" "A \<subseteq> R" "B \<subseteq> R" "fast_commit c \<le> card A" "slow_abort c \<le> card B"
  shows "\<exists>r \<in> A \<inter> B. r \<notin> F"
  using assms fast_commit_slow_abort [of c] unfolding replica_set_def
  by (intro overlap_correct [of R A B "members c" F "faults c"]) auto

lemma decisions_overlap:
  assumes "valid c" "replica_set c R F" "A \<subseteq> R" "B \<subseteq> R" "decide c \<le> card A" "decide c \<le> card B"
  shows "2 * faults c + 1 \<le> card (A \<inter> B - F)"
  using assms decide_decide [of c] unfolding replica_set_def
  by (intro overlap_many [of R A B "members c" F "faults c"]) auto

lemma decisions_overlap_correct:
  assumes "valid c" "replica_set c R F" "A \<subseteq> R" "B \<subseteq> R" "decide c \<le> card A" "decide c \<le> card B"
  shows "\<exists>r \<in> A \<inter> B. r \<notin> F"
proof -
  have "A \<inter> B - F \<noteq> {}" using decisions_overlap [OF assms] by (metis card.empty not_one_le_zero add_leD2)
  then show ?thesis by blast
qed

end

interpretation quorums: quorum_sizes cfg_ok cfg_faults "\<lambda>c. unat (FastQuorumSize c)"
    "\<lambda>c. unat (FastQuorumSize c)" "\<lambda>c. unat (SlowCommitQuorumSize c)"
    "\<lambda>c. unat (FastAbortQuorumSize c)" "\<lambda>c. unat (SlowAbortQuorumSize c)" "\<lambda>c. unat (QuorumSize c)"
  by unfold_locales (simp_all add: quorum_unat)

text \<open>A deployment with one group of six replicas that tolerates one fault.\<close>

definition sample_cfg :: Configuration where
  "sample_cfg = Configuration_make 1 6 1
     [(0, map (\<lambda>h. \<lparr>host = [h], port = ''1''\<rparr>) ''abcdef'')] None None []"

lemma sample_cfg_ok: "cfg_ok sample_cfg"
  by (auto simp: cfg_ok_def sample_cfg_def Configuration_make_def)

lemma sample_cfg_faults [simp]: "cfg_faults sample_cfg = 1"
  by (simp add: cfg_faults_def sample_cfg_def Configuration_make_def)

lemma sample_cfg_sizes [simp]:
  "unat (QuorumSize sample_cfg) = 5" "unat (FastQuorumSize sample_cfg) = 6"
  "unat (SlowCommitQuorumSize sample_cfg) = 4" "unat (FastAbortQuorumSize sample_cfg) = 4"
  "unat (SlowAbortQuorumSize sample_cfg) = 2"
  by (simp_all add: quorum_unat [OF sample_cfg_ok])

end
