(* ===== verification/Validation.thy ===== *)
theory Validation
  imports Digest Quorums
begin

text \<open>
  Validation of vote and decision certificates, synchronous versions (\<open>store/pequinstore/common.cc\<close>).
  Signature verification and protobuf (de)serialisation are third-party code and enter as the
  fields of the record \<open>crypto\<close>.  \<open>None\<close> is a \<open>Panic\<close> or an arithmetic fault.
\<close>

section \<open>The cryptographic environment\<close>

record CurrentView =
  cv_current_view :: u64
  cv_txn_digest :: string
  cv_replica_id :: u64

record ElectMessage =
  em_req_id :: u64
  em_txn_digest :: string
  em_decision :: CommitDecision
  em_elect_view :: u64

record crypto =
  Verify :: "u64 \<Rightarrow> string \<Rightarrow> string \<Rightarrow> bool"
  ser_cc :: "ConcurrencyControl \<Rightarrow> string"
  ser_p2 :: "Phase2Decision \<Rightarrow> string"
  ser_elect :: "ElectMessage \<Rightarrow> string"
  ser_write :: "Write \<Rightarrow> string"
  parse_p2 :: "string \<Rightarrow> Phase2Decision"
  parse_view :: "string \<Rightarrow> CurrentView"

section \<open>Conflicts and log groups\<close>

definition TransactionsConflict :: "Transaction \<Rightarrow> Transaction \<Rightarrow> bool option" where
  "TransactionsConflict a b =
     (if (\<exists>ra \<in> set (read_set a). \<exists>wb \<in> set (write_set b). read_key ra = write_key wb) then Some True
      else if (\<exists>rb \<in> set (read_set b). \<exists>wa \<in> set (write_set a). read_key rb = write_key wa) then Some True
      else if (case merged_read_set a of None \<Rightarrow> 0 | Some m \<Rightarrow> length (rs_read_set m)) > length (read_set a)
        then Some True
      else if query_set b \<noteq> [] then Some True
      else if query_set a \<noteq> [] then Some True
      else None)"

definition GetLogGroup :: "Transaction \<Rightarrow> string \<Rightarrow> int option" where
  "GetLogGroup txn digest =
     (let first = (case digest of [] \<Rightarrow> 0 | c # cs \<Rightarrow> of_char c) :: nat;
          n = length (involved_groups txn)
      in if n = 0 then None else Some (involved_groups txn ! (first mod n)))"

text \<open>The conversion of a 64-bit group number to \<open>int\<close>.\<close>

definition int32 :: "int \<Rightarrow> int" where
  "int32 g = sint (of_int g :: u32)"

section \<open>Phase-1 certificates\<close>

definition p1_vote :: "CommitDecision \<Rightarrow> CCResult" where
  "p1_vote decision = (case decision of COMMIT \<Rightarrow> CC_COMMIT | ABORT \<Rightarrow> CC_ABSTAIN)"

definition p1_quorum :: "CommitDecision \<Rightarrow> bool \<Rightarrow> Configuration \<Rightarrow> nat" where
  "p1_quorum decision fast config = unat
     (if fast \<and> decision = COMMIT then FastQuorumSize config
      else if decision = COMMIT then SlowCommitQuorumSize config
      else if fast then FastAbortQuorumSize config
      else SlowAbortQuorumSize config)"

definition p1_msg :: "string \<Rightarrow> CommitDecision \<Rightarrow> u64 \<Rightarrow> ConcurrencyControl" where
  "p1_msg digest decision grp =
     \<lparr>cc_ccr = p1_vote decision, cc_committed_conflict = None, cc_txn_digest = digest,
      cc_involved_group = grp\<rparr>"

text \<open>The loop over the signatures of one group: the number verified, or \<open>None\<close> for \<open>return false\<close>.\<close>

fun p1_sigs_loop ::
  "crypto \<Rightarrow> Configuration \<Rightarrow> u64 option \<Rightarrow> CCResult \<Rightarrow> CCResult \<Rightarrow> u64 \<Rightarrow> string \<Rightarrow> u64 list \<Rightarrow> nat \<Rightarrow>
   Signature list \<Rightarrow> nat option" where
  "p1_sigs_loop cr config me myResult ccr grp msg seen verified [] = Some verified"
| "p1_sigs_loop cr config me myResult ccr grp msg seen verified (sg # sigs) =
     (if \<not> IsReplicaInGroup (sig_process_id sg) (to_int grp) config then None
      else if me = Some (sig_process_id sg) \<and> ccr \<noteq> myResult then None
      else if me \<noteq> Some (sig_process_id sg) \<and> \<not> Verify cr (sig_process_id sg) msg (sig_signature sg) then None
      else if sig_process_id sg \<in> set seen then None
      else p1_sigs_loop cr config me myResult ccr grp msg (sig_process_id sg # seen) (verified + 1) sigs)"

definition ValidateP1Replies ::
  "crypto \<Rightarrow> Configuration \<Rightarrow> u64 option \<Rightarrow> CCResult \<Rightarrow> CommitDecision \<Rightarrow> bool \<Rightarrow> Transaction \<Rightarrow> string \<Rightarrow>
   GroupedSignatures \<Rightarrow> bool" where
  "ValidateP1Replies cr config me myResult decision fast txn digest gs =
     ((\<forall>(grp, sigs) \<in> set gs.
         p1_sigs_loop cr config me myResult (p1_vote decision) grp (ser_cc cr (p1_msg digest decision grp))
           [] 0 sigs = Some (p1_quorum decision fast config)) \<and>
      (decision = COMMIT \<longrightarrow>
         (\<forall>g \<in> set (involved_groups txn). int32 g \<in> to_int ` fst ` set gs)))"

section \<open>Phase-2 certificates\<close>

fun p2_sigs_loop ::
  "crypto \<Rightarrow> u64 option \<Rightarrow> CommitDecision \<Rightarrow> CommitDecision \<Rightarrow> string \<Rightarrow> u64 list \<Rightarrow> nat \<Rightarrow>
   Signature list \<Rightarrow> nat option" where
  "p2_sigs_loop cr me myDecision decision msg seen verified [] = Some verified"
| "p2_sigs_loop cr me myDecision decision msg seen verified (sg # sigs) =
     (if me = Some (sig_process_id sg) \<and> decision \<noteq> myDecision then None
      else if me \<noteq> Some (sig_process_id sg) \<and> \<not> Verify cr (sig_process_id sg) msg (sig_signature sg) then None
      else if sig_process_id sg \<in> set seen then None
      else p2_sigs_loop cr me myDecision decision msg (sig_process_id sg # seen) (verified + 1) sigs)"

definition ValidateP2Replies ::
  "crypto \<Rightarrow> Configuration \<Rightarrow> u64 option \<Rightarrow> CommitDecision \<Rightarrow> CommitDecision \<Rightarrow> u64 \<Rightarrow> Transaction \<Rightarrow> string \<Rightarrow>
   GroupedSignatures \<Rightarrow> bool option" where
  "ValidateP2Replies cr config me myDecision decision view txn digest gs =
     (case GetLogGroup txn digest of
        None \<Rightarrow> None
      | Some grp \<Rightarrow>
          (let msg = ser_p2 cr \<lparr>p2d_decision = decision, p2d_txn_digest = digest,
                                p2d_involved_group = of_int grp, p2d_view = Some view\<rparr>
           in Some (case gs of
                      [(_, sigs)] \<Rightarrow>
                        p2_sigs_loop cr me myDecision decision msg [] 0 sigs = Some (unat (QuorumSize config))
                    | _ \<Rightarrow> False)))"

section \<open>Proofs of commitment and of conflict\<close>

definition is_genesis :: "Transaction \<Rightarrow> bool" where
  "is_genesis txn \<longleftrightarrow> client_id txn = 0 \<and> client_seq_num txn = 0"

definition ValidateCommittedProof ::
  "crypto \<Rightarrow> Configuration \<Rightarrow> CommittedProof \<Rightarrow> string \<Rightarrow> bool option" where
  "ValidateCommittedProof cr config cp digest =
     (if is_genesis (cp_txn cp) then Some True
      else case cp_sigs cp of
        P1_sigs gs \<Rightarrow> Some (ValidateP1Replies cr config None CC_ABORT COMMIT True (cp_txn cp) digest gs)
      | P2_sigs gs \<Rightarrow>
          ValidateP2Replies cr config None ABORT COMMIT (case cp_p2_view cp of None \<Rightarrow> 0 | Some v \<Rightarrow> v)
            (cp_txn cp) digest gs
      | No_sigs \<Rightarrow> Some False)"

definition ValidateCommittedConflict ::
  "crypto \<Rightarrow> Configuration \<Rightarrow> bool \<Rightarrow> CommittedProof \<Rightarrow> string \<Rightarrow> Transaction \<Rightarrow> bool option" where
  "ValidateCommittedConflict cr config signedMessages cp committedTxnDigest txn =
     (case TransactionsConflict (cp_txn cp) txn of
        Some True \<Rightarrow>
          if signedMessages then ValidateCommittedProof cr config cp committedTxnDigest else Some True
      | _ \<Rightarrow> None)"

text \<open>The loop over the write set stops at the first write of the key.\<close>

fun first_write :: "string \<Rightarrow> WriteMessage list \<Rightarrow> string option" where
  "first_write key [] = None"
| "first_write key (w # ws) = (if write_key w = key then Some (opt_bytes (write_value w)) else first_write key ws)"

definition ValidateTransactionWrite ::
  "crypto \<Rightarrow> Configuration \<Rightarrow> bool \<Rightarrow> CommittedProof \<Rightarrow> string \<Rightarrow> string \<Rightarrow> string \<Rightarrow> Timestamp \<Rightarrow> bool option" where
  "ValidateTransactionWrite cr config signedMessages cp digest key val ts =
     (if is_genesis (cp_txn cp) then Some True
      else case (if signedMessages then ValidateCommittedProof cr config cp digest else Some True) of
        None \<Rightarrow> None
      | Some False \<Rightarrow> Some False
      | Some True \<Rightarrow>
          if timestamp (cp_txn cp) \<noteq> ts then Some False
          else Some (first_write key (write_set (cp_txn cp)) = Some val))"

definition ValidateDependency :: "crypto \<Rightarrow> Dependency \<Rightarrow> nat \<Rightarrow> bool" where
  "ValidateDependency cr dep readDepSize =
     (let sigs = (case dep_write_sigs dep of None \<Rightarrow> [] | Some s \<Rightarrow> s) in
      if length sigs < readDepSize then False
      else list_all (\<lambda>sg. Verify cr (sig_process_id sg) (ser_write cr (dep_write dep)) (sig_signature sg)) sigs)"

definition opt_ts :: "Timestamp option \<Rightarrow> Timestamp" where
  "opt_ts t = (case t of None \<Rightarrow> ts_zero | Some t \<Rightarrow> t)"

definition Write_eq :: "Write \<Rightarrow> Write \<Rightarrow> bool" where
  "Write_eq a b \<longleftrightarrow>
     opt_bytes (w_prepared_value a) = opt_bytes (w_prepared_value b) \<and>
     getTimestamp (opt_ts (w_prepared_timestamp a)) = getTimestamp (opt_ts (w_prepared_timestamp b)) \<and>
     getID (opt_ts (w_prepared_timestamp a)) = getID (opt_ts (w_prepared_timestamp b)) \<and>
     opt_bytes (w_prepared_txn_digest a) = opt_bytes (w_prepared_txn_digest b)"

section \<open>Views and elections of the fallback\<close>

fun fb_views_loop ::
  "crypto \<Rightarrow> Configuration \<Rightarrow> u64 option \<Rightarrow> u64 \<Rightarrow> u64 \<Rightarrow> u64 \<Rightarrow> string \<Rightarrow> nat \<Rightarrow> u64 list \<Rightarrow> nat \<Rightarrow>
   SignedMessage list \<Rightarrow> bool" where
  "fb_views_loop cr config me myView least logGrp digest quorum seen verified [] = False"
| "fb_views_loop cr config me myView least logGrp digest quorum seen verified (sm # sms) =
     (let view = parse_view cr (sm_data sm) in
      if \<not> IsReplicaInGroup (sm_process_id sm) (to_int logGrp) config then False
      else if sm_process_id sm \<in> set seen then False
      else if cv_txn_digest view \<noteq> digest \<or> cv_current_view view < least then False
      else if \<not> (me = Some (sm_process_id sm) \<and> least \<le> myView) \<and>
              \<not> Verify cr (sm_process_id sm) (sm_data sm) (sm_signature sm) then False
      else if verified + 1 = quorum then True
      else fb_views_loop cr config me myView least logGrp digest quorum (sm_process_id sm # seen) (verified + 1) sms)"

definition VerifyFBViews ::
  "crypto \<Rightarrow> Configuration \<Rightarrow> u64 option \<Rightarrow> u64 \<Rightarrow> u64 \<Rightarrow> bool \<Rightarrow> u64 \<Rightarrow> string \<Rightarrow> SignedMessage list \<Rightarrow> bool" where
  "VerifyFBViews cr config me myView proposed_view catch_up logGrp digest sms =
     fb_views_loop cr config me myView (proposed_view - (if catch_up then 0 else 1)) logGrp digest
       (nat (if catch_up then cfg_f config + 1 else 3 * cfg_f config + 1)) [] 0 sms"

fun fb_decision_loop ::
  "crypto \<Rightarrow> Configuration \<Rightarrow> u64 option \<Rightarrow> bool \<Rightarrow> int \<Rightarrow> string \<Rightarrow> nat \<Rightarrow> u64 list \<Rightarrow> nat \<Rightarrow>
   Signature list \<Rightarrow> bool" where
  "fb_decision_loop cr config me same logGrp msg quorum seen verified [] = False"
| "fb_decision_loop cr config me same logGrp msg quorum seen verified (sg # sigs) =
     (if \<not> IsReplicaInGroup (sig_process_id sg) (int32 logGrp) config then False
      else if sig_process_id sg \<in> set seen then False
      else if \<not> (me = Some (sig_process_id sg) \<and> same) \<and>
              \<not> Verify cr (sig_process_id sg) msg (sig_signature sg) then False
      else if verified + 1 = quorum then True
      else fb_decision_loop cr config me same logGrp msg quorum (sig_process_id sg # seen) (verified + 1) sigs)"

definition ValidateFBDecision ::
  "crypto \<Rightarrow> Configuration \<Rightarrow> u64 option \<Rightarrow> CommitDecision \<Rightarrow> CommitDecision \<Rightarrow> u64 \<Rightarrow> Transaction \<Rightarrow> string \<Rightarrow>
   Signatures \<Rightarrow> bool option" where
  "ValidateFBDecision cr config me myDecision decision view txn digest sigs =
     (case GetLogGroup txn digest of
        None \<Rightarrow> None
      | Some grp \<Rightarrow>
          Some (fb_decision_loop cr config me (decision = myDecision) grp
            (ser_elect cr \<lparr>em_req_id = 0, em_txn_digest = digest, em_decision = decision, em_elect_view = view\<rparr>)
            (nat (2 * cfg_f config + 1)) [] 0 sigs))"

section \<open>What a validated certificate contains\<close>

text \<open>A signature counts if it verifies, or if it is the replica's own and agrees with its own vote.\<close>

definition sig_counts :: "crypto \<Rightarrow> u64 option \<Rightarrow> bool \<Rightarrow> string \<Rightarrow> Signature \<Rightarrow> bool" where
  "sig_counts cr me mine msg sg \<longleftrightarrow>
     (if me = Some (sig_process_id sg) then mine else Verify cr (sig_process_id sg) msg (sig_signature sg))"

lemma p1_sigs_loop_iff:
  "p1_sigs_loop cr config me myResult ccr grp msg seen v sigs = Some k \<longleftrightarrow>
     k = v + length sigs \<and> distinct (map sig_process_id sigs) \<and>
     set (map sig_process_id sigs) \<inter> set seen = {} \<and>
     (\<forall>sg \<in> set sigs. IsReplicaInGroup (sig_process_id sg) (to_int grp) config \<and>
        sig_counts cr me (ccr = myResult) msg sg)"
  by (induction cr config me myResult ccr grp msg seen v sigs rule: p1_sigs_loop.induct)
    (auto simp: sig_counts_def split: if_splits)

lemma p2_sigs_loop_iff:
  "p2_sigs_loop cr me myDecision decision msg seen v sigs = Some k \<longleftrightarrow>
     k = v + length sigs \<and> distinct (map sig_process_id sigs) \<and>
     set (map sig_process_id sigs) \<inter> set seen = {} \<and>
     (\<forall>sg \<in> set sigs. sig_counts cr me (decision = myDecision) msg sg)"
  by (induction cr me myDecision decision msg seen v sigs rule: p2_sigs_loop.induct)
    (auto simp: sig_counts_def split: if_splits)

text \<open>A full phase-1 quorum of one group for a decision.\<close>

definition p1_group_cert ::
  "crypto \<Rightarrow> Configuration \<Rightarrow> u64 option \<Rightarrow> CCResult \<Rightarrow> CommitDecision \<Rightarrow> bool \<Rightarrow> string \<Rightarrow> u64 \<Rightarrow>
   Signature list \<Rightarrow> bool" where
  "p1_group_cert cr config me myResult decision fast digest grp sigs \<longleftrightarrow>
     length sigs = p1_quorum decision fast config \<and> distinct (map sig_process_id sigs) \<and>
     (\<forall>sg \<in> set sigs. IsReplicaInGroup (sig_process_id sg) (to_int grp) config \<and>
        sig_counts cr me (p1_vote decision = myResult) (ser_cc cr (p1_msg digest decision grp)) sg)"

lemma ValidateP1Replies_groups:
  "ValidateP1Replies cr config me myResult decision fast txn digest gs \<longleftrightarrow>
     (\<forall>(grp, sigs) \<in> set gs. p1_group_cert cr config me myResult decision fast digest grp sigs) \<and>
     (decision = COMMIT \<longrightarrow> (\<forall>g \<in> set (involved_groups txn). int32 g \<in> to_int ` fst ` set gs))"
  unfolding ValidateP1Replies_def p1_sigs_loop_iff p1_group_cert_def by auto

lemma ValidateP1Replies_involved:
  assumes "ValidateP1Replies cr config me myResult COMMIT fast txn digest gs" "g \<in> set (involved_groups txn)"
  shows "\<exists>(grp, sigs) \<in> set gs. to_int grp = int32 g \<and> p1_group_cert cr config me myResult COMMIT fast digest grp sigs"
proof -
  obtain e where e: "e \<in> set gs" "int32 g = to_int (fst e)"
    using assms by (auto simp: ValidateP1Replies_groups)
  then have "p1_group_cert cr config me myResult COMMIT fast digest (fst e) (snd e)"
    using assms(1) by (auto simp: ValidateP1Replies_groups)
  then show ?thesis using e by (intro bexI [of _ e]) (auto simp: case_prod_unfold)
qed

lemma p1_group_cert_card:
  assumes "p1_group_cert cr config me myResult decision fast digest grp sigs"
  shows "card (sig_process_id ` set sigs) = p1_quorum decision fast config"
  using assms by (simp add: p1_group_cert_def distinct_card flip: set_map)

definition p2_cert ::
  "crypto \<Rightarrow> Configuration \<Rightarrow> u64 option \<Rightarrow> CommitDecision \<Rightarrow> CommitDecision \<Rightarrow> u64 \<Rightarrow> string \<Rightarrow> int \<Rightarrow>
   Signature list \<Rightarrow> bool" where
  "p2_cert cr config me myDecision decision view digest grp sigs \<longleftrightarrow>
     length sigs = unat (QuorumSize config) \<and> distinct (map sig_process_id sigs) \<and>
     (\<forall>sg \<in> set sigs. sig_counts cr me (decision = myDecision)
        (ser_p2 cr \<lparr>p2d_decision = decision, p2d_txn_digest = digest, p2d_involved_group = of_int grp,
                    p2d_view = Some view\<rparr>) sg)"

lemma ValidateP2Replies_cert:
  "ValidateP2Replies cr config me myDecision decision view txn digest gs = Some True \<longleftrightarrow>
     (\<exists>grp key sigs. GetLogGroup txn digest = Some grp \<and> gs = [(key, sigs)] \<and>
        p2_cert cr config me myDecision decision view digest grp sigs)"
  unfolding ValidateP2Replies_def p2_sigs_loop_iff p2_cert_def
  by (auto simp: Let_def split: option.splits list.splits)

lemma p2_cert_card:
  assumes "p2_cert cr config me myDecision decision view digest grp sigs"
  shows "card (sig_process_id ` set sigs) = unat (QuorumSize config)"
  using assms by (simp add: p2_cert_def distinct_card flip: set_map)

lemma fb_views_loop_quorum:
  assumes "fb_views_loop cr config me myView least logGrp digest quorum seen v sms" "v < quorum"
  shows "\<exists>R \<subseteq> set sms. finite R \<and> v + card (sm_process_id ` R) = quorum \<and>
    sm_process_id ` R \<inter> set seen = {} \<and>
    (\<forall>sm \<in> R. IsReplicaInGroup (sm_process_id sm) (to_int logGrp) config \<and>
       cv_txn_digest (parse_view cr (sm_data sm)) = digest \<and>
       least \<le> cv_current_view (parse_view cr (sm_data sm)) \<and>
       (Verify cr (sm_process_id sm) (sm_data sm) (sm_signature sm) \<or> me = Some (sm_process_id sm)))"
  using assms
proof (induction cr config me myView least logGrp digest quorum seen v sms rule: fb_views_loop.induct)
  case (2 cr config me myView least logGrp digest quorum seen v sm sms)
  let ?ok = "\<lambda>sm. IsReplicaInGroup (sm_process_id sm) (to_int logGrp) config \<and>
       cv_txn_digest (parse_view cr (sm_data sm)) = digest \<and>
       least \<le> cv_current_view (parse_view cr (sm_data sm)) \<and>
       (Verify cr (sm_process_id sm) (sm_data sm) (sm_signature sm) \<or> me = Some (sm_process_id sm))"
  have ok: "?ok sm" "sm_process_id sm \<notin> set seen"
    using 2(2) by (auto simp: Let_def not_less split: if_splits)
  show ?case
  proof (cases "v + 1 = quorum")
    case True
    then show ?thesis using ok by (intro exI [of _ "{sm}"]) auto
  next
    case False
    have "\<exists>R \<subseteq> set sms. finite R \<and> v + 1 + card (sm_process_id ` R) = quorum \<and>
      sm_process_id ` R \<inter> set (sm_process_id sm # seen) = {} \<and> (\<forall>sm \<in> R. ?ok sm)"
      using 2(2,3) False by (intro 2(1) [OF refl]) (auto simp: Let_def split: if_splits)
    then obtain R where R: "R \<subseteq> set sms" "finite R" "v + 1 + card (sm_process_id ` R) = quorum"
      "sm_process_id ` R \<inter> set (sm_process_id sm # seen) = {}" "\<forall>sm \<in> R. ?ok sm" by blast
    then have "v + card (sm_process_id ` insert sm R) = quorum"
      by (subst image_insert, subst card_insert_disjoint) auto
    then show ?thesis using R ok by (intro exI [of _ "insert sm R"]) auto
  qed
qed simp

lemma fb_decision_loop_quorum:
  assumes "fb_decision_loop cr config me same logGrp msg quorum seen v sigs" "v < quorum"
  shows "\<exists>R \<subseteq> set sigs. finite R \<and> v + card (sig_process_id ` R) = quorum \<and>
    sig_process_id ` R \<inter> set seen = {} \<and>
    (\<forall>sg \<in> R. IsReplicaInGroup (sig_process_id sg) (int32 logGrp) config \<and>
       (Verify cr (sig_process_id sg) msg (sig_signature sg) \<or> me = Some (sig_process_id sg) \<and> same))"
  using assms
proof (induction cr config me same logGrp msg quorum seen v sigs rule: fb_decision_loop.induct)
  case (2 cr config me same logGrp msg quorum seen v sg sigs)
  let ?ok = "\<lambda>sg. IsReplicaInGroup (sig_process_id sg) (int32 logGrp) config \<and>
       (Verify cr (sig_process_id sg) msg (sig_signature sg) \<or> me = Some (sig_process_id sg) \<and> same)"
  have ok: "?ok sg" "sig_process_id sg \<notin> set seen" using 2(2) by (auto split: if_splits)
  show ?case
  proof (cases "v + 1 = quorum")
    case True
    then show ?thesis using ok by (intro exI [of _ "{sg}"]) auto
  next
    case False
    have "\<exists>R \<subseteq> set sigs. finite R \<and> v + 1 + card (sig_process_id ` R) = quorum \<and>
      sig_process_id ` R \<inter> set (sig_process_id sg # seen) = {} \<and> (\<forall>sg \<in> R. ?ok sg)"
      using 2(2,3) False by (intro 2(1)) (auto split: if_splits)
    then obtain R where R: "R \<subseteq> set sigs" "finite R" "v + 1 + card (sig_process_id ` R) = quorum"
      "sig_process_id ` R \<inter> set (sig_process_id sg # seen) = {}" "\<forall>sg \<in> R. ?ok sg" by blast
    then have "v + card (sig_process_id ` insert sg R) = quorum"
      by (subst image_insert, subst card_insert_disjoint) auto
    then show ?thesis using R ok by (intro exI [of _ "insert sg R"]) auto
  qed
qed simp

section \<open>Properties of certificate validation\<close>

text \<open>A deployment whose signatures are the signed message, for the concrete instances below.\<close>

definition sample_crypto :: crypto where
  "sample_crypto = \<lparr>Verify = (\<lambda>i msg sg. sg = msg), ser_cc = (\<lambda>m. cc_txn_digest m @ (if cc_ccr m = CC_COMMIT then ''1'' else ''0'')),
     ser_p2 = (\<lambda>m. p2d_txn_digest m @ (if p2d_decision m = COMMIT then ''1'' else ''0'')), ser_elect = em_txn_digest,
     ser_write = (\<lambda>w. opt_bytes (w_prepared_txn_digest w)),
     parse_p2 = (\<lambda>d. \<lparr>p2d_decision = COMMIT, p2d_txn_digest = d, p2d_involved_group = 0, p2d_view = Some 0\<rparr>),
     parse_view = (\<lambda>d. \<lparr>cv_current_view = 1, cv_txn_digest = d, cv_replica_id = 0\<rparr>)\<rparr>"

lemma sample_in_group:
  assumes "unat i < 6"
  shows "IsReplicaInGroup i 0 sample_cfg"
proof -
  have "int (unat i) < 6" using assms by linarith
  then show ?thesis
    using IsReplicaInGroup_small [OF sample_cfg_ok, of 0 i] assms
    by (simp add: sample_cfg_def Configuration_make_def)
qed

lemma to_int_0 [simp]: "to_int 0 = 0"
  by (simp add: to_int_def)

lemma int32_0 [simp]: "int32 0 = 0"
  by (simp add: int32_def)

text \<open>
  C9. The phase-1 certificate check is exact: it accepts if and only if every listed group comes with
  exactly a quorum of signatures by distinct replicas accepted for that group, each one valid for this
  transaction, decision and group (or the replica's own matching vote), and, for a commit, every group
  the transaction involves is listed.
\<close>
theorem ValidateP1Replies_exact:
  "ValidateP1Replies cr config me myResult decision fast txn digest gs \<longleftrightarrow>
     (\<forall>(grp, sigs) \<in> set gs. p1_group_cert cr config me myResult decision fast digest grp sigs \<and>
        card (sig_process_id ` set sigs) = p1_quorum decision fast config) \<and>
     (decision = COMMIT \<longrightarrow> (\<forall>g \<in> set (involved_groups txn). int32 g \<in> to_int ` fst ` set gs))"
  unfolding ValidateP1Replies_groups by (auto dest: p1_group_cert_card)

theorem ValidateP1Replies_exact_witness:
  "let gs = [(0, map (\<lambda>i. \<lparr>sig_process_id = i, sig_signature = ''d1''\<rparr>) [0, 1, 2, 3])]
   in ValidateP1Replies sample_crypto sample_cfg None CC_ABORT COMMIT False (empty_txn\<lparr>involved_groups := [0]\<rparr>) ''d'' gs \<and>
      \<not> ValidateP1Replies sample_crypto sample_cfg None CC_ABORT COMMIT True (empty_txn\<lparr>involved_groups := [0]\<rparr>) ''d'' gs"
  unfolding Let_def ValidateP1Replies_exact
  by (simp add: p1_group_cert_def sample_in_group p1_quorum_def sig_counts_def sample_crypto_def p1_msg_def p1_vote_def)




text \<open>
  C23. A dependency is accepted on the strength of one replica: repeating a single valid signature as often
  as required passes the check, since the signers are not required to be distinct.
\<close>
theorem ValidateDependency_repeated_signer:
  assumes "Verify cr (sig_process_id sg) (ser_write cr (dep_write dep)) (sig_signature sg)"
  shows "ValidateDependency cr (dep\<lparr>dep_write_sigs := Some (replicate n sg)\<rparr>) n"
  using assms by (simp add: ValidateDependency_def list_all_iff)

theorem ValidateDependency_repeated_signer_witness:
  "ValidateDependency sample_crypto
     \<lparr>dep_write = \<lparr>w_committed_value = None, w_committed_timestamp = None, w_prepared_value = None,
                   w_prepared_timestamp = None, w_prepared_txn_digest = Some ''d''\<rparr>,
      dep_write_sigs = Some (replicate 2 \<lparr>sig_process_id = 0, sig_signature = ''d''\<rparr>), dep_involved_group = 0\<rparr> 2"
  using ValidateDependency_repeated_signer [of sample_crypto "\<lparr>sig_process_id = 0, sig_signature = ''d''\<rparr>"
      "\<lparr>dep_write = \<lparr>w_committed_value = None, w_committed_timestamp = None, w_prepared_value = None,
                   w_prepared_timestamp = None, w_prepared_txn_digest = Some ''d''\<rparr>,
      dep_write_sigs = None, dep_involved_group = 0\<rparr>" 2]
  by (simp add: sample_crypto_def opt_bytes_def)





text \<open>
  C16. A validated fallback decision carries 2f+1 elect messages for this decision, view and transaction,
  signed by distinct replicas accepted for the log group (or the replica's own equal decision).
\<close>
theorem ValidateFBDecision_sound:
  assumes "ValidateFBDecision cr config me myDecision decision view txn digest sigs = Some True" "0 \<le> cfg_f config"
  shows "\<exists>grp. GetLogGroup txn digest = Some grp \<and> (\<exists>R \<subseteq> set sigs.
    card (sig_process_id ` R) = nat (2 * cfg_f config + 1) \<and>
    (\<forall>sg \<in> R. IsReplicaInGroup (sig_process_id sg) (int32 grp) config \<and>
       (Verify cr (sig_process_id sg) (ser_elect cr \<lparr>em_req_id = 0, em_txn_digest = digest, em_decision = decision,
          em_elect_view = view\<rparr>) (sig_signature sg) \<or> me = Some (sig_process_id sg) \<and> decision = myDecision)))"
proof -
  obtain grp where g: "GetLogGroup txn digest = Some grp"
    and l: "fb_decision_loop cr config me (decision = myDecision) grp
      (ser_elect cr \<lparr>em_req_id = 0, em_txn_digest = digest, em_decision = decision, em_elect_view = view\<rparr>)
      (nat (2 * cfg_f config + 1)) [] 0 sigs"
    using assms(1) by (auto simp: ValidateFBDecision_def split: option.splits)
  have "0 < nat (2 * cfg_f config + 1)" using assms(2) by simp
  from fb_decision_loop_quorum [OF l this] show ?thesis using g by simp blast
qed

theorem ValidateFBDecision_sound_witness:
  "let sigs = map (\<lambda>i. \<lparr>sig_process_id = i, sig_signature = ''d''\<rparr>) [0, 1, 2];
       txn = empty_txn\<lparr>involved_groups := [0]\<rparr>
   in ValidateFBDecision sample_crypto sample_cfg None ABORT COMMIT 1 txn ''d'' sigs = Some True \<and>
      (\<exists>R \<subseteq> set sigs. card (sig_process_id ` R) = 3)"
proof -
  let ?sigs = "map (\<lambda>i. \<lparr>sig_process_id = i, sig_signature = ''d''\<rparr>) [0, 1, 2]"
  have v: "ValidateFBDecision sample_crypto sample_cfg None ABORT COMMIT 1 (empty_txn\<lparr>involved_groups := [0]\<rparr>) ''d'' ?sigs = Some True"
    by (simp add: ValidateFBDecision_def GetLogGroup_def sample_in_group Let_def)
      (simp add: sample_crypto_def sample_cfg_def Configuration_make_def)
  show ?thesis
    using v ValidateFBDecision_sound [OF v] unfolding Let_def by (simp add: sample_cfg_def Configuration_make_def) blast
qed

end
