(* ===== verification/Table_Encoding.thy ===== *)
theory Table_Encoding
  imports Pequin_Prelude
begin

text \<open>
  Keys of table rows (\<open>store/common/table_kv_encoder.cc\<close>): a table gets the next free number when it
  is first named, a row key is that number and the primary key values behind delimiters.  The two
  static maps are the record \<open>table_enc\<close>.  \<open>None\<close> is a \<open>Panic\<close>, a failed assertion or an exception.
\<close>

section \<open>The encoder\<close>

definition unique_delimiter :: string where
  "unique_delimiter = ''#''"

record table_enc =
  name_to_numerics :: "(string, nat) omap"
  numerics_to_name :: "(string, string) omap"

definition init_enc :: table_enc where
  "init_enc = \<lparr>name_to_numerics = [], numerics_to_name = []\<rparr>"

definition dec_digit :: "nat \<Rightarrow> char" where
  "dec_digit n = char_of (48 + n)"

fun to_string :: "nat \<Rightarrow> string" where
  "to_string n = (if n < 10 then [dec_digit n] else to_string (n div 10) @ [dec_digit (n mod 10)])"

declare to_string.simps [simp del]

definition EncodeTable :: "string \<Rightarrow> table_enc \<Rightarrow> table_enc \<times> string" where
  "EncodeTable table_name e =
     (case map_of (name_to_numerics e) table_name of
        Some n \<Rightarrow> (e, to_string n)
      | None \<Rightarrow>
          let new_numeric = length (name_to_numerics e)
          in (e\<lparr>name_to_numerics := om_put table_name new_numeric (name_to_numerics e),
                numerics_to_name := om_put (to_string new_numeric) table_name (numerics_to_name e)\<rparr>,
              to_string new_numeric))"

definition DecodeTable :: "string \<Rightarrow> table_enc \<Rightarrow> string option" where
  "DecodeTable numeric e = map_of (numerics_to_name e) numeric"

definition EncodeTableCol :: "string \<Rightarrow> string \<Rightarrow> string" where
  "EncodeTableCol table_name col_name = table_name @ unique_delimiter @ col_name"

definition EncodeTableRow :: "string \<Rightarrow> string list \<Rightarrow> table_enc \<Rightarrow> table_enc \<times> string" where
  "EncodeTableRow table_name vals e =
     (let (e', t) = EncodeTable table_name e
      in (e', t @ concat (map (\<lambda>v. unique_delimiter @ v) vals)))"

text \<open>\<open>substr(1, length() - 2)\<close> throws on an empty string, and the length wraps for one character.\<close>

definition strip_quotes :: "string \<Rightarrow> string option" where
  "strip_quotes v = (if v = [] then None else Some (take (length v - 2) (tl v)))"

fun unquote_all :: "string list \<Rightarrow> bool list \<Rightarrow> string list option" where
  "unquote_all [] qs = Some []"
| "unquote_all (v # vs) [] = None"
| "unquote_all (v # vs) (q # qs) =
     (case (if q then strip_quotes v else Some v, unquote_all vs qs) of
        (Some u, Some us) \<Rightarrow> Some (u # us) | _ \<Rightarrow> None)"

definition EncodeTableRow_quotes ::
  "string \<Rightarrow> string list \<Rightarrow> bool list \<Rightarrow> table_enc \<Rightarrow> (table_enc \<times> string) option" where
  "EncodeTableRow_quotes table_name vals quotes e =
     map_option (\<lambda>us. EncodeTableRow table_name us e) (unquote_all vals quotes)"

function split_cols :: "string \<Rightarrow> string list" where
  "split_cols s =
     (case dropWhile (\<lambda>c. c \<noteq> CHR ''#'') s of
        [] \<Rightarrow> [s]
      | _ # rest \<Rightarrow> takeWhile (\<lambda>c. c \<noteq> CHR ''#'') s # split_cols rest)"
  by pat_completeness auto
termination
proof (relation "measure length")
  fix s x rest assume "dropWhile (\<lambda>c. c \<noteq> CHR ''#'') s = x # rest"
  then have "length (x # rest) \<le> length s" by (metis length_dropWhile_le)
  then show "(rest, s) \<in> measure length" by simp
qed simp

declare split_cols.simps [simp del]

definition DecodeTableRow :: "string \<Rightarrow> table_enc \<Rightarrow> (string \<times> string list) option" where
  "DecodeTableRow enc_key e =
     (case dropWhile (\<lambda>c. c \<noteq> CHR ''#'') enc_key of
        [] \<Rightarrow> None
      | _ # rest \<Rightarrow>
          (case DecodeTable (takeWhile (\<lambda>c. c \<noteq> CHR ''#'') enc_key) e of
             None \<Rightarrow> None
           | Some table_name \<Rightarrow> Some (table_name, split_cols rest)))"

section \<open>Decimal numbers\<close>

lemma of_char_dec_digit: "n < 10 \<Longrightarrow> (of_char (dec_digit n) :: nat) = 48 + n"
  by (simp add: dec_digit_def)

definition of_digits :: "string \<Rightarrow> nat" where
  "of_digits s = foldl (\<lambda>a c. 10 * a + (of_char c - 48)) 0 s"

lemma of_digits_to_string: "of_digits (to_string n) = n"
proof (induction n rule: to_string.induct)
  case (1 n)
  then show ?case
    by (subst to_string.simps) (auto simp: of_digits_def of_char_dec_digit)
qed

lemma to_string_inj [simp]: "to_string m = to_string n \<longleftrightarrow> m = n"
  by (metis of_digits_to_string)

lemma hash_not_digit: "n < 10 \<Longrightarrow> dec_digit n \<noteq> CHR ''#''"
  using of_char_dec_digit [of n] by auto

lemma to_string_no_hash: "c \<in> set (to_string n) \<Longrightarrow> c \<noteq> CHR ''#''"
proof (induction n rule: to_string.induct)
  case (1 n)
  show ?case
  proof (cases "n < 10")
    case True
    then show ?thesis using 1(2) hash_not_digit by (subst (asm) to_string.simps) auto
  next
    case False
    then have "c \<in> set (to_string (n div 10)) \<or> c = dec_digit (n mod 10)"
      using 1(2) by (subst (asm) to_string.simps) auto
    then show ?thesis using 1(1) [OF False] hash_not_digit [of "n mod 10"] by auto
  qed
qed

section \<open>The two maps are inverse to each other\<close>

definition enc_ok :: "table_enc \<Rightarrow> bool" where
  "enc_ok e \<longleftrightarrow> om_sorted (name_to_numerics e) \<and> om_sorted (numerics_to_name e) \<and>
     (\<forall>n t. map_of (numerics_to_name e) (to_string n) = Some t \<longleftrightarrow>
            map_of (name_to_numerics e) t = Some n) \<and>
     (\<forall>t n. map_of (name_to_numerics e) t = Some n \<longrightarrow> n < length (name_to_numerics e))"

lemma enc_okD:
  assumes "enc_ok e"
  shows "om_sorted (name_to_numerics e)" "om_sorted (numerics_to_name e)"
    "map_of (numerics_to_name e) (to_string n) = Some t \<longleftrightarrow> map_of (name_to_numerics e) t = Some n"
    "map_of (name_to_numerics e) t = Some n \<Longrightarrow> n < length (name_to_numerics e)"
  using assms by (auto simp: enc_ok_def)

lemma enc_ok_init: "enc_ok init_enc"
  by (simp add: enc_ok_def init_enc_def)

lemma length_om_put_new: "map_of m k = None \<Longrightarrow> length (om_put k v m) = Suc (length m)"
  by (induction k v m rule: om_put.induct) (auto split: if_splits)

lemma enc_ok_EncodeTable:
  assumes "enc_ok e"
  shows "enc_ok (fst (EncodeTable t e))"
proof (cases "map_of (name_to_numerics e) t")
  case None
  note ok = enc_okD [OF assms]
  let ?n = "length (name_to_numerics e)"
  have fresh: "map_of (name_to_numerics e) t' \<noteq> Some ?n" for t' using ok(4) by blast
  show ?thesis
    unfolding enc_ok_def
    using None ok(1,2,3) fresh
    by (auto simp: EncodeTable_def Let_def map_of_om_put length_om_put_new less_Suc_eq
        split: if_splits dest: ok(4))
qed (simp add: EncodeTable_def assms)

lemma EncodeTable_grows:
  assumes "enc_ok e" "DecodeTable num e = Some t'"
  shows "DecodeTable num (fst (EncodeTable t e)) = Some t'"
proof (cases "map_of (name_to_numerics e) t")
  case None
  note ok = enc_okD [OF assms(1)]
  have "num \<noteq> to_string (length (name_to_numerics e))"
    using assms(2) ok(3,4) by (auto simp: DecodeTable_def)
  then show ?thesis using None assms(2) ok
    by (simp add: EncodeTable_def Let_def DecodeTable_def map_of_om_put)
qed (simp add: EncodeTable_def assms)

lemma Decode_EncodeTable:
  assumes "enc_ok e" "EncodeTable t e = (e', n)"
  shows "DecodeTable n e' = Some t"
  using enc_okD [OF assms(1)] assms(2)
  by (auto simp: EncodeTable_def DecodeTable_def Let_def map_of_om_put split: option.splits)

section \<open>Row keys\<close>

lemma split_cols_concat:
  assumes "\<forall>v \<in> set (v # vs). CHR ''#'' \<notin> set v"
  shows "split_cols (v @ concat (map (\<lambda>v. unique_delimiter @ v) vs)) = v # vs"
  using assms
proof (induction vs arbitrary: v)
  case Nil
  then have "dropWhile (\<lambda>c. c \<noteq> CHR ''#'') v = []" by (auto simp: dropWhile_eq_Nil_conv)
  then have "split_cols v = [v]" by (subst split_cols.simps) (simp only: list.case)
  then show ?case by simp
next
  case (Cons w vs)
  let ?rest = "concat (map (\<lambda>v. unique_delimiter @ v) vs)"
  have nh: "\<forall>c \<in> set v. c \<noteq> CHR ''#''" using Cons.prems by auto
  have "dropWhile (\<lambda>c. c \<noteq> CHR ''#'') (v @ unique_delimiter @ w @ ?rest) = CHR ''#'' # w @ ?rest"
    "takeWhile (\<lambda>c. c \<noteq> CHR ''#'') (v @ unique_delimiter @ w @ ?rest) = v"
    using nh by (simp_all add: unique_delimiter_def dropWhile_append2 takeWhile_append2)
  then have "split_cols (v @ unique_delimiter @ w @ ?rest) = v # split_cols (w @ ?rest)"
    by (subst split_cols.simps) (simp only: list.case)
  moreover have "split_cols (w @ ?rest) = w # vs" using Cons by simp
  ultimately show ?case by simp
qed

text \<open>
  C30. Reading a row key back: whatever tables the encoder has numbered before, the key of a row with at
  least one primary key value, none of which contains the delimiter, decodes to that table and those
  values, and it still does after the encoder has numbered any further tables.
\<close>

theorem EncodeTableRow_roundtrip:
  assumes "enc_ok e" "vals \<noteq> []" "\<forall>v \<in> set vals. CHR ''#'' \<notin> set v"
    "EncodeTableRow t vals e = (e', key)"
  shows "DecodeTableRow key (fold (\<lambda>u x. fst (EncodeTable u x)) us e') = Some (t, vals)"
proof -
  obtain n where n: "EncodeTable t e = (e', n)" and key: "key = n @ concat (map (\<lambda>v. unique_delimiter @ v) vals)"
    using assms(4) by (auto simp: EncodeTableRow_def split: prod.splits)
  have "enc_ok e'" using enc_ok_EncodeTable [OF assms(1), of t] n by simp
  moreover have "DecodeTable n e' = Some t" using Decode_EncodeTable [OF assms(1) n] .
  ultimately have dec: "DecodeTable n (fold (\<lambda>u x. fst (EncodeTable u x)) us e') = Some t"
    by (induction us arbitrary: e') (simp_all add: enc_ok_EncodeTable EncodeTable_grows)
  obtain k where "n = to_string k"
    using n by (auto simp: EncodeTable_def Let_def split: option.splits)
  then have nh: "\<forall>c \<in> set n. c \<noteq> CHR ''#''" using to_string_no_hash by blast
  obtain v vs where vals: "vals = v # vs" using assms(2) by (cases vals) auto
  have "dropWhile (\<lambda>c. c \<noteq> CHR ''#'') key = CHR ''#'' # v @ concat (map (\<lambda>v. unique_delimiter @ v) vs)"
    "takeWhile (\<lambda>c. c \<noteq> CHR ''#'') key = n"
    using nh by (auto simp: key vals unique_delimiter_def dropWhile_append2 takeWhile_append2)
  then show ?thesis
    using dec split_cols_concat [of v vs] assms(3) by (simp add: DecodeTableRow_def vals)
qed

lemma EncodeTableRow_roundtrip_witness:
  "let (e, _) = EncodeTable ''stock'' init_enc; (e', key) = EncodeTableRow ''item'' [''7'', ''red''] e
   in key = ''1#7#red'' \<and> DecodeTableRow key (fst (EncodeTable ''order'' e')) = Some (''item'', [''7'', ''red''])"
proof -
  define e where "e = fst (EncodeTable ''stock'' init_enc)"
  have ok: "enc_ok e" using enc_ok_EncodeTable [OF enc_ok_init] by (simp add: e_def)
  have one: "to_string (Suc 0) = ''1''" by code_simp
  have k: "EncodeTableRow ''item'' [''7'', ''red''] e = (fst (EncodeTable ''item'' e), ''1#7#red'')"
    by (simp add: e_def EncodeTable_def EncodeTableRow_def init_enc_def Let_def unique_delimiter_def one)
  have "DecodeTableRow ''1#7#red'' (fst (EncodeTable ''order'' (fst (EncodeTable ''item'' e)))) =
    Some (''item'', [''7'', ''red''])"
    using EncodeTableRow_roundtrip [OF ok _ _ k, of "[''order'']"] by simp
  then show ?thesis using k by (simp only: e_def case_prod_unfold Let_def fst_conv snd_conv simp_thms)
qed

end
