(* ===== verification/Server_State.thy ===== *)
theory Server_State
  imports Validation Version_Store Table_Encoding "HOL-Library.Monad_Syntax" "HOL-Library.Char_ord"
    "HOL-Library.List_Lexorder" "HOL-Library.Product_Lexorder"
begin

text \<open>
  The state of a replica (\<open>store/pequinstore/server.h\<close>) and the operations that every handler
  uses: ownership of keys, read timestamps, the registration of ongoing transactions, lookups of votes
  and decisions, and the clean-up of a finished transaction.

  A concurrent map is a partial map and a \<open>std::map\<close> or \<open>std::set\<close> a sorted association list.  A
  transaction object is identified by its digest: containers of transaction pointers are keyed by
  digest.  Work that the code hands to another thread, and messages it sends, are appended to
  \<open>effects\<close>.  \<open>None\<close> is a \<open>Panic\<close>, a failed assertion, or an access that has no defined result.
\<close>

section \<open>Parameters and constants of a replica\<close>

datatype OCCType = MVTSO | TAPIR

record params =
  hashDigest :: bool
  signedMessages :: bool
  validateProofs :: bool
  verifyDeps :: bool
  maxDepDepth :: int
  readDepSize :: u64
  mainThreadDispatching :: bool
  dispatchMessageReceive :: bool
  parallel_CCC :: bool
  multiThreading :: bool
  replicaGossip :: bool
  signClientProposals :: bool
  rtsMode :: u32
  sql_mode :: bool
  useSemanticCC :: bool
  cacheReadSet :: bool
  mergeActiveAtClient :: bool
  optimisticTxID :: bool
  parallel_queries :: bool
  signClientQueries :: bool
  disable_prepare_visibility :: bool
  occType :: OCCType
  server_id :: u64
  server_idx :: u64
  groupIdx :: int
  numGroups :: u64
  part :: "string \<Rightarrow> u64"
  no_fallback :: bool
  all_to_all_fb :: bool
  has_local_writes :: "string \<Rightarrow> TableWrite \<Rightarrow> bool"
  EvaluatePred :: "string \<Rightarrow> RowUpdates \<Rightarrow> string \<Rightarrow> bool"
  monotonicityGrace :: u64
  non_monotonicityGrace :: u64
  timeDelta :: u64
  blake3 :: "string \<Rightarrow> string"

definition IsKeyOwned :: "params \<Rightarrow> string \<Rightarrow> bool" where
  "IsKeyOwned pe key \<longleftrightarrow> sint (ucast (part pe key mod numGroups pe) :: u32) = groupIdx pe"

text \<open>A configuration of one key-value group, used in concrete examples.\<close>

definition kv_params :: params where
  "kv_params = \<lparr>hashDigest = True, signedMessages = True, validateProofs = True, verifyDeps = False,
     maxDepDepth = -1, readDepSize = 1, mainThreadDispatching = True, dispatchMessageReceive = False,
     parallel_CCC = True, multiThreading = False, replicaGossip = False, signClientProposals = False,
     rtsMode = 0, sql_mode = False, useSemanticCC = False, cacheReadSet = False,
     mergeActiveAtClient = True, optimisticTxID = False, parallel_queries = False,
     signClientQueries = False, disable_prepare_visibility = False, occType = MVTSO, server_id = 0,
     server_idx = 0, groupIdx = 0, numGroups = 1, part = (\<lambda>_. 0), no_fallback = False,
     all_to_all_fb = False, has_local_writes = (\<lambda>_ _. True),
     EvaluatePred = (\<lambda>_ _ _. True), monotonicityGrace = 0, non_monotonicityGrace = 0, timeDelta = 0, blake3 = (\<lambda>x. x)\<rparr>"

lemma kv_params_simps [simp]:
  "validateProofs kv_params" "signedMessages kv_params" "\<not> verifyDeps kv_params" "maxDepDepth kv_params = -1"
  "\<not> signClientProposals kv_params" "rtsMode kv_params = 0" "\<not> sql_mode kv_params"
  "\<not> useSemanticCC kv_params" "\<not> cacheReadSet kv_params" "mergeActiveAtClient kv_params"
  "\<not> optimisticTxID kv_params" "\<not> no_fallback kv_params" "groupIdx kv_params = 0"
  "occType kv_params = MVTSO" "\<not> disable_prepare_visibility kv_params" "\<not> all_to_all_fb kv_params"
  "IsKeyOwned kv_params key"
  by (simp_all add: kv_params_def IsKeyOwned_def)

section \<open>The state\<close>

type_synonym remote = string

record Value =
  val_val :: string
  val_proof :: "CommittedProof option"

record ongoingData =
  og_txn :: Transaction
  num_concurrent_clients :: u64

record P1MetaData =
  p1_reqId :: u64
  p1_result :: "CCResult option"
  p1_conflict :: "CommittedProof option"
  p1_hasP1 :: bool
  p1_signed_txn :: "SignedMessage option"
  p1_original :: "remote option"
  p1_fallbacks_interested :: bool
  p1_forceMaterialize :: bool
  p1_alreadyForceMaterialized :: bool

definition new_P1MetaData :: P1MetaData where
  "new_P1MetaData = \<lparr>p1_reqId = 0, p1_result = None, p1_conflict = None, p1_hasP1 = False,
     p1_signed_txn = None, p1_original = None, p1_fallbacks_interested = False,
     p1_forceMaterialize = False, p1_alreadyForceMaterialized = False\<rparr>"

record P2MetaData =
  p2_current_view :: u64
  p2_decision_view :: u64
  p2_hasP2 :: bool
  p2_p2Decision :: "CommitDecision option"
  p2_original :: "(u64 \<times> remote) option"

definition new_P2MetaData :: P2MetaData where
  "new_P2MetaData = \<lparr>p2_current_view = 0, p2_decision_view = 0, p2_hasP2 = False,
     p2_p2Decision = None, p2_original = None\<rparr>"

record WaitingDependency =
  wd_original_client :: bool
  wd_reqId :: u64
  wd_remote :: "remote option"
  wd_deps :: "string list"

record ElectFBorganizer =
  view_complete :: "(u64, bool) omap"
  view_quorums :: "(u64, (CommitDecision \<times> u64 list \<times> Signatures \<times> u64) list) omap"
  move_view_counts :: "(u64, u64 \<times> bool) omap"

record QueryResult =
  qr_query_result_hash :: "string option"
  qr_query_read_set :: "ReadSet option"

record QueryMetaData =
  qm_failure :: bool
  qm_client_id :: u64
  qm_ts :: Timestamp
  qm_retry_version :: u64
  qm_has_result :: bool
  qm_result :: "QueryResult option"

record waitingOnQueriesMeta =
  wq_missing :: "(string \<times> u64) list"
  wq_prepare_or_commit :: nat
  wq_isGossip :: bool
  wq_reqId :: u64
  wq_remote :: "remote option"
  wq_txn :: Transaction
  wq_proof :: "CommittedProof option"

record Phase2 =
  ph2_req_id :: u64
  ph2_decision :: CommitDecision
  ph2_txn :: "Transaction option"
  ph2_txn_digest :: "string option"
  ph2_grouped_sigs :: "GroupedSignatures option"
  ph2_simulated_equiv :: bool
  ph2_real_equiv :: bool

datatype ooMsg = OO_p2 Phase2 remote | OO_wb Writeback

record Phase1Reply =
  p1r_req_id :: u64
  p1r_ccr :: CCResult
  p1r_txn_digest :: "string option"
  p1r_involved_group :: "int option"
  p1r_committed_conflict :: "CommittedProof option"
  p1r_abstain_conflict :: "(SignedMessage + Transaction) option"

record Phase1FBReply =
  fbr_req_id :: u64
  fbr_txn_digest :: string
  fbr_wb :: "Writeback option"
  fbr_p1r :: "Phase1Reply option"
  fbr_p2r :: "Phase2Reply option"
  fbr_view :: "u64 option"

record RelayP1 =
  relay_dependent_id :: u64
  relay_p1 :: "SignedMessage + Transaction"
  relay_replica_id :: u64
  relay_dependent_txn :: "string option"

record ReadReply =
  rr_req_id :: u64
  rr_key :: string
  rr_proof :: "CommittedProof option"
  rr_write :: Write

text \<open>What a replica hands to other threads, to the table store and to the network.\<close>

datatype effect =
    Job_ApplyTableWrites Transaction Timestamp string "CommittedProof option" bool
  | Job_PurgeTableWrites Transaction Timestamp string
  | Job_UpdateWaitingQueries string bool
  | Job_UpdateWaitingQueriesTS u64 string bool
  | Job_ProcessProposal u64 remote "SignedMessage option" Transaction string bool bool
  | Job_TryPrepare u64 remote string bool bool
  | Job_Phase2Validation remote Phase2 string Transaction "CCResult option"
  | Job_WritebackValidation Writeback string Transaction
  | Table_Apply string TableWrite Timestamp string "CommittedProof option" bool bool
  | Send_Phase1Reply remote Phase1Reply
  | Send_Phase1FBReply remote Phase1FBReply
  | Send_Phase2Reply remote Phase2Reply
  | Send_ReadReply remote ReadReply
  | Send_RelayP1 remote RelayP1
  | Gossip_Phase1 u64 Transaction

record server =
  store :: "(Timestamp, Value) VersionedKVStore"
  committedReads :: "string \<rightharpoonup> (Timestamp \<times> Timestamp, CommittedProof option) omap"
  rts :: "string \<rightharpoonup> u64"
  rts_list :: "string \<rightharpoonup> (Timestamp, unit) omap"
  ongoing :: "string \<rightharpoonup> ongoingData"
  ooMessages :: "string \<rightharpoonup> ooMsg"
  ts_to_tx :: "u64 \<rightharpoonup> string"
  prepared :: "string \<rightharpoonup> Timestamp \<times> Transaction"
  preparedReads :: "string \<rightharpoonup> (string, Transaction) omap"
  preparedWrites :: "string \<rightharpoonup> (Timestamp, Transaction) omap"
  tablePredicates :: "string \<rightharpoonup> (Timestamp, Transaction \<times> bool) omap"
  tableWrites :: "string \<rightharpoonup> (Timestamp, Transaction \<times> bool) omap"
  highTableVersions :: "string \<rightharpoonup> Timestamp"
  non_monotonic_writes :: "string set"
  committed :: "string \<rightharpoonup> CommittedProof option"
  aborted :: "string set"
  writebackMessages :: "string \<rightharpoonup> Writeback"
  p1MetaData :: "string \<rightharpoonup> P1MetaData"
  p2MetaDatas :: "string \<rightharpoonup> P2MetaData"
  interestedClients :: "string \<rightharpoonup> (u64 \<times> remote) list"
  ElectQuorums :: "string \<rightharpoonup> ElectFBorganizer"
  dependents :: "string \<rightharpoonup> string list"
  waitingDependencies_new :: "string \<rightharpoonup> WaitingDependency"
  queryMetaData :: "string \<rightharpoonup> QueryMetaData"
  alreadyDeleted :: "string set"
  clientQueryWatermark :: "u64 \<rightharpoonup> u64"
  subscribedQuery :: "string \<rightharpoonup> string"
  TxnMissingQueries :: "string \<rightharpoonup> waitingOnQueriesMeta option"
  queryMissingTxns :: "string \<rightharpoonup> string list"
  materialized :: "string set"
  table_encoder :: table_enc
  effects :: "effect list"

definition emit :: "effect \<Rightarrow> server \<Rightarrow> server" where
  "emit e s = s\<lparr>effects := effects s @ [e]\<rparr>"

definition init_server :: server where
  "init_server = \<lparr>store = vs_empty, committedReads = Map.empty, rts = Map.empty,
     rts_list = Map.empty, ongoing = Map.empty, ooMessages = Map.empty, ts_to_tx = Map.empty,
     prepared = Map.empty, preparedReads = Map.empty, preparedWrites = Map.empty,
     tablePredicates = Map.empty, tableWrites = Map.empty, highTableVersions = Map.empty, non_monotonic_writes = {},
     committed = Map.empty, aborted = {}, writebackMessages = Map.empty, p1MetaData = Map.empty,
     p2MetaDatas = Map.empty, interestedClients = Map.empty, ElectQuorums = Map.empty,
     dependents = Map.empty, waitingDependencies_new = Map.empty, queryMetaData = Map.empty,
     alreadyDeleted = {}, clientQueryWatermark = Map.empty, subscribedQuery = Map.empty,
     TxnMissingQueries = Map.empty, queryMissingTxns = Map.empty, materialized = {},
     table_encoder = init_enc, effects = []\<rparr>"

section \<open>Lookups\<close>

fun find_prepared_loop ::
  "Timestamp \<Rightarrow> Timestamp option \<Rightarrow> Transaction option \<Rightarrow> (Timestamp, Transaction) omap \<Rightarrow>
   Transaction option" where
  "find_prepared_loop ts c mostRecent [] = mostRecent"
| "find_prepared_loop ts c mostRecent ((t, txn) # m) =
     (if t > ts then mostRecent
      else if (case c of None \<Rightarrow> False | Some t' \<Rightarrow> t \<le> t') then find_prepared_loop ts c mostRecent m
      else if (case mostRecent of None \<Rightarrow> True | Some r \<Rightarrow> t > timestamp r)
      then find_prepared_loop ts c (Some txn) m
      else find_prepared_loop ts c mostRecent m)"

definition FindPreparedVersion ::
  "string \<Rightarrow> Timestamp \<Rightarrow> Timestamp option \<Rightarrow> server \<Rightarrow> Transaction option" where
  "FindPreparedVersion key ts c s =
     (case preparedWrites s key of None \<Rightarrow> None | Some m \<Rightarrow> find_prepared_loop ts c None m)"

text \<open>\<open>myProcessId\<close> is -1 when there is no answer, which is \<open>None\<close> here.\<close>

definition LookupP1Decision :: "string \<Rightarrow> server \<Rightarrow> CCResult option" where
  "LookupP1Decision d s =
     (case p1MetaData s d of
        None \<Rightarrow> None
      | Some c \<Rightarrow> if p1_hasP1 c \<and> p1_result c \<noteq> Some CC_WAIT then p1_result c else None)"

definition LookupP2Decision :: "string \<Rightarrow> server \<Rightarrow> CommitDecision option" where
  "LookupP2Decision d s =
     (case p2MetaDatas s d of
        None \<Rightarrow> None
      | Some p \<Rightarrow> if p2_hasP2 p then p2_p2Decision p else None)"

definition LookupCurrentView :: "string \<Rightarrow> server \<Rightarrow> u64" where
  "LookupCurrentView d s = (case p2MetaDatas s d of None \<Rightarrow> 0 | Some p \<Rightarrow> p2_current_view p)"

section \<open>Read timestamps\<close>

definition SetRTS :: "params \<Rightarrow> Timestamp \<Rightarrow> string \<Rightarrow> server \<Rightarrow> server" where
  "SetRTS pe ts key s =
     (if rtsMode pe = 1 then
        (case rts s key of
           Some r \<Rightarrow> if getTimestamp ts > r then s\<lparr>rts := (rts s)(key \<mapsto> getTimestamp ts)\<rparr> else s
         | None \<Rightarrow> s\<lparr>rts := (rts s)(key \<mapsto> getTimestamp ts)\<rparr>)
      else if rtsMode pe = 2 then
        s\<lparr>rts_list := (rts_list s)(key \<mapsto> om_insert ts () (lookup_list (rts_list s) key))\<rparr>
      else s)"

definition rts_erase :: "Timestamp \<Rightarrow> string \<Rightarrow> server \<Rightarrow> server" where
  "rts_erase ts key s =
     s\<lparr>rts_list := (rts_list s)(key \<mapsto> om_erase ts (lookup_list (rts_list s) key))\<rparr>"

definition ClearRTS :: "params \<Rightarrow> string list \<Rightarrow> Timestamp \<Rightarrow> server \<Rightarrow> server" where
  "ClearRTS pe keys ts s = (if rtsMode pe = 2 then fold (rts_erase ts) keys s else s)"

section \<open>Ongoing transactions\<close>

definition RegisterTxTS :: "params \<Rightarrow> string \<Rightarrow> Transaction \<Rightarrow> server \<Rightarrow> server option" where
  "RegisterTxTS pe d txn s =
     (if \<not> optimisticTxID pe then Some s
      else do {
        m \<leftarrow> MergeTimestampId (getTimestamp (timestamp txn)) (getID (timestamp txn));
        (case ts_to_tx s m of
           Some d' \<Rightarrow> if d' \<noteq> d then None else Some s
         | None \<Rightarrow> Some (s\<lparr>ts_to_tx := (ts_to_tx s)(m \<mapsto> d)\<rparr>))
      })"

definition AddOngoing :: "params \<Rightarrow> string \<Rightarrow> Transaction \<Rightarrow> server \<Rightarrow> server option" where
  "AddOngoing pe d txn s = do {
     s \<leftarrow> RegisterTxTS pe d txn s;
     let n = (case ongoing s d of None \<Rightarrow> 0 | Some o' \<Rightarrow> num_concurrent_clients o');
     Some (s\<lparr>ongoing := (ongoing s)(d \<mapsto> \<lparr>og_txn = txn, num_concurrent_clients = n + 1\<rparr>)\<rparr>)
   }"

text \<open>The panic at the end of the function is reached whenever the transaction was ongoing.\<close>

definition RemoveOngoing :: "string \<Rightarrow> server \<Rightarrow> server option" where
  "RemoveOngoing d s = (case ongoing s d of None \<Rightarrow> Some s | Some _ \<Rightarrow> None)"

section \<open>Clean-up\<close>

definition CheckWaitingQueries ::
  "params \<Rightarrow> string \<Rightarrow> u64 \<Rightarrow> u64 \<Rightarrow> bool \<Rightarrow> nat \<Rightarrow> server \<Rightarrow> server option" where
  "CheckWaitingQueries pe d ts i is_abort tx_ts_mode s =
     (if optimisticTxID pe \<and> tx_ts_mode < 2 then do {
        m \<leftarrow> MergeTimestampId ts i;
        let s1 = (if tx_ts_mode \<noteq> 1 then emit (Job_UpdateWaitingQueries d is_abort) s else s);
        Some (emit (Job_UpdateWaitingQueriesTS m d is_abort) s1)
      }
      else Some (emit (Job_UpdateWaitingQueries d is_abort) s))"

definition clean_query ::
  "params \<Rightarrow> QueryResultMetaData \<Rightarrow> server \<Rightarrow> server option" where
  "clean_query pe q s = do {
     s \<leftarrow> (case queryMetaData s (qmd_query_id q) of
        None \<Rightarrow> Some s
      | Some md \<Rightarrow>
          if qmd_query_id q \<in> alreadyDeleted s then None
          else
            let s1 = s\<lparr>alreadyDeleted := insert (qmd_query_id q) (alreadyDeleted s)\<rparr>;
                rs = (if cacheReadSet pe then Option.bind (qm_result md) qr_query_read_set
                      else Option.bind (map_of (qmd_group_meta q) (of_int (groupIdx pe))) qgm_query_read_set);
                keys = (case rs of None \<Rightarrow> [] | Some r \<Rightarrow> map read_key (rs_read_set r));
                s2 = ClearRTS pe keys (qm_ts md) s1;
                rid = QueryRetryId (blake3 pe) (qmd_query_id q) (qm_retry_version md)
                        (signClientQueries pe \<and> cacheReadSet pe \<and> hashDigest pe)
            in Some (s2\<lparr>queryMissingTxns := (queryMissingTxns s2)(rid := None),
                        queryMetaData := (queryMetaData s2)(qmd_query_id q := None)\<rparr>));
     Some (s\<lparr>subscribedQuery := (subscribedQuery s)(qmd_query_id q := None)\<rparr>)
   }"

fun foldM :: "('a \<Rightarrow> 's \<Rightarrow> 's option) \<Rightarrow> 'a list \<Rightarrow> 's \<Rightarrow> 's option" where
  "foldM f [] s = Some s"
| "foldM f (x # xs) s = (case f x s of None \<Rightarrow> None | Some s' \<Rightarrow> foldM f xs s')"

definition CleanQueries :: "params \<Rightarrow> Transaction \<Rightarrow> server \<Rightarrow> server option" where
  "CleanQueries pe txn s =
     (case last_query_seq txn of
        None \<Rightarrow> Some s
      | Some q \<Rightarrow>
          let w = (case clientQueryWatermark s (client_id txn) of None \<Rightarrow> 0 | Some w \<Rightarrow> w);
              s1 = s\<lparr>clientQueryWatermark := (clientQueryWatermark s)(client_id txn \<mapsto> max w q)\<rparr>
          in foldM (clean_query pe) (query_set txn) s1)"

definition clean_read :: "params \<Rightarrow> string \<Rightarrow> ReadMessage \<Rightarrow> server \<Rightarrow> server" where
  "clean_read pe d r s =
     (if read_is_table_col_version r \<or> \<not> IsKeyOwned pe (read_key r) then s
      else s\<lparr>preparedReads := (preparedReads s)
               (read_key r \<mapsto> om_erase d (lookup_list (preparedReads s) (read_key r)))\<rparr>)"

definition clean_write :: "params \<Rightarrow> Timestamp \<Rightarrow> WriteMessage \<Rightarrow> server \<Rightarrow> server" where
  "clean_write pe ts w s =
     (if write_is_table_col_version w \<or> IsKeyOwned pe (write_key w)
      then s\<lparr>preparedWrites := (preparedWrites s)
               (write_key w \<mapsto> om_erase ts (lookup_list (preparedWrites s) (write_key w)))\<rparr>
      else s)"

definition clean_prepared :: "params \<Rightarrow> string \<Rightarrow> bool \<Rightarrow> server \<Rightarrow> server" where
  "clean_prepared pe d purge s =
     (case prepared s d of
        None \<Rightarrow> s
      | Some (ts, txn) \<Rightarrow>
          let s1 = fold (clean_write pe ts) (write_set txn) (fold (clean_read pe d) (read_set txn) s);
              s2 = s1\<lparr>prepared := (prepared s1)(d := None)\<rparr>
          in if purge then emit (Job_PurgeTableWrites txn ts d) s2 else s2)"

text \<open>
  A hard clean erases the phase-1 record through an accessor that is empty when there is none, which
  the library forbids.
\<close>

definition Clean :: "params \<Rightarrow> string \<Rightarrow> bool \<Rightarrow> bool \<Rightarrow> server \<Rightarrow> server option" where
  "Clean pe d abort hard s =
     (let s1 = (if ongoing s d \<noteq> None
                then s\<lparr>ongoing := (ongoing s)(d := None),
                       aborted := (if hard then insert d (aborted s) else aborted s)\<rparr>
                else s);
          s2 = clean_prepared pe d (abort \<or> hard) s1;
          s3 = s2\<lparr>interestedClients := (interestedClients s2)(d := None),
                  ElectQuorums := (ElectQuorums s2)(d := None)\<rparr>;
          s4 = s3\<lparr>TxnMissingQueries := (TxnMissingQueries s3)(d := None)\<rparr>
      in case p1MetaData s4 d of
           None \<Rightarrow> if hard then None else Some s4
         | Some c \<Rightarrow>
             if hard then Some (s4\<lparr>p1MetaData := (p1MetaData s4)(d := None)\<rparr>)
             else Some (s4\<lparr>p1MetaData := (p1MetaData s4)(d \<mapsto> c\<lparr>p1_signed_txn := None\<rparr>)\<rparr>))"

section \<open>Prepared versions\<close>

definition writes_ok :: "server \<Rightarrow> bool" where
  "writes_ok s \<longleftrightarrow>
     (\<forall>key. om_sorted (lookup_list (preparedWrites s) key) \<and>
            (\<forall>(t, txn) \<in> set (lookup_list (preparedWrites s) key). timestamp txn = t))"

lemma writes_okD:
  assumes "writes_ok s"
  shows "om_sorted (lookup_list (preparedWrites s) key)"
    "(t, txn) \<in> set (lookup_list (preparedWrites s) key) \<Longrightarrow> timestamp txn = t"
  using assms by (auto simp: writes_ok_def)

definition after_committed :: "Timestamp option \<Rightarrow> Timestamp \<Rightarrow> bool" where
  "after_committed c t \<longleftrightarrow> (case c of None \<Rightarrow> True | Some t' \<Rightarrow> t' < t)"

lemma find_prepared_loop_eq:
  assumes "om_sorted m" "\<forall>(t, x) \<in> set m. timestamp x = t"
    "\<forall>x. r = Some x \<longrightarrow> (\<forall>(t, _) \<in> set m. timestamp x < t)"
  shows "find_prepared_loop ts c r m =
     (case filter (\<lambda>(t, _). t \<le> ts \<and> after_committed c t) m of
        [] \<Rightarrow> r | p # ps \<Rightarrow> Some (snd (last (p # ps))))"
  using assms
proof (induction ts c r m rule: find_prepared_loop.induct)
  case (2 ts c r t x m)
  have later: "\<forall>(t', _) \<in> set m. t < t'" using 2(4) by auto
  have tx: "timestamp x = t" using 2(5) by simp
  show ?case
  proof (cases "t > ts")
    case True
    then have "filter (\<lambda>(t, _). t \<le> ts \<and> after_committed c t) m = []"
      using later by (fastforce simp: filter_empty_conv)
    then show ?thesis using True by (auto simp: not_le)
  next
    case le: False
    show ?thesis
    proof (cases "after_committed c t")
      case False
      then show ?thesis using 2 le by (auto simp: after_committed_def split: option.splits)
    next
      case True
      have "find_prepared_loop ts c (Some x) m =
        (case filter (\<lambda>(t, _). t \<le> ts \<and> after_committed c t) m of
           [] \<Rightarrow> Some x | p # ps \<Rightarrow> Some (snd (last (p # ps))))"
        using 2(2) le True 2(4-6) later tx
        by (auto simp: after_committed_def split: option.splits)
      moreover have "find_prepared_loop ts c r ((t, x) # m) = find_prepared_loop ts c (Some x) m"
        using le True 2(6) by (auto simp: after_committed_def split: option.splits)
      ultimately show ?thesis using le True by (auto split: list.splits)
    qed
  qed
qed simp

lemma FindPreparedVersion_pred:
  assumes "writes_ok s"
  shows "FindPreparedVersion key ts c s = map_option snd
    (om_pred_le ts (filter (\<lambda>p. after_committed c (fst p)) (lookup_list (preparedWrites s) key)))"
proof -
  define m where "m = lookup_list (preparedWrites s) key"
  have m: "om_sorted m" "\<forall>(t, x) \<in> set m. timestamp x = t"
    using writes_okD [OF assms] by (auto simp: m_def)
  have eq: "filter (\<lambda>(t, _). t \<le> ts \<and> after_committed c t) m =
    takeWhile (\<lambda>p. fst p \<le> ts) (filter (\<lambda>p. after_committed c (fst p)) m)"
    using m(1) by (simp add: om_takeWhile_filter_le om_sorted_filter case_prod_unfold conj_commute)
  have "FindPreparedVersion key ts c s = find_prepared_loop ts c None m"
    by (simp add: FindPreparedVersion_def m_def lookup_list_def split: option.splits)
  then show ?thesis
    using find_prepared_loop_eq [OF m, of None ts c]
    by (simp add: eq om_pred_le_def m_def [symmetric] split: list.splits)
qed

lemma map_of_filter_key:
  "distinct (map fst m) \<Longrightarrow> map_of (filter (\<lambda>p. P (fst p)) m) k = (if P k then map_of m k else None)"
  by (induction m) (auto simp: image_iff intro: sym)

text \<open>
  C29. A read at \<open>ts\<close> of a key whose latest committed version is \<open>c\<close> sees exactly the prepared write
  with the greatest timestamp after \<open>c\<close> and not after \<open>ts\<close>: the loop returns the transaction of that
  timestamp, and nothing when there is no such write.
\<close>

theorem FindPreparedVersion_greatest:
  assumes "writes_ok s"
  shows "FindPreparedVersion key ts c s = Some txn \<longleftrightarrow>
     map_of (lookup_list (preparedWrites s) key) (timestamp txn) = Some txn \<and>
     timestamp txn \<le> ts \<and> after_committed c (timestamp txn) \<and>
     (\<forall>t \<in> dom (map_of (lookup_list (preparedWrites s) key)).
        t \<le> ts \<longrightarrow> t \<le> timestamp txn)"
proof -
  define m where "m = lookup_list (preparedWrites s) key"
  define g where "g = filter (\<lambda>p. after_committed c (fst p)) m"
  have m: "om_sorted m" "\<And>t x. map_of m t = Some x \<Longrightarrow> timestamp x = t"
    using writes_okD [OF assms] by (auto simp: m_def dest: map_of_SomeD)
  have g: "om_sorted g" "\<And>t. map_of g t = (if after_committed c t then map_of m t else None)"
    using m(1) by (simp_all add: g_def om_sorted_filter om_sorted_distinct map_of_filter_key)
  have F: "FindPreparedVersion key ts c s = map_option snd (om_pred_le ts g)"
    using FindPreparedVersion_pred [OF assms] by (simp add: m_def g_def)
  have "om_pred_le ts g = Some (timestamp txn, txn) \<longleftrightarrow>
      map_of g (timestamp txn) = Some txn \<and> timestamp txn \<le> ts \<and>
      (\<forall>t \<in> dom (map_of g). t \<le> ts \<longrightarrow> t \<le> timestamp txn)"
    using omap.pred_le_lookup [OF g(1)] omap.pred_le_greatest [OF g(1)] omap.pred_le_unique [OF g(1)]
    by blast
  moreover have "(\<forall>t \<in> dom (map_of g). t \<le> ts \<longrightarrow> t \<le> timestamp txn) \<longleftrightarrow>
      (\<forall>t \<in> dom (map_of m). t \<le> ts \<longrightarrow> t \<le> timestamp txn)" if "after_committed c (timestamp txn)"
  proof -
    have "t \<le> timestamp txn" if "\<not> after_committed c t" for t
      using that \<open>after_committed c (timestamp txn)\<close>
      by (cases c) (auto simp: after_committed_def)
    then show ?thesis by (auto simp: g dom_def)
  qed
  moreover have "FindPreparedVersion key ts c s = Some txn \<longleftrightarrow> om_pred_le ts g = Some (timestamp txn, txn)"
  proof -
    have "timestamp x = a" if "om_pred_le ts g = Some (a, x)" for a x
      using omap.pred_le_lookup [OF g(1) that] m(2) by (auto simp: g split: if_splits)
    then show ?thesis using F by auto
  qed
  ultimately show ?thesis by (auto simp: g m_def [symmetric] split: if_splits)
qed

lemma FindPreparedVersion_greatest_witness:
  "let mk = (\<lambda>t. empty_txn\<lparr>timestamp := Timestamp t 1\<rparr>);
       s = init_server\<lparr>preparedWrites := [''x'' \<mapsto> [(Timestamp 3 1, mk 3), (Timestamp 5 1, mk 5),
             (Timestamp 9 1, mk 9)]]\<rparr>
   in writes_ok s \<and> FindPreparedVersion ''x'' (Timestamp 7 0) (Some (Timestamp 4 0)) s = Some (mk 5)"
proof -
  define mk where "mk = (\<lambda>t. empty_txn\<lparr>timestamp := Timestamp t 1\<rparr>)"
  define s where "s = init_server\<lparr>preparedWrites := [''x'' \<mapsto> [(Timestamp 3 1, mk 3),
    (Timestamp 5 1, mk 5), (Timestamp 9 1, mk 9)]]\<rparr>"
  have ok: "writes_ok s"
    by (auto simp: writes_ok_def s_def mk_def lookup_list_def less_Timestamp_def)
  moreover have "FindPreparedVersion ''x'' (Timestamp 7 0) (Some (Timestamp 4 0)) s = Some (mk 5)"
    using FindPreparedVersion_greatest [OF ok, of "''x''" "Timestamp 7 0" "Some (Timestamp 4 0)" "mk 5"]
    by (simp add: s_def mk_def lookup_list_def after_committed_def less_Timestamp_def less_eq_Timestamp_def)
  ultimately show ?thesis by (simp add: s_def mk_def Let_def)
qed

section \<open>What a clean-up removes and what it keeps\<close>

lemma clean_read_frame:
  "fold (clean_read pe d) rs s = s\<lparr>preparedReads := preparedReads (fold (clean_read pe d) rs s)\<rparr>"
proof (induction rs arbitrary: s)
  case (Cons r rs)
  show ?case using Cons [of "clean_read pe d r s"] by (auto simp: clean_read_def)
qed simp

lemma clean_write_frame:
  "fold (clean_write pe ts) ws s = s\<lparr>preparedWrites := preparedWrites (fold (clean_write pe ts) ws s)\<rparr>"
proof (induction ws arbitrary: s)
  case (Cons w ws)
  show ?case using Cons [of "clean_write pe ts w s"] by (auto simp: clean_write_def)
qed simp

lemma clean_read_fields [simp]:
  "store (fold (clean_read pe d) rs s) = store s"
  "committedReads (fold (clean_read pe d) rs s) = committedReads s"
  "rts (fold (clean_read pe d) rs s) = rts s"
  "rts_list (fold (clean_read pe d) rs s) = rts_list s"
  "ongoing (fold (clean_read pe d) rs s) = ongoing s"
  "ooMessages (fold (clean_read pe d) rs s) = ooMessages s"
  "ts_to_tx (fold (clean_read pe d) rs s) = ts_to_tx s"
  "prepared (fold (clean_read pe d) rs s) = prepared s"
  "preparedWrites (fold (clean_read pe d) rs s) = preparedWrites s"
  "tablePredicates (fold (clean_read pe d) rs s) = tablePredicates s"
  "tableWrites (fold (clean_read pe d) rs s) = tableWrites s"
  "highTableVersions (fold (clean_read pe d) rs s) = highTableVersions s"
  "non_monotonic_writes (fold (clean_read pe d) rs s) = non_monotonic_writes s"
  "committed (fold (clean_read pe d) rs s) = committed s"
  "aborted (fold (clean_read pe d) rs s) = aborted s"
  "writebackMessages (fold (clean_read pe d) rs s) = writebackMessages s"
  "p1MetaData (fold (clean_read pe d) rs s) = p1MetaData s"
  "p2MetaDatas (fold (clean_read pe d) rs s) = p2MetaDatas s"
  "interestedClients (fold (clean_read pe d) rs s) = interestedClients s"
  "ElectQuorums (fold (clean_read pe d) rs s) = ElectQuorums s"
  "dependents (fold (clean_read pe d) rs s) = dependents s"
  "waitingDependencies_new (fold (clean_read pe d) rs s) = waitingDependencies_new s"
  "queryMetaData (fold (clean_read pe d) rs s) = queryMetaData s"
  "alreadyDeleted (fold (clean_read pe d) rs s) = alreadyDeleted s"
  "clientQueryWatermark (fold (clean_read pe d) rs s) = clientQueryWatermark s"
  "subscribedQuery (fold (clean_read pe d) rs s) = subscribedQuery s"
  "TxnMissingQueries (fold (clean_read pe d) rs s) = TxnMissingQueries s"
  "queryMissingTxns (fold (clean_read pe d) rs s) = queryMissingTxns s"
  "materialized (fold (clean_read pe d) rs s) = materialized s"
  "table_encoder (fold (clean_read pe d) rs s) = table_encoder s"
  "effects (fold (clean_read pe d) rs s) = effects s"
  by ((subst clean_read_frame, simp)+)

lemma clean_write_fields [simp]:
  "store (fold (clean_write pe ts) ws s) = store s"
  "committedReads (fold (clean_write pe ts) ws s) = committedReads s"
  "rts (fold (clean_write pe ts) ws s) = rts s"
  "rts_list (fold (clean_write pe ts) ws s) = rts_list s"
  "ongoing (fold (clean_write pe ts) ws s) = ongoing s"
  "ooMessages (fold (clean_write pe ts) ws s) = ooMessages s"
  "ts_to_tx (fold (clean_write pe ts) ws s) = ts_to_tx s"
  "prepared (fold (clean_write pe ts) ws s) = prepared s"
  "preparedReads (fold (clean_write pe ts) ws s) = preparedReads s"
  "tablePredicates (fold (clean_write pe ts) ws s) = tablePredicates s"
  "tableWrites (fold (clean_write pe ts) ws s) = tableWrites s"
  "highTableVersions (fold (clean_write pe ts) ws s) = highTableVersions s"
  "non_monotonic_writes (fold (clean_write pe ts) ws s) = non_monotonic_writes s"
  "committed (fold (clean_write pe ts) ws s) = committed s"
  "aborted (fold (clean_write pe ts) ws s) = aborted s"
  "writebackMessages (fold (clean_write pe ts) ws s) = writebackMessages s"
  "p1MetaData (fold (clean_write pe ts) ws s) = p1MetaData s"
  "p2MetaDatas (fold (clean_write pe ts) ws s) = p2MetaDatas s"
  "interestedClients (fold (clean_write pe ts) ws s) = interestedClients s"
  "ElectQuorums (fold (clean_write pe ts) ws s) = ElectQuorums s"
  "dependents (fold (clean_write pe ts) ws s) = dependents s"
  "waitingDependencies_new (fold (clean_write pe ts) ws s) = waitingDependencies_new s"
  "queryMetaData (fold (clean_write pe ts) ws s) = queryMetaData s"
  "alreadyDeleted (fold (clean_write pe ts) ws s) = alreadyDeleted s"
  "clientQueryWatermark (fold (clean_write pe ts) ws s) = clientQueryWatermark s"
  "subscribedQuery (fold (clean_write pe ts) ws s) = subscribedQuery s"
  "TxnMissingQueries (fold (clean_write pe ts) ws s) = TxnMissingQueries s"
  "queryMissingTxns (fold (clean_write pe ts) ws s) = queryMissingTxns s"
  "materialized (fold (clean_write pe ts) ws s) = materialized s"
  "table_encoder (fold (clean_write pe ts) ws s) = table_encoder s"
  "effects (fold (clean_write pe ts) ws s) = effects s"
  by ((subst clean_write_frame, simp)+)

definition cleans_write :: "params \<Rightarrow> Transaction \<Rightarrow> string \<Rightarrow> bool" where
  "cleans_write pe txn k \<longleftrightarrow> (\<exists>w \<in> set (write_set txn). write_key w = k \<and>
     (write_is_table_col_version w \<or> IsKeyOwned pe k))"

definition cleans_read :: "params \<Rightarrow> Transaction \<Rightarrow> string \<Rightarrow> bool" where
  "cleans_read pe txn k \<longleftrightarrow> (\<exists>r \<in> set (read_set txn). read_key r = k \<and>
     \<not> read_is_table_col_version r \<and> IsKeyOwned pe k)"

lemma om_erase_twice [simp]: "om_erase k (om_erase k m) = om_erase k m"
  by (simp add: om_erase_def)

lemma clean_write_lookup:
  "lookup_list (preparedWrites (fold (clean_write pe ts) ws s)) k =
     (if \<exists>w \<in> set ws. write_key w = k \<and> (write_is_table_col_version w \<or> IsKeyOwned pe k)
      then om_erase ts (lookup_list (preparedWrites s) k) else lookup_list (preparedWrites s) k)"
  by (induction ws arbitrary: s) (auto simp: clean_write_def)

lemma clean_read_lookup:
  "lookup_list (preparedReads (fold (clean_read pe d) rs s)) k =
     (if \<exists>r \<in> set rs. read_key r = k \<and> \<not> read_is_table_col_version r \<and> IsKeyOwned pe k
      then om_erase d (lookup_list (preparedReads s) k) else lookup_list (preparedReads s) k)"
  by (induction rs arbitrary: s) (auto simp: clean_read_def)

lemma clean_prepared_fields [simp]:
  "prepared (clean_prepared pe d b s) = (prepared s)(d := None)"
  "store (clean_prepared pe d b s) = store s"
  "committedReads (clean_prepared pe d b s) = committedReads s"
  "rts (clean_prepared pe d b s) = rts s"
  "rts_list (clean_prepared pe d b s) = rts_list s"
  "ongoing (clean_prepared pe d b s) = ongoing s"
  "ooMessages (clean_prepared pe d b s) = ooMessages s"
  "ts_to_tx (clean_prepared pe d b s) = ts_to_tx s"
  "tablePredicates (clean_prepared pe d b s) = tablePredicates s"
  "tableWrites (clean_prepared pe d b s) = tableWrites s"
  "highTableVersions (clean_prepared pe d b s) = highTableVersions s"
  "non_monotonic_writes (clean_prepared pe d b s) = non_monotonic_writes s"
  "committed (clean_prepared pe d b s) = committed s"
  "aborted (clean_prepared pe d b s) = aborted s"
  "writebackMessages (clean_prepared pe d b s) = writebackMessages s"
  "p1MetaData (clean_prepared pe d b s) = p1MetaData s"
  "p2MetaDatas (clean_prepared pe d b s) = p2MetaDatas s"
  "interestedClients (clean_prepared pe d b s) = interestedClients s"
  "ElectQuorums (clean_prepared pe d b s) = ElectQuorums s"
  "dependents (clean_prepared pe d b s) = dependents s"
  "waitingDependencies_new (clean_prepared pe d b s) = waitingDependencies_new s"
  "queryMetaData (clean_prepared pe d b s) = queryMetaData s"
  "alreadyDeleted (clean_prepared pe d b s) = alreadyDeleted s"
  "clientQueryWatermark (clean_prepared pe d b s) = clientQueryWatermark s"
  "subscribedQuery (clean_prepared pe d b s) = subscribedQuery s"
  "TxnMissingQueries (clean_prepared pe d b s) = TxnMissingQueries s"
  "queryMissingTxns (clean_prepared pe d b s) = queryMissingTxns s"
  "materialized (clean_prepared pe d b s) = materialized s"
  "table_encoder (clean_prepared pe d b s) = table_encoder s"
  by (auto simp: clean_prepared_def emit_def Let_def fun_upd_idem split: option.splits)

lemma clean_prepared_writes:
  "lookup_list (preparedWrites (clean_prepared pe d b s)) k =
     (case prepared s d of
        Some (ts, txn) \<Rightarrow> if cleans_write pe txn k then om_erase ts (lookup_list (preparedWrites s) k)
                         else lookup_list (preparedWrites s) k
      | None \<Rightarrow> lookup_list (preparedWrites s) k)"
  by (auto simp: clean_prepared_def emit_def Let_def clean_write_lookup cleans_write_def
      split: option.splits)

lemma clean_prepared_reads:
  "lookup_list (preparedReads (clean_prepared pe d b s)) k =
     (case prepared s d of
        Some (ts, txn) \<Rightarrow> if cleans_read pe txn k then om_erase d (lookup_list (preparedReads s) k)
                         else lookup_list (preparedReads s) k
      | None \<Rightarrow> lookup_list (preparedReads s) k)"
  by (auto simp: clean_prepared_def emit_def Let_def clean_read_lookup cleans_read_def
      split: option.splits)

end
