(* ===== verification/Votes.thy ===== *)
theory Votes
  imports Server_State
begin

text \<open>
  Votes and replies: the phase-1 vote of a replica is buffered once and answered to whoever asked
  (\<open>BufferP1Result\<close> in \<open>servertools.cc\<close>, \<open>SendPhase1Reply\<close> in \<open>server.cc\<close>), finished
  transactions are answered with their writeback, and a stalled dependency is relayed to the
  client that waits for it (\<open>server_fallback.cc\<close>).  The interface \<open>write_once\<close> states what the
  protocol relies on: a value, once given, never changes.
\<close>

section \<open>Replies\<close>

definition abstain_conflict_msg ::
  "params \<Rightarrow> Transaction option \<Rightarrow> server \<Rightarrow> (SignedMessage + Transaction) option" where
  "abstain_conflict_msg pe abstain_conflict s =
     (case abstain_conflict of
        None \<Rightarrow> None
      | Some t \<Rightarrow>
          if signClientProposals pe then
            (case p1MetaData s (case txndigest t of None \<Rightarrow> [] | Some d \<Rightarrow> d) of
               None \<Rightarrow> None
             | Some c \<Rightarrow> map_option Inl (p1_signed_txn c))
          else Some (Inr t))"

definition SetP1 ::
  "params \<Rightarrow> u64 \<Rightarrow> string \<Rightarrow> CCResult \<Rightarrow> CommittedProof option \<Rightarrow> Transaction option \<Rightarrow> server \<Rightarrow>
   Phase1Reply option" where
  "SetP1 pe reqId d result conflict abstain_conflict s =
     (if validateProofs pe \<and> result = CC_ABORT \<and> conflict = None then None
      else Some \<lparr>p1r_req_id = reqId, p1r_ccr = result,
        p1r_txn_digest = (if validateProofs pe then Some d else None),
        p1r_involved_group = (if validateProofs pe then Some (groupIdx pe) else None),
        p1r_committed_conflict = (if validateProofs pe \<and> result = CC_ABORT then conflict else None),
        p1r_abstain_conflict = abstain_conflict_msg pe abstain_conflict s\<rparr>)"

definition SetP2 :: "params \<Rightarrow> u64 \<Rightarrow> string \<Rightarrow> CommitDecision \<Rightarrow> u64 \<Rightarrow> Phase2Reply" where
  "SetP2 pe reqId d decision decision_view =
     \<lparr>p2r_req_id = reqId, p2r_decision = P2_plain
        \<lparr>p2d_decision = decision, p2d_txn_digest = (if validateProofs pe then d else []),
         p2d_involved_group = (if validateProofs pe then of_int (groupIdx pe) else 0),
         p2d_view = Some decision_view\<rparr>\<rparr>"

text \<open>The reply leaves when its signature is there; an abort vote carries a proof instead.\<close>

definition SendPhase1Reply ::
  "params \<Rightarrow> u64 \<Rightarrow> CCResult \<Rightarrow> CommittedProof option \<Rightarrow> string \<Rightarrow> remote \<Rightarrow> Transaction option \<Rightarrow>
   server \<Rightarrow> server option" where
  "SendPhase1Reply pe reqId result conflict d remote abstain_conflict s = do {
     let r = \<lparr>p1r_req_id = reqId, p1r_ccr = result, p1r_txn_digest = None, p1r_involved_group = None,
              p1r_committed_conflict = None,
              p1r_abstain_conflict = abstain_conflict_msg pe abstain_conflict s\<rparr>;
     if validateProofs pe then do {
       let r = r\<lparr>p1r_txn_digest := Some d, p1r_involved_group := Some (groupIdx pe)\<rparr>;
       if result = CC_ABORT then do {
         cf \<leftarrow> conflict;
         Some (emit (Send_Phase1Reply remote (r\<lparr>p1r_committed_conflict := Some cf\<rparr>)) s)
       }
       else Some (emit (Send_Phase1Reply remote r) s)
     }
     else Some (emit (Send_Phase1Reply remote r) s)
   }"

definition commit_writeback :: "string \<Rightarrow> CommittedProof option \<Rightarrow> Writeback option" where
  "commit_writeback d cp = do {
     p \<leftarrow> cp;
     let wb = \<lparr>wb_decision = COMMIT, wb_txn_digest = Some d, wb_txn = None, wb_proof = WB_none, wb_p2_view = None\<rparr>;
     case cp_sigs p of
       P1_sigs g \<Rightarrow> Some (wb\<lparr>wb_proof := WB_p1_sigs g\<rparr>)
     | P2_sigs g \<Rightarrow> Some (wb\<lparr>wb_proof := WB_p2_sigs g,
         wb_p2_view := Some (case cp_p2_view p of None \<Rightarrow> 0 | Some v \<Rightarrow> v)\<rparr>)
     | No_sigs \<Rightarrow> None
   }"

definition wb_reply :: "u64 \<Rightarrow> string \<Rightarrow> Writeback \<Rightarrow> Phase1FBReply" where
  "wb_reply reqId d wb = \<lparr>fbr_req_id = reqId, fbr_txn_digest = d, fbr_wb = Some wb, fbr_p1r = None,
     fbr_p2r = None, fbr_view = None\<rparr>"

definition ForwardWriteback :: "remote \<Rightarrow> u64 \<Rightarrow> string \<Rightarrow> server \<Rightarrow> (bool \<times> server) option" where
  "ForwardWriteback remote reqId d s =
     (case committed s d of
        Some cp \<Rightarrow> do {
          wb \<leftarrow> commit_writeback d cp;
          Some (True, emit (Send_Phase1FBReply remote (wb_reply reqId d wb)) s)
        }
      | None \<Rightarrow>
          (case writebackMessages s d of
             Some wb \<Rightarrow> Some (True, emit (Send_Phase1FBReply remote (wb_reply reqId d wb)) s)
           | None \<Rightarrow> Some (False, s)))"

definition ForwardWritebackMulti ::
  "string \<Rightarrow> (u64 \<times> remote) list \<Rightarrow> server \<Rightarrow> (bool \<times> server) option" where
  "ForwardWritebackMulti d clients s = do {
     wb \<leftarrow> (case committed s d of
              Some cp \<Rightarrow> map_option Some (commit_writeback d cp)
            | None \<Rightarrow> Some (writebackMessages s d));
     case wb of
       None \<Rightarrow> Some (False, s)
     | Some wb \<Rightarrow>
         let s1 = fold (\<lambda>c. emit (Send_Phase1FBReply (snd c) (wb_reply 0 d wb))) clients s
         in Some (True, s1\<lparr>interestedClients := (interestedClients s1)(d := None)\<rparr>)
   }"

text \<open>
  With signatures the reply is sent by the callback of the last component that was signed.  A reply
  that carries a writeback is freed and then used.
\<close>

definition SendPhase1FBReply ::
  "params \<Rightarrow> Phase1FBReply \<Rightarrow> remote list \<Rightarrow> server \<Rightarrow> server option" where
  "SendPhase1FBReply pe r remotes s =
     (if fbr_wb r \<noteq> None then None
      else
        let d = fbr_txn_digest r;
            r' = (if all_to_all_fb pe then r else r\<lparr>fbr_view := Some (LookupCurrentView d s)\<rparr>);
            p1_sig = (case fbr_p1r r of None \<Rightarrow> False | Some p \<Rightarrow> p1r_ccr p \<noteq> CC_ABORT)
        in if signedMessages pe \<and> all_to_all_fb pe \<and> \<not> p1_sig \<and> fbr_p2r r = None then Some s
           else Some (fold (\<lambda>c. emit (Send_Phase1FBReply c r')) remotes s))"

section \<open>Buffering the vote\<close>

definition merge_vote ::
  "CCResult \<Rightarrow> CommittedProof option \<Rightarrow> P1MetaData \<Rightarrow> P1MetaData \<times> CCResult" where
  "merge_vote result conflict c =
     (if \<not> p1_hasP1 c then (c\<lparr>p1_result := Some result, p1_conflict := conflict, p1_hasP1 := True\<rparr>, result)
      else if result \<noteq> CC_WAIT then
        (case p1_result c of
           Some r \<Rightarrow> if r \<noteq> CC_WAIT then (c, r)
                     else (c\<lparr>p1_result := Some result, p1_conflict := conflict\<rparr>, result)
         | None \<Rightarrow> (c, result))
      else (c, result))"

definition subscribe_vote :: "CCResult \<Rightarrow> u64 \<Rightarrow> remote option \<Rightarrow> bool \<Rightarrow> nat \<Rightarrow> P1MetaData \<Rightarrow> P1MetaData" where
  "subscribe_vote result reqId remote isGossip fb c =
     (if \<not> isGossip \<and> result = CC_WAIT then
        (if fb = 0 then c\<lparr>p1_original := remote, p1_reqId := reqId\<rparr>
         else if fb = 1 then c\<lparr>p1_fallbacks_interested := True\<rparr> else c)
      else c)"

record vote_out =
  vo_result :: CCResult
  vo_original :: "(remote \<times> u64) option"
  vo_wake_fallbacks :: bool
  vo_forceMaterialize :: bool

definition finish_vote :: "CCResult \<Rightarrow> bool \<Rightarrow> P1MetaData \<Rightarrow> vote_out \<times> P1MetaData" where
  "finish_vote result forceMat c =
     (let final = (result \<noteq> CC_WAIT);
          c' = (if final then c\<lparr>p1_original := None, p1_fallbacks_interested := False\<rparr> else c)
      in (\<lparr>vo_result = result,
           vo_original = (if final then map_option (\<lambda>r. (r, p1_reqId c)) (p1_original c) else None),
           vo_wake_fallbacks = final \<and> p1_fallbacks_interested c,
           vo_forceMaterialize =
             (if forceMat then \<not> p1_alreadyForceMaterialized c else p1_forceMaterialize c)\<rparr>,
          c'\<lparr>p1_forceMaterialize := False,
             p1_alreadyForceMaterialized := forceMat \<or> p1_alreadyForceMaterialized c\<rparr>))"

definition p1_meta :: "server \<Rightarrow> string \<Rightarrow> P1MetaData" where
  "p1_meta s d = (case p1MetaData s d of None \<Rightarrow> new_P1MetaData | Some c \<Rightarrow> c)"

definition BufferP1Result ::
  "params \<Rightarrow> CCResult \<Rightarrow> CommittedProof option \<Rightarrow> string \<Rightarrow> u64 \<Rightarrow> remote option \<Rightarrow> bool \<Rightarrow> bool \<Rightarrow> nat \<Rightarrow>
   server \<Rightarrow> (vote_out \<times> server) option" where
  "BufferP1Result pe result conflict d reqId remote forceMat isGossip fb s =
     (if result = CC_IGNORE then do {
        s \<leftarrow> Clean pe d True True s;
        Some (\<lparr>vo_result = result, vo_original = None, vo_wake_fallbacks = False,
               vo_forceMaterialize = forceMat\<rparr>, s)
      }
      else
        let (c1, result) = merge_vote result conflict (p1_meta s d);
            (out, c2) = finish_vote result forceMat (subscribe_vote result reqId remote isGossip fb c1)
        in Some (out, s\<lparr>p1MetaData := (p1MetaData s)(d \<mapsto> c2)\<rparr>))"

definition WakeAllInterestedFallbacks ::
  "params \<Rightarrow> string \<Rightarrow> CCResult \<Rightarrow> CommittedProof option \<Rightarrow> server \<Rightarrow> server option" where
  "WakeAllInterestedFallbacks pe d result conflict s =
     (case interestedClients s d of
        None \<Rightarrow> Some s
      | Some clients \<Rightarrow> do {
          (done, s) \<leftarrow> ForwardWritebackMulti d clients s;
          if done then Some s
          else do {
            p1r \<leftarrow> SetP1 pe 0 d result conflict None s;
            let p = (case p2MetaDatas s d of None \<Rightarrow> new_P2MetaData | Some p \<Rightarrow> p);
            let s = s\<lparr>p2MetaDatas := (p2MetaDatas s)(d \<mapsto> p)\<rparr>;
            let p2r = (if p2_hasP2 p
                       then map_option (\<lambda>dec. SetP2 pe 0 d dec (p2_decision_view p)) (p2_p2Decision p)
                       else None);
            SendPhase1FBReply pe \<lparr>fbr_req_id = 0, fbr_txn_digest = d, fbr_wb = None,
              fbr_p1r = Some p1r, fbr_p2r = p2r, fbr_view = None\<rparr> (map snd clients) s
          }
        })"

section \<open>Relaying a dependency\<close>

definition SendRelayP1 :: "params \<Rightarrow> remote \<Rightarrow> string \<Rightarrow> u64 \<Rightarrow> string \<Rightarrow> server \<Rightarrow> server option" where
  "SendRelayP1 pe remote dependency dependent_id dependent s =
     (case ongoing s dependency of
        None \<Rightarrow> Some s
      | Some og \<Rightarrow> do {
          p1 \<leftarrow> (if signClientProposals pe
                  then (case p1MetaData s dependency of
                          None \<Rightarrow> None
                        | Some c \<Rightarrow> map_option Inl (p1_signed_txn c))
                  else Some (Inr (og_txn og)));
          Some (emit (Send_RelayP1 remote \<lparr>relay_dependent_id = dependent_id, relay_p1 = p1,
            relay_replica_id = server_id pe,
            relay_dependent_txn = (if dependent_id = - 1 then Some dependent else None)\<rparr>) s)
        })"

section \<open>What the replies leave alone\<close>

text \<open>Sending only appends effects; waking fallback clients also touches two maps.\<close>

definition sends :: "server \<Rightarrow> server \<Rightarrow> bool" where
  "sends s s' \<longleftrightarrow> s' = s\<lparr>effects := effects s'\<rparr>"

definition wakes :: "server \<Rightarrow> server \<Rightarrow> bool" where
  "wakes s s' \<longleftrightarrow> s' = s\<lparr>interestedClients := interestedClients s', p2MetaDatas := p2MetaDatas s',
     effects := effects s'\<rparr>"

lemma sends_refl [simp]: "sends s s" and sends_emit [simp]: "sends s (emit e s)"
  by (simp_all add: sends_def emit_def)

lemma sendsE:
  assumes "sends s s'"
  obtains e where "s' = s\<lparr>effects := e\<rparr>"
  using that [OF assms [unfolded sends_def]] .

lemma sends_trans: "sends s s' \<Longrightarrow> sends s' s'' \<Longrightarrow> sends s s''"
  by (elim sendsE) (simp add: sends_def)

lemma wakesE:
  assumes "wakes s s'"
  obtains i p e where "s' = s\<lparr>interestedClients := i, p2MetaDatas := p, effects := e\<rparr>"
  using that [OF assms [unfolded wakes_def]] .

lemma sends_fold: "sends s (fold (\<lambda>c. emit (f c)) cs s)"
  by (induction cs arbitrary: s) (auto intro: sends_trans [OF sends_emit])

lemma SendPhase1Reply_sends: "SendPhase1Reply pe q r cf d rem a s = Some s' \<Longrightarrow> sends s s'"
  by (auto simp: SendPhase1Reply_def Let_def bind_eq_Some_conv split: if_splits)

lemma SendRelayP1_sends: "SendRelayP1 pe rem dep i dt s = Some s' \<Longrightarrow> sends s s'"
  by (auto simp: SendRelayP1_def bind_eq_Some_conv split: option.splits)

lemma SendPhase1FBReply_sends: "SendPhase1FBReply pe r rems s = Some s' \<Longrightarrow> sends s s'"
  by (auto simp: SendPhase1FBReply_def Let_def sends_fold split: if_splits)

lemma ForwardWriteback_sends: "ForwardWriteback rem q d s = Some (b, s') \<Longrightarrow> sends s s'"
  by (auto simp: ForwardWriteback_def bind_eq_Some_conv split: option.splits)

lemma ForwardWritebackMulti_wakes:
  assumes "ForwardWritebackMulti d cs s = Some (b, s')"
  shows "wakes s s'"
proof -
  obtain wb where "(case wb of None \<Rightarrow> Some (False, s) | Some wb \<Rightarrow>
      let s1 = fold (\<lambda>c. emit (Send_Phase1FBReply (snd c) (wb_reply 0 d wb))) cs s
      in Some (True, s1\<lparr>interestedClients := (interestedClients s1)(d := None)\<rparr>)) = Some (b, s')"
    using assms unfolding ForwardWritebackMulti_def bind_eq_Some_conv by blast
  moreover obtain e where "fold (\<lambda>c. emit (Send_Phase1FBReply (snd c) (wb_reply 0 d (the wb)))) cs s =
      s\<lparr>effects := e\<rparr>"
    by (rule sendsE [OF sends_fold [of s "\<lambda>c. Send_Phase1FBReply (snd c) (wb_reply 0 d (the wb))" cs]])
  ultimately show ?thesis by (auto simp: wakes_def Let_def split: option.splits)
qed

lemma WakeAllInterestedFallbacks_wakes:
  assumes "WakeAllInterestedFallbacks pe d r cf s = Some s'"
  shows "wakes s s'"
proof (cases "interestedClients s d")
  case None
  then show ?thesis using assms by (simp add: WakeAllInterestedFallbacks_def wakes_def)
next
  case (Some cs)
  then obtain b s1 where f: "ForwardWritebackMulti d cs s = Some (b, s1)"
    using assms by (auto simp: WakeAllInterestedFallbacks_def bind_eq_Some_conv)
  show ?thesis
  proof (cases b)
    case True
    then have "s' = s1" using assms Some f by (simp add: WakeAllInterestedFallbacks_def)
    then show ?thesis using ForwardWritebackMulti_wakes [OF f] by simp
  next
    case False
    then obtain r' p where "SendPhase1FBReply pe r' (map snd cs) (s1\<lparr>p2MetaDatas := p\<rparr>) = Some s'"
      using assms Some f by (auto simp: WakeAllInterestedFallbacks_def bind_eq_Some_conv Let_def)
    then have "sends (s1\<lparr>p2MetaDatas := p\<rparr>) s'" by (rule SendPhase1FBReply_sends)
    then show ?thesis using ForwardWritebackMulti_wakes [OF f]
      by (elim sendsE wakesE) (simp add: wakes_def)
  qed
qed

section \<open>A vote is a write-once register\<close>

locale write_once =
  fixes get :: "'s \<Rightarrow> 'k \<Rightarrow> 'v option" and step :: "'s \<Rightarrow> 's \<Rightarrow> bool"
  assumes keeps: "step s s' \<Longrightarrow> get s k = Some v \<Longrightarrow> get s' k = Some v"
begin

lemma keeps_run: "step\<^sup>*\<^sup>* s s' \<Longrightarrow> get s k = Some v \<Longrightarrow> get s' k = Some v"
  by (induction rule: rtranclp_induct) (auto intro: keeps)

lemma agreement:
  "step\<^sup>*\<^sup>* s s' \<Longrightarrow> step\<^sup>*\<^sup>* s' s'' \<Longrightarrow> get s' k = Some v \<Longrightarrow> get s'' k = Some v' \<Longrightarrow> v = v'"
  using keeps_run by fastforce

end

datatype register = Unset | Waiting | Decided CCResult

definition reg_of :: "P1MetaData \<Rightarrow> register" where
  "reg_of c =
     (if \<not> p1_hasP1 c then Unset
      else (case p1_result c of
              None \<Rightarrow> Unset
            | Some r \<Rightarrow> if r = CC_WAIT then Waiting else Decided r))"

definition vote_reg :: "server \<Rightarrow> string \<Rightarrow> register" where
  "vote_reg s d = reg_of (p1_meta s d)"

fun reg_put :: "CCResult \<Rightarrow> register \<Rightarrow> register" where
  "reg_put r (Decided v) = Decided v"
| "reg_put r _ = (if r = CC_WAIT then Waiting else Decided r)"

definition reg_answer :: "CCResult \<Rightarrow> register \<Rightarrow> CCResult" where
  "reg_answer r g = (if r = CC_WAIT then CC_WAIT else case g of Decided v \<Rightarrow> v | _ \<Rightarrow> r)"

definition p1_ok :: "server \<Rightarrow> bool" where
  "p1_ok s \<longleftrightarrow> (\<forall>d c. p1MetaData s d = Some c \<longrightarrow> p1_hasP1 c \<longrightarrow> p1_result c \<noteq> None)"

lemma p1_okD: "p1_ok s \<Longrightarrow> p1MetaData s d = Some c \<Longrightarrow> p1_hasP1 c \<Longrightarrow> \<exists>r. p1_result c = Some r"
  by (auto simp: p1_ok_def)

lemma LookupP1Decision_reg:
  "LookupP1Decision d s = (case vote_reg s d of Decided v \<Rightarrow> Some v | _ \<Rightarrow> None)"
  by (simp add: LookupP1Decision_def vote_reg_def reg_of_def p1_meta_def new_P1MetaData_def
      split: option.splits)

lemma subscribe_vote_fields [simp]:
  "p1_hasP1 (subscribe_vote r q rem g fb c) = p1_hasP1 c"
  "p1_result (subscribe_vote r q rem g fb c) = p1_result c"
  by (simp_all add: subscribe_vote_def)

lemma finish_vote_fields [simp]:
  "p1_hasP1 (snd (finish_vote r b c)) = p1_hasP1 c"
  "p1_result (snd (finish_vote r b c)) = p1_result c"
  "vo_result (fst (finish_vote r b c)) = r"
  by (simp_all add: finish_vote_def Let_def)

lemma reg_of_cong: "p1_hasP1 c = p1_hasP1 c' \<Longrightarrow> p1_result c = p1_result c' \<Longrightarrow> reg_of c = reg_of c'"
  by (simp add: reg_of_def)

lemma BufferP1Result_cases:
  assumes "result \<noteq> CC_IGNORE" "BufferP1Result pe result cf d q rem fm g fb s = Some (out, s')"
  obtains c where "s' = s\<lparr>p1MetaData := (p1MetaData s)(d \<mapsto> c)\<rparr>"
    "p1_hasP1 c = p1_hasP1 (fst (merge_vote result cf (p1_meta s d)))"
    "p1_result c = p1_result (fst (merge_vote result cf (p1_meta s d)))"
    "vo_result out = snd (merge_vote result cf (p1_meta s d))"
proof -
  define m where "m = merge_vote result cf (p1_meta s d)"
  define x where "x = finish_vote (snd m) fm (subscribe_vote (snd m) q rem g fb (fst m))"
  have "out = fst x" "s' = s\<lparr>p1MetaData := (p1MetaData s)(d \<mapsto> snd x)\<rparr>"
    using assms by (simp_all add: BufferP1Result_def m_def x_def Let_def case_prod_unfold)
  then show ?thesis using that [of "snd x"] by (simp add: x_def m_def)
qed

lemma merge_vote_reg:
  assumes "p1_hasP1 c \<Longrightarrow> p1_result c \<noteq> None"
  shows "p1_hasP1 (fst (merge_vote r cf c)) \<and> p1_result (fst (merge_vote r cf c)) \<noteq> None"
    "snd (merge_vote r cf c) = reg_answer r (reg_of c)"
    "reg_of (fst (merge_vote r cf c)) = reg_put r (reg_of c)"
  using assms by (cases "p1_hasP1 c"; cases "p1_result c"; simp add: merge_vote_def reg_answer_def reg_of_def)+

lemma BufferP1Result_register:
  assumes "p1_ok s" "result \<noteq> CC_IGNORE"
    "BufferP1Result pe result cf d q rem fm g fb s = Some (out, s')"
  shows "vote_reg s' = (vote_reg s)(d := reg_put result (vote_reg s d)) \<and>
    vo_result out = reg_answer result (vote_reg s d) \<and> p1_ok s'"
proof -
  let ?m = "merge_vote result cf (p1_meta s d)"
  obtain c where s': "s' = s\<lparr>p1MetaData := (p1MetaData s)(d \<mapsto> c)\<rparr>"
    and c: "p1_hasP1 c = p1_hasP1 (fst ?m)" "p1_result c = p1_result (fst ?m)" "vo_result out = snd ?m"
    using BufferP1Result_cases [OF assms(2,3)] .
  have ok: "p1_hasP1 (p1_meta s d) \<Longrightarrow> p1_result (p1_meta s d) \<noteq> None"
    using p1_okD [OF assms(1), of d] by (auto simp: p1_meta_def new_P1MetaData_def split: option.splits)
  note mv = merge_vote_reg [OF ok, of result cf]
  have "vote_reg s' d' = ((vote_reg s)(d := reg_put result (vote_reg s d))) d'" for d'
    using mv(3) reg_of_cong [OF c(1,2)] by (simp add: vote_reg_def p1_meta_def s')
  moreover have "p1_ok s'" using assms(1) mv(1) by (auto simp: p1_ok_def s' c)
  ultimately show ?thesis using mv(2) by (auto simp: c vote_reg_def)
qed

text \<open>
  C31. Buffering a vote refines a write-once register per transaction: the register of the
  transaction takes the vote unless it is decided already, every other register keeps its value, and
  the vote handed back to the caller is the answer of the register.
\<close>

theorem BufferP1Result_refines:
  assumes "p1_ok s" "result \<noteq> CC_IGNORE"
    "BufferP1Result pe result cf d q rem fm g fb s = Some (out, s')"
  shows "vote_reg s' = (vote_reg s)(d := reg_put result (vote_reg s d)) \<and>
    vo_result out = reg_answer result (vote_reg s d) \<and> p1_ok s'"
  using BufferP1Result_register [OF assms] .

lemma BufferP1Result_refines_witness:
  "\<exists>out s'. BufferP1Result kv_params CC_COMMIT None ''t'' 7 None False False 2
       (init_server\<lparr>p1MetaData := [''t'' \<mapsto> new_P1MetaData\<lparr>p1_hasP1 := True, p1_result := Some CC_WAIT\<rparr>]\<rparr>) =
       Some (out, s') \<and> vote_reg s' ''t'' = Decided CC_COMMIT \<and> vo_result out = CC_COMMIT"
proof -
  let ?s = "init_server\<lparr>p1MetaData := [''t'' \<mapsto> new_P1MetaData\<lparr>p1_hasP1 := True, p1_result := Some CC_WAIT\<rparr>]\<rparr>"
  have ok: "p1_ok ?s" by (simp add: p1_ok_def)
  obtain out s' where b: "BufferP1Result kv_params CC_COMMIT None ''t'' 7 None False False 2 ?s = Some (out, s')"
    by (simp add: BufferP1Result_def case_prod_unfold Let_def)
  have "vote_reg ?s ''t'' = Waiting" by (simp add: vote_reg_def reg_of_def p1_meta_def)
  then show ?thesis
    using b BufferP1Result_refines [OF ok _ b] by (auto simp: reg_answer_def)
qed

inductive vote_step :: "params \<Rightarrow> server \<Rightarrow> server \<Rightarrow> bool" for pe where
  "result \<noteq> CC_IGNORE \<Longrightarrow> BufferP1Result pe result cf d q rem fm g fb s = Some (out, s') \<Longrightarrow>
   vote_step pe s s'"

interpretation vote: write_once "\<lambda>s d. LookupP1Decision d s" "vote_step pe" for pe
proof
  fix s s' d v assume "vote_step pe s s'" "LookupP1Decision d s = Some v"
  then show "LookupP1Decision d s' = Some v"
  proof cases
    case (1 result cf d' q rem fm g fb out)
    obtain c where s': "s' = s\<lparr>p1MetaData := (p1MetaData s)(d' \<mapsto> c)\<rparr>"
      "p1_hasP1 c = p1_hasP1 (fst (merge_vote result cf (p1_meta s d')))"
      "p1_result c = p1_result (fst (merge_vote result cf (p1_meta s d')))"
      using BufferP1Result_cases [OF 1] .
    then show ?thesis using \<open>LookupP1Decision d s = Some v\<close>
      by (cases "p1MetaData s d'"; cases "d' = d")
        (auto simp: LookupP1Decision_def merge_vote_def p1_meta_def split: if_splits option.splits)
  qed
qed



text \<open>
  A client that waits for a vote is answered exactly once: the first vote other than \<open>WAIT\<close> hands its
  address and request to the caller for the reply, and the record no longer names it.
\<close>

theorem BufferP1Result_answers_once:
  assumes "result \<noteq> CC_IGNORE" "result \<noteq> CC_WAIT"
    "BufferP1Result pe result cf d q rem fm g fb s = Some (out, s')"
  shows "vo_original out = map_option (\<lambda>r. (r, p1_reqId (p1_meta s d))) (p1_original (p1_meta s d)) \<and>
    p1_original (p1_meta s' d) = None"
proof -
  define m where "m = merge_vote result cf (p1_meta s d)"
  define x where "x = finish_vote (snd m) fm (fst m)"
  have keep: "p1_original (fst m) = p1_original (p1_meta s d)" "p1_reqId (fst m) = p1_reqId (p1_meta s d)"
    by (simp_all add: m_def merge_vote_def split: option.splits)
  have final: "snd m \<noteq> CC_WAIT"
    using assms(2) by (auto simp: m_def merge_vote_def split: option.splits)
  then have sub: "subscribe_vote (snd m) q rem g fb (fst m) = fst m" by (simp add: subscribe_vote_def)
  have "out = fst x" "s' = s\<lparr>p1MetaData := (p1MetaData s)(d \<mapsto> snd x)\<rparr>"
    using assms sub by (simp_all add: BufferP1Result_def m_def x_def Let_def case_prod_unfold)
  then show ?thesis using final keep by (simp add: x_def finish_vote_def p1_meta_def Let_def)
qed

lemma BufferP1Result_answers_once_witness:
  "\<exists>out s'. BufferP1Result kv_params CC_ABSTAIN None ''t'' 7 None False False 2
      (init_server\<lparr>p1MetaData := [''t'' \<mapsto> new_P1MetaData\<lparr>p1_hasP1 := True, p1_result := Some CC_WAIT,
         p1_original := Some ''client'', p1_reqId := 4\<rparr>]\<rparr>) = Some (out, s') \<and>
     vo_original out = Some (''client'', 4) \<and> p1_original (p1_meta s' ''t'') = None"
proof -
  let ?s = "init_server\<lparr>p1MetaData := [''t'' \<mapsto> new_P1MetaData\<lparr>p1_hasP1 := True, p1_result := Some CC_WAIT,
         p1_original := Some ''client'', p1_reqId := 4\<rparr>]\<rparr>"
  obtain out s' where b: "BufferP1Result kv_params CC_ABSTAIN None ''t'' 7 None False False 2 ?s = Some (out, s')"
    by (simp add: BufferP1Result_def case_prod_unfold Let_def)
  have "p1_meta ?s ''t'' = new_P1MetaData\<lparr>p1_hasP1 := True, p1_result := Some CC_WAIT,
      p1_original := Some ''client'', p1_reqId := 4\<rparr>" by (simp add: p1_meta_def)
  then show ?thesis using b BufferP1Result_answers_once [OF _ _ b] by auto
qed


end
