(* ===== verification/Dependencies.thy ===== *)
theory Dependencies
  imports Votes "HOL-Library.Multiset"
begin

text \<open>
  Dependencies between transactions (\<open>store/pequinstore/concurrencycontrol.cc\<close>).  A transaction that
  read a prepared write waits until the writer has finished: \<open>waitingDependencies_new\<close> lists what it
  waits for, \<open>dependents\<close> the transactions that wait for a writer.  The order in which an
  \<open>unordered_set\<close> is visited is that of insertion.
\<close>

section \<open>Operations\<close>

definition dep_id :: "Dependency \<Rightarrow> string" where
  "dep_id dep = (case w_prepared_txn_digest (dep_write dep) of None \<Rightarrow> [] | Some d \<Rightarrow> d)"

definition local_deps :: "params \<Rightarrow> Dependency list \<Rightarrow> Dependency list" where
  "local_deps pe ds = filter (\<lambda>dep. dep_involved_group dep = groupIdx pe) ds"

definition finished :: "server \<Rightarrow> string \<Rightarrow> bool" where
  "finished s d \<longleftrightarrow> committed s d \<noteq> None \<or> d \<in> aborted s"

definition CheckTxLocalPresence :: "string \<Rightarrow> server \<Rightarrow> CCResult" where
  "CheckTxLocalPresence d s =
     (if d \<in> aborted s then CC_ABSTAIN
      else if committed s d = None \<and> prepared s d = None then CC_ABSTAIN
      else CC_COMMIT)"

fun presence_loop :: "server \<Rightarrow> Dependency list \<Rightarrow> CCResult" where
  "presence_loop s [] = CC_COMMIT"
| "presence_loop s (dep # ds) =
     (let res = CheckTxLocalPresence (dep_id dep) s
      in if res \<noteq> CC_COMMIT then res else presence_loop s ds)"

definition CheckDepLocalPresence :: "params \<Rightarrow> Dependency list \<Rightarrow> server \<Rightarrow> CCResult" where
  "CheckDepLocalPresence pe ds s = presence_loop s (local_deps pe ds)"

definition RegisterWaitingTxn ::
  "params \<Rightarrow> string \<Rightarrow> string \<Rightarrow> remote \<Rightarrow> u64 \<Rightarrow> bool \<Rightarrow> bool \<Rightarrow> bool \<Rightarrow> string list \<times> server \<Rightarrow>
   (string list \<times> server) option" where
  "RegisterWaitingTxn pe dep d remote reqId fallback_flow isGossip new_waiting_dep = (\<lambda>(missing_deps, s).
     if \<not> finished s dep then do {
       let s = (if new_waiting_dep
                then s\<lparr>dependents := (dependents s)(dep \<mapsto> List.insert d (lookup_list (dependents s) dep))\<rparr>
                else s);
       s \<leftarrow> (if \<not> no_fallback pe \<and> \<not> isGossip
              then SendRelayP1 pe remote dep (if fallback_flow then - 1 else reqId) d s else Some s);
       Some (missing_deps @ [dep], s)
     }
     else Some (missing_deps, s))"

text \<open>The missing dependencies are only copied into an entry that is new.\<close>

definition waiting_entry :: "bool \<Rightarrow> u64 \<Rightarrow> string list \<Rightarrow> WaitingDependency option \<Rightarrow> WaitingDependency" where
  "waiting_entry set_req reqId missing_deps w =
     (case w of
        None \<Rightarrow> \<lparr>wd_original_client = False, wd_reqId = (if set_req then reqId else 0), wd_remote = None,
                 wd_deps = fold List.insert missing_deps []\<rparr>
      | Some f \<Rightarrow> (if set_req then f\<lparr>wd_reqId := reqId\<rparr> else f))"

definition manage_deps ::
  "params \<Rightarrow> Dependency list \<Rightarrow> string \<Rightarrow> remote \<Rightarrow> u64 \<Rightarrow> bool \<Rightarrow> bool \<Rightarrow> server \<Rightarrow> (bool \<times> server) option" where
  "manage_deps pe ds d remote reqId fallback_flow isGossip s =
     (if maxDepDepth pe > -2 then do {
        (missing_deps, s1) \<leftarrow> foldM
           (\<lambda>dep. RegisterWaitingTxn pe (dep_id dep) d remote reqId fallback_flow isGossip
              (waitingDependencies_new s d = None))
           (local_deps pe ds) ([], s);
        if missing_deps \<noteq> [] then
          Some (False, s1\<lparr>waitingDependencies_new := (waitingDependencies_new s1)
            (d \<mapsto> waiting_entry (\<not> fallback_flow \<and> \<not> isGossip) reqId missing_deps
               (waitingDependencies_new s1 d))\<rparr>)
        else Some (True, s1)
      }
      else Some (True, s))"

definition txn_deps :: "Transaction \<Rightarrow> Dependency list" where
  "txn_deps txn = (case merged_read_set txn of None \<Rightarrow> deps txn | Some m \<Rightarrow> rs_deps m)"

definition ManageDependencies ::
  "params \<Rightarrow> string \<Rightarrow> Transaction \<Rightarrow> remote \<Rightarrow> u64 \<Rightarrow> bool \<Rightarrow> bool \<Rightarrow> server \<Rightarrow> (bool \<times> server) option" where
  "ManageDependencies pe d txn remote reqId fallback_flow isGossip s =
     manage_deps pe (txn_deps txn) d remote reqId fallback_flow isGossip s"

fun check_deps_loop :: "server \<Rightarrow> Timestamp \<Rightarrow> Dependency list \<Rightarrow> CCResult" where
  "check_deps_loop s ts [] = CC_COMMIT"
| "check_deps_loop s ts (dep # ds) =
     (if committed s (dep_id dep) \<noteq> None then
        (if (case w_prepared_timestamp (dep_write dep) of None \<Rightarrow> ts_zero | Some t \<Rightarrow> t) > ts
         then CC_ABSTAIN else check_deps_loop s ts ds)
      else CC_ABSTAIN)"

definition CheckDependencies_txn :: "params \<Rightarrow> Transaction \<Rightarrow> server \<Rightarrow> CCResult" where
  "CheckDependencies_txn pe txn s = check_deps_loop s (timestamp txn) (local_deps pe (txn_deps txn))"

definition CheckDependencies :: "params \<Rightarrow> string \<Rightarrow> server \<Rightarrow> CCResult option" where
  "CheckDependencies pe d s =
     (case ongoing s d of
        None \<Rightarrow>
          if committed s d \<noteq> None then Some CC_COMMIT
          else if d \<in> aborted s then Some CC_ABSTAIN
          else None
      | Some og \<Rightarrow> Some (CheckDependencies_txn pe (og_txn og) s))"

text \<open>The answer to a transaction whose last dependency has finished.\<close>

definition answer_dependent :: "params \<Rightarrow> string \<Rightarrow> server \<Rightarrow> server option" where
  "answer_dependent pe t s = do {
     result \<leftarrow> CheckDependencies pe t s;
     if result = CC_ABORT then None
     else do {
       (out, s) \<leftarrow> BufferP1Result pe result None t 0 None False False 2 s;
       s \<leftarrow> (case vo_original out of
               None \<Rightarrow> Some s
             | Some (remote, q) \<Rightarrow> SendPhase1Reply pe q (vo_result out) None t remote None s);
       s \<leftarrow> WakeAllInterestedFallbacks pe t (vo_result out) None s;
       Some (s\<lparr>waitingDependencies_new := (waitingDependencies_new s)(t := None)\<rparr>)
     }
   }"

definition wake_dependent :: "params \<Rightarrow> string \<Rightarrow> string \<Rightarrow> server \<Rightarrow> server option" where
  "wake_dependent pe d t s =
     (case waitingDependencies_new s t of
        None \<Rightarrow> Some s
      | Some f \<Rightarrow>
          (let f' = f\<lparr>wd_deps := removeAll d (wd_deps f)\<rparr>;
               s' = s\<lparr>waitingDependencies_new := (waitingDependencies_new s)(t \<mapsto> f')\<rparr>
           in if wd_deps f' = [] then answer_dependent pe t s' else Some s'))"

definition CheckDependents :: "params \<Rightarrow> string \<Rightarrow> server \<Rightarrow> server option" where
  "CheckDependents pe d s =
     (case dependents s d of
        None \<Rightarrow> Some s
      | Some ds \<Rightarrow> do {
          s \<leftarrow> foldM (wake_dependent pe d) ds s;
          Some (s\<lparr>dependents := (dependents s)(d := None)\<rparr>)
        })"

definition CleanDependencies :: "string \<Rightarrow> server \<Rightarrow> server" where
  "CleanDependencies d s = s\<lparr>waitingDependencies_new := (waitingDependencies_new s)(d := None)\<rparr>"

text \<open>The breadth-first search need not end when dependencies are cyclic, which is \<open>None\<close>.\<close>

definition ongoing_deps :: "server \<Rightarrow> Transaction \<Rightarrow> Transaction list" where
  "ongoing_deps s txn = List.map_filter (\<lambda>dep. map_option og_txn (ongoing s (dep_id dep))) (deps txn)"

partial_function (option) depth_bfs :: "server \<Rightarrow> (Transaction \<times> nat) list \<Rightarrow> nat \<Rightarrow> nat option" where
  "depth_bfs s q maxDepth =
     (case q of
        [] \<Rightarrow> Some maxDepth
      | c # q' \<Rightarrow> depth_bfs s (q' @ map (\<lambda>t. (t, snd c + 1)) (ongoing_deps s (fst c))) (max maxDepth (snd c)))"

definition DependencyDepth :: "Transaction \<Rightarrow> server \<Rightarrow> nat option" where
  "DependencyDepth txn s = depth_bfs s [(txn, 0)] 0"

definition DependencyDepth_id :: "string \<Rightarrow> server \<Rightarrow> nat option" where
  "DependencyDepth_id d s =
     (case ongoing s d of None \<Rightarrow> None | Some og \<Rightarrow> DependencyDepth (og_txn og) s)"

section \<open>Waking a dependent\<close>

definition dep_frame :: "server \<Rightarrow> server \<Rightarrow> bool" where
  "dep_frame s s' \<longleftrightarrow> s' = s\<lparr>p1MetaData := p1MetaData s', p2MetaDatas := p2MetaDatas s',
     interestedClients := interestedClients s', waitingDependencies_new := waitingDependencies_new s',
     effects := effects s'\<rparr>"

lemma dep_frameI: "s' = s\<lparr>p1MetaData := p1, p2MetaDatas := p2, interestedClients := i,
    waitingDependencies_new := w, effects := e\<rparr> \<Longrightarrow> dep_frame s s'"
  by (simp add: dep_frame_def)

lemma dep_frameE:
  assumes "dep_frame s s'"
  obtains p1 p2 i w e where "s' = s\<lparr>p1MetaData := p1, p2MetaDatas := p2, interestedClients := i,
    waitingDependencies_new := w, effects := e\<rparr>"
  using that [OF assms [unfolded dep_frame_def]] .

lemma dep_frame_refl [simp]: "dep_frame s s"
  by (simp add: dep_frame_def)

lemma dep_frame_trans: "dep_frame s s' \<Longrightarrow> dep_frame s' s'' \<Longrightarrow> dep_frame s s''"
  by (elim dep_frameE) (simp add: dep_frame_def)

lemma dep_frame_fields:
  assumes "dep_frame s s'"
  shows "dependents s' = dependents s" "committed s' = committed s" "aborted s' = aborted s"
    "ongoing s' = ongoing s" "prepared s' = prepared s" "writebackMessages s' = writebackMessages s"
    "store s' = store s" "preparedReads s' = preparedReads s" "preparedWrites s' = preparedWrites s"
    "committedReads s' = committedReads s" "rts s' = rts s" "rts_list s' = rts_list s"
    "tableWrites s' = tableWrites s" "tablePredicates s' = tablePredicates s"
    "TxnMissingQueries s' = TxnMissingQueries s" "finished s' x = finished s x"
  by (rule dep_frameE [OF assms], simp add: finished_def)+

lemma check_deps_loop_result: "check_deps_loop s ts ds \<in> {CC_COMMIT, CC_ABSTAIN}"
  by (induction s ts ds rule: check_deps_loop.induct) auto

lemma CheckDependencies_result:
  "CheckDependencies pe d s = Some r \<Longrightarrow> r = CC_COMMIT \<or> r = CC_ABSTAIN"
  using check_deps_loop_result by (auto simp: CheckDependencies_def CheckDependencies_txn_def
      split: option.splits if_splits)

definition woken :: "string \<Rightarrow> WaitingDependency \<Rightarrow> WaitingDependency option" where
  "woken d f = (if removeAll d (wd_deps f) = [] then None else Some (f\<lparr>wd_deps := removeAll d (wd_deps f)\<rparr>))"

lemma vote_reg_sends: "sends s s' \<Longrightarrow> vote_reg s' = vote_reg s"
  by (elim sendsE) (simp add: vote_reg_def p1_meta_def fun_eq_iff)

lemma vote_reg_wakes: "wakes s s' \<Longrightarrow> vote_reg s' = vote_reg s"
  by (elim wakesE) (simp add: vote_reg_def p1_meta_def fun_eq_iff)

lemma answer_dependent_dep_frame:
  assumes "answer_dependent pe t s = Some s'"
  shows "dep_frame s s'"
proof -
  obtain r out s1 s2 s3 where r: "CheckDependencies pe t s = Some r"
    and b: "BufferP1Result pe r None t 0 None False False 2 s = Some (out, s1)"
    and p: "(case vo_original out of None \<Rightarrow> Some s1
        | Some (remote, q) \<Rightarrow> SendPhase1Reply pe q (vo_result out) None t remote None s1) = Some s2"
    and w: "WakeAllInterestedFallbacks pe t (vo_result out) None s2 = Some s3"
    and s': "s' = s3\<lparr>waitingDependencies_new := (waitingDependencies_new s3)(t := None)\<rparr>"
    using assms unfolding answer_dependent_def
    by (simp add: bind_eq_Some_conv split: if_splits) blast
  have "r \<noteq> CC_IGNORE" using CheckDependencies_result [OF r] by auto
  then obtain c where s1: "s1 = s\<lparr>p1MetaData := (p1MetaData s)(t \<mapsto> c)\<rparr>"
    using BufferP1Result_cases [OF _ b] by metis
  have "sends s1 s2" using p by (auto split: option.splits dest: SendPhase1Reply_sends)
  then show ?thesis using WakeAllInterestedFallbacks_wakes [OF w]
    by (elim sendsE wakesE) (simp add: s' s1 dep_frame_def)
qed

lemma wake_dependent_dep_frame:
  assumes "wake_dependent pe d t s = Some s'"
  shows "dep_frame s s'"
proof (cases "waitingDependencies_new s t")
  case (Some f)
  let ?s = "s\<lparr>waitingDependencies_new := (waitingDependencies_new s)(t \<mapsto> f\<lparr>wd_deps := removeAll d (wd_deps f)\<rparr>)\<rparr>"
  have "dep_frame s ?s" by (simp add: dep_frame_def)
  then show ?thesis using assms Some answer_dependent_dep_frame dep_frame_trans
    by (auto simp: wake_dependent_def Let_def split: if_splits)
qed (use assms in \<open>simp add: wake_dependent_def\<close>)

lemma CheckDependents_dep_frame:
  assumes "CheckDependents pe d s = Some s'"
  shows "dep_frame (s\<lparr>dependents := (dependents s)(d := None)\<rparr>) s'"
proof (cases "dependents s d")
  case None
  then have "s' = s" using assms by (simp add: CheckDependents_def)
  then show ?thesis using None by (simp add: fun_upd_idem)
next
  case (Some ts)
  have run: "dep_frame s s1" if "foldM (wake_dependent pe d) ts s = Some s1" for s s1 ts
    using that
  proof (induction ts arbitrary: s)
    case (Cons t ts)
    then obtain s2 where "wake_dependent pe d t s = Some s2" "foldM (wake_dependent pe d) ts s2 = Some s1"
      by (auto split: option.splits)
    then show ?case using wake_dependent_dep_frame Cons.IH dep_frame_trans by blast
  qed simp
  from Some assms obtain s1 where "foldM (wake_dependent pe d) ts s = Some s1"
    and s': "s' = s1\<lparr>dependents := (dependents s1)(d := None)\<rparr>"
    by (auto simp: CheckDependents_def bind_eq_Some_conv)
  from run [OF this(1)] show ?thesis by (elim dep_frameE) (simp add: s' dep_frame_def)
qed

lemma answer_dependent_frame:
  assumes "answer_dependent pe t s = Some s'" "p1_ok s"
  shows "dep_frame s s'" "waitingDependencies_new s' = (waitingDependencies_new s)(t := None)" "p1_ok s'"
    "\<exists>v. vote_reg s' t = Decided v" "\<forall>t'. t' \<noteq> t \<longrightarrow> vote_reg s' t' = vote_reg s t'"
proof -
  obtain r out s1 s2 s3 where r: "CheckDependencies pe t s = Some r"
    and b: "BufferP1Result pe r None t 0 None False False 2 s = Some (out, s1)"
    and p: "(case vo_original out of None \<Rightarrow> Some s1
        | Some (remote, q) \<Rightarrow> SendPhase1Reply pe q (vo_result out) None t remote None s1) = Some s2"
    and w: "WakeAllInterestedFallbacks pe t (vo_result out) None s2 = Some s3"
    and s': "s' = s3\<lparr>waitingDependencies_new := (waitingDependencies_new s3)(t := None)\<rparr>"
    using assms(1) unfolding answer_dependent_def
    by (simp add: bind_eq_Some_conv split: if_splits) blast
  have ign: "r \<noteq> CC_IGNORE" "r \<noteq> CC_WAIT" using CheckDependencies_result [OF r] by auto
  obtain c where s1: "s1 = s\<lparr>p1MetaData := (p1MetaData s)(t \<mapsto> c)\<rparr>"
    using BufferP1Result_cases [OF ign(1) b] by metis
  have s12: "sends s1 s2" using p by (auto split: option.splits dest: SendPhase1Reply_sends)
  have s23: "wakes s2 s3" using WakeAllInterestedFallbacks_wakes [OF w] .
  note ref = BufferP1Result_register [OF assms(2) ign(1) b]
  obtain e e' i p2 where s3: "s3 = s1\<lparr>interestedClients := i, p2MetaDatas := p2, effects := e'\<rparr>"
    using s12 s23 by (elim sendsE wakesE) simp
  show "dep_frame s s'" by (simp add: s' s3 s1 dep_frame_def)
  show "waitingDependencies_new s' = (waitingDependencies_new s)(t := None)" by (simp add: s' s3 s1)
  have v: "vote_reg s' = vote_reg s1" by (simp add: s' s3 vote_reg_def p1_meta_def fun_eq_iff)
  show "p1_ok s'" using ref by (simp add: s' s3 p1_ok_def)
  show "\<exists>v. vote_reg s' t = Decided v" using ref ign v by (cases "vote_reg s t") auto
  show "\<forall>t'. t' \<noteq> t \<longrightarrow> vote_reg s' t' = vote_reg s t'" using ref v by simp
qed

lemma vote_reg_waiting [simp]:
  "vote_reg (s\<lparr>waitingDependencies_new := w\<rparr>) = vote_reg s"
  "p1_ok (s\<lparr>waitingDependencies_new := w\<rparr>) = p1_ok s"
  by (simp_all add: vote_reg_def p1_meta_def p1_ok_def fun_eq_iff)

lemma wake_dependent_frame:
  assumes "wake_dependent pe d t s = Some s'" "p1_ok s"
  shows "dep_frame s s'" "p1_ok s'"
    "waitingDependencies_new s' =
       (waitingDependencies_new s)(t := Option.bind (waitingDependencies_new s t) (woken d))"
    "t' \<noteq> t \<or> waitingDependencies_new s t = None \<Longrightarrow> vote_reg s' t' = vote_reg s t'"
    "waitingDependencies_new s t = Some f \<Longrightarrow> woken d f = None \<Longrightarrow> \<exists>v. vote_reg s' t = Decided v"
proof -
  consider (none) "waitingDependencies_new s t = None" "s' = s"
    | (some) g where "waitingDependencies_new s t = Some g" "removeAll d (wd_deps g) \<noteq> []"
        "s' = s\<lparr>waitingDependencies_new := (waitingDependencies_new s)(t \<mapsto> g\<lparr>wd_deps := removeAll d (wd_deps g)\<rparr>)\<rparr>"
    | (last) g where "waitingDependencies_new s t = Some g" "removeAll d (wd_deps g) = []"
        "answer_dependent pe t (s\<lparr>waitingDependencies_new :=
           (waitingDependencies_new s)(t \<mapsto> g\<lparr>wd_deps := removeAll d (wd_deps g)\<rparr>)\<rparr>) = Some s'"
    using assms(1) by (simp add: wake_dependent_def Let_def split: option.splits if_splits)
  then have "dep_frame s s' \<and> p1_ok s' \<and> waitingDependencies_new s' =
      (waitingDependencies_new s)(t := Option.bind (waitingDependencies_new s t) (woken d)) \<and>
    (\<forall>t'. t' \<noteq> t \<or> waitingDependencies_new s t = None \<longrightarrow> vote_reg s' t' = vote_reg s t') \<and>
    (\<forall>f. waitingDependencies_new s t = Some f \<longrightarrow> woken d f = None \<longrightarrow> (\<exists>v. vote_reg s' t = Decided v))"
  proof cases
    case none
    then show ?thesis using assms(2) by (simp add: fun_upd_idem)
  next
    case (some g)
    then show ?thesis using assms(2) by (simp add: woken_def dep_frame_def)
  next
    case (last g)
    let ?s = "s\<lparr>waitingDependencies_new :=
           (waitingDependencies_new s)(t \<mapsto> g\<lparr>wd_deps := removeAll d (wd_deps g)\<rparr>)\<rparr>"
    have ok: "p1_ok ?s" using assms(2) by simp
    note a = answer_dependent_frame [OF last(3) ok]
    have "dep_frame s ?s" by (simp add: dep_frame_def)
    then have "dep_frame s s'" using a(1) dep_frame_trans by blast
    then show ?thesis using a(2-5) last(1,2) by (simp add: woken_def)
  qed
  then show "dep_frame s s'" "p1_ok s'"
    "waitingDependencies_new s' =
       (waitingDependencies_new s)(t := Option.bind (waitingDependencies_new s t) (woken d))"
    "t' \<noteq> t \<or> waitingDependencies_new s t = None \<Longrightarrow> vote_reg s' t' = vote_reg s t'"
    "waitingDependencies_new s t = Some f \<Longrightarrow> woken d f = None \<Longrightarrow> \<exists>v. vote_reg s' t = Decided v"
    by blast+
qed

lemma woken_idem [simp]: "Option.bind (woken d f) (woken d) = woken d f"
  by (simp add: woken_def)

lemma wake_all_frame:
  assumes "foldM (wake_dependent pe d) ts s = Some s'" "p1_ok s"
  shows "dep_frame s s' \<and> p1_ok s' \<and>
    (\<forall>t. waitingDependencies_new s' t =
       (if t \<in> set ts then Option.bind (waitingDependencies_new s t) (woken d) else waitingDependencies_new s t)) \<and>
    (\<forall>t. t \<notin> set ts \<or> waitingDependencies_new s t = None \<longrightarrow> vote_reg s' t = vote_reg s t) \<and>
    (\<forall>t f. t \<in> set ts \<longrightarrow> waitingDependencies_new s t = Some f \<longrightarrow> woken d f = None \<longrightarrow>
       (\<exists>v. vote_reg s' t = Decided v))"
  using assms
proof (induction ts arbitrary: s)
  case (Cons t ts)
  then obtain s1 where w: "wake_dependent pe d t s = Some s1" and r: "foldM (wake_dependent pe d) ts s1 = Some s'"
    by (auto split: option.splits)
  note a = wake_dependent_frame [OF w Cons.prems(2)]
  note ih = Cons.IH [OF r a(2)]
  have frame: "dep_frame s s'" using a(1) ih dep_frame_trans by blast
  have wait: "waitingDependencies_new s' t' = (if t' \<in> set (t # ts)
      then Option.bind (waitingDependencies_new s t') (woken d) else waitingDependencies_new s t')" for t'
    using ih a(3) by auto
  have vote: "vote_reg s' t' = vote_reg s t'" if "t' \<notin> set (t # ts) \<or> waitingDependencies_new s t' = None" for t'
  proof -
    have "vote_reg s1 t' = vote_reg s t'" using that a(4) [of t'] by (cases "t' = t") auto
    moreover have "t' \<notin> set ts \<or> waitingDependencies_new s1 t' = None" using that a(3) by auto
    ultimately show ?thesis using ih by simp
  qed
  have dec: "\<exists>v. vote_reg s' t' = Decided v"
    if t': "t' \<in> set (t # ts)" "waitingDependencies_new s t' = Some f" "woken d f = None" for t' f
  proof (cases "t' = t")
    case True
    then have "waitingDependencies_new s1 t' = None" using a(3) t' by simp
    then have "vote_reg s' t' = vote_reg s1 t'" using ih by blast
    then show ?thesis using a(5) t' True by simp
  next
    case False
    then show ?thesis using ih a(3) t' by auto
  qed
  show ?case using frame ih wait vote dec by blast
qed simp

section \<open>No transaction waits for a finished one\<close>

definition wait_ok :: "server \<Rightarrow> bool" where
  "wait_ok s \<longleftrightarrow> (\<forall>t f. waitingDependencies_new s t = Some f \<longrightarrow>
     wd_deps f \<noteq> [] \<and>
     (\<forall>d \<in> set (wd_deps f). \<not> finished s d \<and> t \<in> set (lookup_list (dependents s) d)))"

lemma wait_okD:
  assumes "wait_ok s" "waitingDependencies_new s t = Some f"
  shows "wd_deps f \<noteq> []" "d \<in> set (wd_deps f) \<Longrightarrow> \<not> finished s d"
    "d \<in> set (wd_deps f) \<Longrightarrow> t \<in> set (lookup_list (dependents s) d)"
  using assms by (auto simp: wait_ok_def)

lemma wait_okI:
  assumes "\<And>t f. waitingDependencies_new s t = Some f \<Longrightarrow> wd_deps f \<noteq> [] \<and>
    (\<forall>d \<in> set (wd_deps f). \<not> finished s d \<and> t \<in> set (lookup_list (dependents s) d))"
  shows "wait_ok s"
  using assms by (simp add: wait_ok_def)

text \<open>The state in which \<open>d\<close> has just been committed or aborted, before its dependents are checked.\<close>

definition finishes :: "string \<Rightarrow> server \<Rightarrow> server \<Rightarrow> bool" where
  "finishes d s s1 \<longleftrightarrow> finished s1 d \<and> (\<forall>x. x \<noteq> d \<longrightarrow> finished s1 x = finished s x) \<and>
     waitingDependencies_new s1 = waitingDependencies_new s \<and> dependents s1 = dependents s"

lemma CheckDependents_frame:
  assumes "CheckDependents pe d s = Some s'" "p1_ok s"
  shows "dependents s' = (dependents s)(d := None)" "\<And>x. finished s' x = finished s x" "p1_ok s'"
    "\<And>t. waitingDependencies_new s' t = (if t \<in> set (lookup_list (dependents s) d)
        then Option.bind (waitingDependencies_new s t) (woken d) else waitingDependencies_new s t)"
    "\<And>t f. t \<in> set (lookup_list (dependents s) d) \<Longrightarrow> waitingDependencies_new s t = Some f \<Longrightarrow>
        woken d f = None \<Longrightarrow> \<exists>v. vote_reg s' t = Decided v"
    "dep_frame (s\<lparr>dependents := (dependents s)(d := None)\<rparr>) s'"
proof -
  have main: "dependents s' = (dependents s)(d := None) \<and> (\<forall>x. finished s' x = finished s x) \<and> p1_ok s' \<and>
    (\<forall>t. waitingDependencies_new s' t = (if t \<in> set (lookup_list (dependents s) d)
        then Option.bind (waitingDependencies_new s t) (woken d) else waitingDependencies_new s t)) \<and>
    (\<forall>t f. t \<in> set (lookup_list (dependents s) d) \<longrightarrow> waitingDependencies_new s t = Some f \<longrightarrow>
        woken d f = None \<longrightarrow> (\<exists>v. vote_reg s' t = Decided v)) \<and>
    dep_frame (s\<lparr>dependents := (dependents s)(d := None)\<rparr>) s'"
  proof (cases "dependents s d")
    case None
    then have "s' = s" using assms(1) by (simp add: CheckDependents_def)
    then show ?thesis using None assms(2) by (simp add: lookup_list_def fun_upd_idem)
  next
    case (Some ts)
    then obtain s1 where f: "foldM (wake_dependent pe d) ts s = Some s1"
      and s': "s' = s1\<lparr>dependents := (dependents s1)(d := None)\<rparr>"
      using assms(1) by (auto simp: CheckDependents_def bind_eq_Some_conv)
    note a = wake_all_frame [OF f assms(2)]
    have fr: "dep_frame s s1" using a by blast
    note fields = dep_frame_fields [OF fr]
    have "dep_frame (s\<lparr>dependents := (dependents s)(d := None)\<rparr>) s'"
      using fr by (elim dep_frameE) (simp add: s' dep_frame_def)
    then show ?thesis using a Some fields
      by (simp add: s' lookup_list_def finished_def p1_ok_def vote_reg_def p1_meta_def)
  qed
  then show "dependents s' = (dependents s)(d := None)" "\<And>x. finished s' x = finished s x" "p1_ok s'"
    "\<And>t. waitingDependencies_new s' t = (if t \<in> set (lookup_list (dependents s) d)
        then Option.bind (waitingDependencies_new s t) (woken d) else waitingDependencies_new s t)"
    "\<And>t f. t \<in> set (lookup_list (dependents s) d) \<Longrightarrow> waitingDependencies_new s t = Some f \<Longrightarrow>
        woken d f = None \<Longrightarrow> \<exists>v. vote_reg s' t = Decided v"
    "dep_frame (s\<lparr>dependents := (dependents s)(d := None)\<rparr>) s'"
    by blast+
qed

lemma woken_deps: "woken d f = Some g \<Longrightarrow> set (wd_deps g) = set (wd_deps f) - {d} \<and> wd_deps g \<noteq> []"
  by (auto simp: woken_def split: if_splits)


text \<open>A transaction can be answered: it is still ongoing and its buffered vote is not an abort.\<close>

definition answerable :: "server \<Rightarrow> string \<Rightarrow> bool" where
  "answerable s t \<longleftrightarrow> ongoing s t \<noteq> None \<and> committed s t = None \<and> vote_reg s t \<noteq> Decided CC_ABORT"

lemma SendPhase1Reply_some: "r \<noteq> CC_ABORT \<Longrightarrow> \<exists>s'. SendPhase1Reply pe q r cf d rem a s = Some s'"
  by (cases "validateProofs pe") (simp_all add: SendPhase1Reply_def Let_def)

lemma answer_dependent_some:
  assumes "answerable s t" "p1_ok s"
  shows "\<exists>s'. answer_dependent pe t s = Some s'"
proof -
  obtain r where r: "CheckDependencies pe t s = Some r"
    using assms(1) by (auto simp: answerable_def CheckDependencies_def)
  then have rr: "r = CC_COMMIT \<or> r = CC_ABSTAIN" by (rule CheckDependencies_result)
  obtain out s1 where b: "BufferP1Result pe r None t 0 None False False 2 s = Some (out, s1)"
    using rr by (auto simp: BufferP1Result_def case_prod_unfold Let_def)
  have ign: "r \<noteq> CC_IGNORE" using rr by auto
  have na: "vo_result out \<noteq> CC_ABORT"
    using BufferP1Result_register [OF assms(2) ign b] assms(1) rr
    by (cases "vote_reg s t") (auto simp: answerable_def reg_answer_def)
  obtain c where s1: "s1 = s\<lparr>p1MetaData := (p1MetaData s)(t \<mapsto> c)\<rparr>"
    using BufferP1Result_cases [OF ign b] by metis
  obtain s2 where p: "(case vo_original out of None \<Rightarrow> Some s1
        | Some (remote, q) \<Rightarrow> SendPhase1Reply pe q (vo_result out) None t remote None s1) = Some s2"
    using SendPhase1Reply_some [OF na] by (cases "vo_original out") (simp, fastforce)
  have "sends s1 s2" using p by (auto split: option.splits dest: SendPhase1Reply_sends)
  then have c2: "committed s2 t = None" using assms(1) by (elim sendsE) (simp add: s1 answerable_def)
  have "\<exists>s3. WakeAllInterestedFallbacks pe t (vo_result out) None s2 = Some s3"
    using na c2 by (auto simp: WakeAllInterestedFallbacks_def ForwardWritebackMulti_def SetP1_def
        SendPhase1FBReply_def Let_def split: option.splits)
  then obtain s3 where w: "WakeAllInterestedFallbacks pe t (vo_result out) None s2 = Some s3" ..
  show ?thesis using rr by (auto simp: answer_dependent_def r b p w)
qed

lemma wake_all_some:
  assumes "p1_ok s" "\<forall>t \<in> set ts. waitingDependencies_new s t \<noteq> None \<longrightarrow> answerable s t"
  shows "\<exists>s'. foldM (wake_dependent pe d) ts s = Some s'"
  using assms
proof (induction ts arbitrary: s)
  case (Cons t ts)
  have "\<exists>s1. wake_dependent pe d t s = Some s1"
  proof (cases "waitingDependencies_new s t")
    case (Some f)
    let ?s = "s\<lparr>waitingDependencies_new := (waitingDependencies_new s)(t \<mapsto> f\<lparr>wd_deps := removeAll d (wd_deps f)\<rparr>)\<rparr>"
    have "answerable ?s t" using Cons.prems Some by (simp add: answerable_def)
    then show ?thesis using answer_dependent_some [of ?s t pe] Cons.prems(1) Some
      by (cases "removeAll d (wd_deps f) = []") (simp_all add: wake_dependent_def Let_def)
  qed (simp add: wake_dependent_def)
  then obtain s1 where w: "wake_dependent pe d t s = Some s1" ..
  note a = wake_dependent_frame [OF w Cons.prems(1)]
  have "answerable s1 t'" if "t' \<in> set ts" "waitingDependencies_new s1 t' \<noteq> None" for t'
  proof -
    have ww: "waitingDependencies_new s t' \<noteq> None"
      using that a(3) by (auto simp: bind_eq_Some_conv split: if_splits)
    then have an: "answerable s t'" using Cons.prems(2) that(1) by simp
    have "vote_reg s1 t' \<noteq> Decided CC_ABORT"
    proof (cases "t' = t")
      case True
      with that(2) a(3) have "woken d (the (waitingDependencies_new s t)) \<noteq> None"
        using ww by (auto split: if_splits)
      then have "vote_reg s1 t = vote_reg s t"
        using w ww True by (auto simp: wake_dependent_def woken_def Let_def split: if_splits)
      then show ?thesis using an True by (simp add: answerable_def)
    next
      case False
      then show ?thesis using a(4) [of t'] an by (simp add: answerable_def)
    qed
    then show ?thesis using an dep_frame_fields [OF a(1)] by (simp add: answerable_def)
  qed
  then show ?case using Cons.IH [of s1] a(2) w by auto
qed simp

text \<open>
  C35. A transaction that waits for its last dependency is answered: when that dependency finishes, checking
  the dependents does not crash, the transaction no longer waits, and it has a final vote, provided the
  waiting transactions are still ongoing and none has been voted an abort meanwhile.
\<close>

theorem CheckDependents_answers:
  assumes "wait_ok s" "p1_ok s1" "finishes d s s1"
    "\<forall>t. waitingDependencies_new s t \<noteq> None \<longrightarrow> answerable s1 t"
    "waitingDependencies_new s t = Some f" "set (wd_deps f) = {d}"
  shows "\<exists>s2 v. CheckDependents pe d s1 = Some s2 \<and> waitingDependencies_new s2 t = None \<and>
    LookupP1Decision t s2 = Some v"
proof -
  have eqs: "waitingDependencies_new s1 = waitingDependencies_new s" "dependents s1 = dependents s"
    using assms(3) by (auto simp: finishes_def)
  have t: "t \<in> set (lookup_list (dependents s1) d)"
    using wait_okD(3) [OF assms(1,5), of d] assms(6) eqs by simp
  obtain s' where "foldM (wake_dependent pe d) (lookup_list (dependents s1) d) s1 = Some s'"
    using wake_all_some [OF assms(2)] assms(4) eqs by metis
  then obtain s2 where c: "CheckDependents pe d s1 = Some s2"
    using t by (auto simp: CheckDependents_def lookup_list_def split: option.splits)
  have "removeAll d (wd_deps f) = []" using assms(6) by (simp add: removeAll_filter_not_eq filter_empty_conv)
  then have wk: "woken d f = None" by (simp add: woken_def)
  note fr = CheckDependents_frame [OF c assms(2)]
  have "waitingDependencies_new s2 t = None" using fr(4) [of t] t assms(5) eqs wk by simp
  moreover obtain v where "vote_reg s2 t = Decided v" using fr(5) [OF t] assms(5) eqs wk by auto
  ultimately show ?thesis using c by (auto simp: LookupP1Decision_reg)
qed

section \<open>Registering a waiting transaction\<close>

lemma register_loop:
  assumes "foldM (\<lambda>dep. RegisterWaitingTxn pe (dep_id dep) t rem q fb g new) ds (m0, s) = Some (m, s')"
  shows "m = m0 @ filter (\<lambda>x. \<not> finished s x) (map dep_id ds) \<and>
    s' = s\<lparr>dependents := dependents s', effects := effects s'\<rparr> \<and>
    (\<forall>x. set (lookup_list (dependents s') x) = set (lookup_list (dependents s) x) \<union>
       (if new \<and> \<not> finished s x \<and> x \<in> dep_id ` set ds then {t} else {}))"
  using assms
proof (induction ds arbitrary: m0 s)
  case Nil
  then show ?case by simp
next
  case (Cons dep ds)
  obtain m1 s1 where r: "RegisterWaitingTxn pe (dep_id dep) t rem q fb g new (m0, s) = Some (m1, s1)"
    and rest: "foldM (\<lambda>dep. RegisterWaitingTxn pe (dep_id dep) t rem q fb g new) ds (m1, s1) = Some (m, s')"
    using Cons.prems by (auto split: option.splits)
  show ?case
  proof (cases "finished s (dep_id dep)")
    case True
    then have "m1 = m0" "s1 = s" using r by (auto simp: RegisterWaitingTxn_def)
    then show ?thesis using Cons.IH [OF rest] True by auto
  next
    case False
    let ?u = "if new then s\<lparr>dependents := (dependents s)
      (dep_id dep \<mapsto> List.insert t (lookup_list (dependents s) (dep_id dep)))\<rparr> else s"
    have "m1 = m0 @ [dep_id dep]" "sends ?u s1"
      using r False by (auto simp: RegisterWaitingTxn_def Let_def bind_eq_Some_conv dest: SendRelayP1_sends
          split: if_splits)
    moreover then obtain e where "s1 = ?u\<lparr>effects := e\<rparr>" by (elim sendsE)
    moreover then have "finished s1 x = finished s x" for x by (simp add: finished_def)
    moreover obtain dd ee where s': "s' = s1\<lparr>dependents := dd, effects := ee\<rparr>"
      using Cons.IH [OF rest] by blast
    ultimately show ?thesis using Cons.IH [OF rest] False by auto
  qed
qed

lemma set_fold_insert: "set (fold List.insert xs ys) = set xs \<union> set ys"
  by (induction xs arbitrary: ys) auto

text \<open>
  C36. Registering dependencies is exact: the transaction may proceed if and only if all its dependencies
  in this group have finished; otherwise it is left waiting, and the waiting lists stay consistent.
\<close>

theorem ManageDependencies_waits:
  assumes "wait_ok s" "maxDepDepth pe > -2" "ManageDependencies pe d txn rem q fb g s = Some (b, s')"
  shows "wait_ok s' \<and> (b \<longleftrightarrow> (\<forall>dep \<in> set (local_deps pe (txn_deps txn)). finished s (dep_id dep))) \<and>
    (\<not> b \<longrightarrow> waitingDependencies_new s' d \<noteq> None)"
proof -
  let ?new = "waitingDependencies_new s d = None"
  let ?ds = "local_deps pe (txn_deps txn)"
  obtain m s1 where l: "foldM (\<lambda>dep. RegisterWaitingTxn pe (dep_id dep) d rem q fb g ?new) ?ds ([], s) = Some (m, s1)"
    using assms(2,3) by (auto simp: ManageDependencies_def manage_deps_def bind_eq_Some_conv)
  note r = register_loop [OF l]
  note s1 = conjunct1 [OF conjunct2 [OF r]] and r3 = conjunct2 [OF conjunct2 [OF r]]
  obtain dd ee where s1: "s1 = s\<lparr>dependents := dd, effects := ee\<rparr>" by (rule that [OF s1])
  have m: "set m = {x \<in> dep_id ` set ?ds. \<not> finished s x}" using conjunct1 [OF r] by auto
  have deps: "set (lookup_list dd x) = set (lookup_list (dependents s) x) \<union> (if ?new \<and> x \<in> set m then {d} else {})" for x
    using r3 m by (auto simp: s1)
  have old: "wd_deps f \<noteq> [] \<and> (\<forall>x \<in> set (wd_deps f). \<not> finished s x \<and> t \<in> set (lookup_list dd x))"
    if "waitingDependencies_new s t = Some f" for t f
    using wait_okD [OF assms(1) that] deps by auto
  have fin: "finished s1 x = finished s x" "finished (s1\<lparr>waitingDependencies_new := w\<rparr>) x = finished s x" for x w
    by (simp_all add: s1 finished_def)
  have run: "manage_deps pe (txn_deps txn) d rem q fb g s = (if m \<noteq> [] then
      Some (False, s1\<lparr>waitingDependencies_new := (waitingDependencies_new s1)
        (d \<mapsto> waiting_entry (\<not> fb \<and> \<not> g) q m (waitingDependencies_new s1 d))\<rparr>)
      else Some (True, s1))"
    using assms(2) l by (simp add: manage_deps_def)
  show ?thesis
  proof (cases "m = []")
    case True
    then have "b" "s' = s1" using assms(3) run by (simp_all add: ManageDependencies_def)
    moreover have "\<forall>dep \<in> set ?ds. finished s (dep_id dep)" using True m by auto
    moreover have "wait_ok s1" by (rule wait_okI) (use old in \<open>simp add: fin, simp add: s1\<close>)
    ultimately show ?thesis by simp
  next
    case False
    define f where "f = waiting_entry (\<not> fb \<and> \<not> g) q m (waitingDependencies_new s1 d)"
    have s': "\<not> b" "s' = s1\<lparr>waitingDependencies_new := (waitingDependencies_new s1)(d \<mapsto> f)\<rparr>"
      using assms(3) run False by (simp_all add: ManageDependencies_def f_def)
    have f: "wd_deps f = (case waitingDependencies_new s d of None \<Rightarrow> fold List.insert m [] | Some f \<Rightarrow> wd_deps f)"
      by (simp add: f_def waiting_entry_def s1 split: option.splits)
    have fok: "wd_deps f \<noteq> [] \<and> (\<forall>x \<in> set (wd_deps f). \<not> finished s x \<and> d \<in> set (lookup_list dd x))"
    proof (cases "waitingDependencies_new s d")
      case None
      then have sf: "set (wd_deps f) = set m" by (simp add: f set_fold_insert)
      moreover have "wd_deps f \<noteq> []" using sf False by auto
      moreover have "\<not> finished s x \<and> d \<in> set (lookup_list dd x)" if "x \<in> set m" for x
        using that deps [of x] None m by simp
      ultimately show ?thesis by blast
    next
      case (Some f0)
      then show ?thesis using old [OF Some] f by simp
    qed
    have "wait_ok s'" unfolding s'(2)
      by (rule wait_okI) (use old fok in \<open>simp add: fin, simp add: s1 split: if_splits\<close>)
    moreover have "\<exists>dep \<in> set ?ds. \<not> finished s (dep_id dep)"
    proof -
      have "hd m \<in> set m" using False by simp
      then show ?thesis using m by auto
    qed
    ultimately show ?thesis using s' by simp
  qed
qed

section \<open>The depth of a chain of dependencies\<close>

inductive dep_chain :: "server \<Rightarrow> Transaction \<Rightarrow> nat \<Rightarrow> bool" for s where
  base: "dep_chain s t 0"
| step: "t' \<in> set (ongoing_deps s t) \<Longrightarrow> dep_chain s t' n \<Longrightarrow> dep_chain s t (Suc n)"

inductive_cases dep_chain_SucE: "dep_chain s t (Suc n)"

definition ts_rank :: "Timestamp \<Rightarrow> nat" where
  "ts_rank t = unat (getTimestamp t) * 2 ^ 64 + unat (getID t)"

lemma ts_rank_mono:
  assumes "t < t'"
  shows "ts_rank t < ts_rank t'"
proof -
  have b: "unat (getID t) < 2 ^ 64" using unsigned_less [of "getID t"] by simp
  consider "getTimestamp t = getTimestamp t'" "getID t < getID t'" | "getTimestamp t < getTimestamp t'"
    using assms by (auto simp: less_Timestamp_def split: if_splits)
  then show ?thesis
  proof cases
    case 2
    then have "Suc (unat (getTimestamp t)) \<le> unat (getTimestamp t')" by (simp add: word_less_nat_alt)
    then have "Suc (unat (getTimestamp t)) * 2 ^ 64 \<le> unat (getTimestamp t') * 2 ^ 64"
      by (rule mult_le_mono1)
    then show ?thesis using b by (simp add: ts_rank_def)
  qed (simp add: ts_rank_def word_less_nat_alt)
qed

definition older_deps :: "server \<Rightarrow> Transaction \<Rightarrow> bool" where
  "older_deps s t \<longleftrightarrow> (\<forall>t' \<in> set (ongoing_deps s t). timestamp t' < timestamp t)"

lemma ongoing_deps_ongoing: "t' \<in> set (ongoing_deps s t) \<Longrightarrow> \<exists>d og. ongoing s d = Some og \<and> t' = og_txn og"
  by (force simp: ongoing_deps_def List.map_filter_def)

definition is_depth :: "server \<Rightarrow> (Transaction \<times> nat) list \<Rightarrow> nat \<Rightarrow> nat \<Rightarrow> bool" where
  "is_depth s q mx m \<longleftrightarrow> mx \<le> m \<and> (\<forall>t k n. (t, k) \<in> set q \<longrightarrow> dep_chain s t n \<longrightarrow> k + n \<le> m) \<and>
     (m = mx \<or> (\<exists>t k n. (t, k) \<in> set q \<and> dep_chain s t n \<and> m = k + n))"

lemma is_depth_step:
  assumes "is_depth s (q @ map (\<lambda>t'. (t', k + 1)) (ongoing_deps s t)) (max mx k) m"
  shows "is_depth s ((t, k) # q) mx m"
proof -
  let ?new = "map (\<lambda>t'. (t', k + 1)) (ongoing_deps s t)"
  have m: "max mx k \<le> m" "\<And>t' k' n. (t', k') \<in> set (q @ ?new) \<Longrightarrow> dep_chain s t' n \<Longrightarrow> k' + n \<le> m"
    "m = max mx k \<or> (\<exists>t' k' n. (t', k') \<in> set (q @ ?new) \<and> dep_chain s t' n \<and> m = k' + n)"
    using assms unfolding is_depth_def by blast+
  have top: "k + n \<le> m" if chain: "dep_chain s t n" for n
  proof (cases n)
    case (Suc n')
    then obtain u where "u \<in> set (ongoing_deps s t)" "dep_chain s u n'"
      using dep_chain_SucE [OF chain [unfolded Suc]] by blast
    then show ?thesis using m(2) [of u "k + 1" n'] Suc by simp
  qed (use m(1) in simp)
  have "m = mx \<or> (\<exists>t' k' n. (t', k') \<in> set ((t, k) # q) \<and> dep_chain s t' n \<and> m = k' + n)"
    using m(3)
  proof (elim disjE exE conjE)
    assume "m = max mx k"
    then show ?thesis using dep_chain.base [of s t] by (cases "mx \<le> k") (force simp: max_def)+
  next
    fix u j n assume u: "(u, j) \<in> set (q @ ?new)" "dep_chain s u n" "m = j + n"
    show ?thesis
    proof (cases "(u, j) \<in> set q")
      case False
      then have "u \<in> set (ongoing_deps s t)" "m = k + Suc n" using u by auto
      then show ?thesis using u(2) dep_chain.step [of u s t n] by force
    qed (use u in auto)
  qed
  then show ?thesis using m(1,2) top unfolding is_depth_def by auto
qed

lemma depth_bfs_longest:
  assumes "\<And>d og. ongoing s d = Some og \<Longrightarrow> older_deps s (og_txn og)"
    "\<forall>c \<in> set q. older_deps s (fst c)"
  shows "\<exists>m. depth_bfs s q mx = Some m \<and> is_depth s q mx m"
  using assms(2)
proof (induction "mset (map (\<lambda>c. ts_rank (timestamp (fst c))) q)" arbitrary: q mx
    rule: wf_induct_rule [OF wf_mult [OF wf_less]])
  case 1
  show ?case
  proof (cases q)
    case Nil
    then show ?thesis by (subst depth_bfs.simps) (simp add: is_depth_def)
  next
    case (Cons c q')
    obtain t k where c: "c = (t, k)" by (cases c)
    let ?new = "map (\<lambda>t'. (t', k + 1)) (ongoing_deps s t)"
    let ?rank = "\<lambda>c. ts_rank (timestamp (fst c))"
    have small: "\<forall>x \<in># mset (map ?rank ?new). \<exists>y \<in># {#ts_rank (timestamp t)#}. (x, y) \<in> {(x, y). x < y}"
      using 1(2) Cons c by (auto simp: older_deps_def intro: ts_rank_mono)
    have "(mset (map ?rank q') + mset (map ?rank ?new), mset (map ?rank q') + {#ts_rank (timestamp t)#})
        \<in> mult {(x, y). x < y}"
      by (rule one_step_implies_mult [OF _ small]) simp
    then have less: "(mset (map ?rank (q' @ ?new)), mset (map ?rank q)) \<in> mult {(x, y). x < y}"
      by (simp add: Cons c)
    have "older_deps s t'" if "t' \<in> set (ongoing_deps s t)" for t'
      using ongoing_deps_ongoing [OF that] assms(1) by blast
    then have good: "\<forall>c \<in> set (q' @ ?new). older_deps s (fst c)" using 1(2) Cons by auto
    obtain m where "depth_bfs s (q' @ ?new) (max mx k) = Some m" "is_depth s (q' @ ?new) (max mx k) m"
      using 1(1) [OF less good] by blast
    then show ?thesis using is_depth_step [of s q' k t mx m]
      by (subst depth_bfs.simps) (simp add: Cons c)
  qed
qed

text \<open>
  C37. The search for the dependency depth ends and is exact when every ongoing transaction depends on
  older ones only: it returns the length of the longest chain of ongoing dependencies.
\<close>

theorem DependencyDepth_longest:
  assumes "\<forall>d og. ongoing s d = Some og \<longrightarrow> older_deps s (og_txn og)" "older_deps s txn"
  shows "\<exists>m. DependencyDepth txn s = Some m \<and> dep_chain s txn m \<and> (\<forall>n. dep_chain s txn n \<longrightarrow> n \<le> m)"
proof -
  obtain m where m: "depth_bfs s [(txn, 0)] 0 = Some m" "is_depth s [(txn, 0)] 0 m"
    using depth_bfs_longest [of s "[(txn, 0)]" 0] assms by auto
  have "dep_chain s txn m" using m(2) dep_chain.base by (auto simp: is_depth_def)
  then show ?thesis using m by (auto simp: DependencyDepth_def is_depth_def)
qed

section \<open>Examples\<close>

definition mk_dep :: "string \<Rightarrow> Timestamp \<Rightarrow> Dependency" where
  "mk_dep d t = \<lparr>dep_write = \<lparr>w_committed_value = None, w_committed_timestamp = None, w_prepared_value = None,
     w_prepared_timestamp = Some t, w_prepared_txn_digest = Some d\<rparr>, dep_write_sigs = None, dep_involved_group = 0\<rparr>"

lemma dep_id_mk_dep [simp]: "dep_id (mk_dep d t) = d" "dep_involved_group (mk_dep d t) = 0"
  by (simp_all add: dep_id_def mk_dep_def)

definition dep_txn :: Transaction where
  "dep_txn = empty_txn\<lparr>timestamp := Timestamp 20000 1, deps := [mk_dep ''d'' (Timestamp 15000 2)]\<rparr>"

definition waiting_server :: "string list \<Rightarrow> server" where
  "waiting_server ds = init_server\<lparr>
     ongoing := [''t'' \<mapsto> \<lparr>og_txn = dep_txn, num_concurrent_clients = 1\<rparr>],
     dependents := (\<lambda>d. if d \<in> set ds then Some [''t''] else None),
     waitingDependencies_new :=
       [''t'' \<mapsto> \<lparr>wd_original_client = False, wd_reqId = 0, wd_remote = None, wd_deps = ds\<rparr>]\<rparr>"

lemma waiting_server_ok: "ds \<noteq> [] \<Longrightarrow> wait_ok (waiting_server ds)"
  by (auto simp: wait_ok_def waiting_server_def finished_def lookup_list_def init_server_def)

lemma waiting_server_p1_ok: "p1_ok (waiting_server ds\<lparr>aborted := a\<rparr>)"
  by (simp add: p1_ok_def waiting_server_def init_server_def)

lemma waiting_server_finishes: "finishes d (waiting_server ds) (waiting_server ds\<lparr>aborted := {d}\<rparr>)"
  by (simp add: finishes_def finished_def waiting_server_def init_server_def)


lemma CheckDependents_answers_witness:
  "\<exists>s2 v. CheckDependents kv_params ''d'' (waiting_server [''d'']\<lparr>aborted := {''d''}\<rparr>) = Some s2 \<and>
     waitingDependencies_new s2 ''t'' = None \<and> LookupP1Decision ''t'' s2 = Some v"
proof -
  let ?s = "waiting_server [''d'']"
  have ok: "wait_ok ?s" by (rule waiting_server_ok) simp
  have an: "\<forall>t. waitingDependencies_new ?s t \<noteq> None \<longrightarrow> answerable (?s\<lparr>aborted := {''d''}\<rparr>) t"
    by (simp add: answerable_def waiting_server_def init_server_def vote_reg_def p1_meta_def
        new_P1MetaData_def reg_of_def)
  have "waitingDependencies_new ?s ''t'' =
    Some \<lparr>wd_original_client = False, wd_reqId = 0, wd_remote = None, wd_deps = [''d'']\<rparr>"
    by (simp add: waiting_server_def)
  from CheckDependents_answers [OF ok waiting_server_p1_ok waiting_server_finishes an this]
  show ?thesis by simp
qed

lemma ManageDependencies_waits_witness:
  "\<exists>s'. ManageDependencies kv_params ''t'' dep_txn ''client'' 3 False False init_server = Some (False, s') \<and>
     wait_ok s' \<and> waitingDependencies_new s' ''t'' \<noteq> None"
proof -
  have ok: "wait_ok init_server" by (simp add: wait_ok_def init_server_def)
  have "\<exists>b s'. ManageDependencies kv_params ''t'' dep_txn ''client'' 3 False False init_server = Some (b, s')"
    by (intro exI [of _ False]) (simp add: ManageDependencies_def manage_deps_def txn_deps_def dep_txn_def empty_txn_def local_deps_def
        RegisterWaitingTxn_def finished_def SendRelayP1_def init_server_def)
  then obtain b s' where m: "ManageDependencies kv_params ''t'' dep_txn ''client'' 3 False False init_server = Some (b, s')"
    by blast
  have "\<not> (\<forall>dep \<in> set (local_deps kv_params (txn_deps dep_txn)). finished init_server (dep_id dep))"
    by (simp add: local_deps_def txn_deps_def dep_txn_def empty_txn_def finished_def init_server_def)
  then show ?thesis using m ManageDependencies_waits [OF ok _ m] by auto
qed

lemma DependencyDepth_longest_witness:
  "\<exists>m. DependencyDepth dep_txn (init_server\<lparr>ongoing :=
        [''d'' \<mapsto> \<lparr>og_txn = empty_txn\<lparr>timestamp := Timestamp 15000 2\<rparr>, num_concurrent_clients = 1\<rparr>]\<rparr>) = Some m \<and> 1 \<le> m"
proof -
  let ?d = "empty_txn\<lparr>timestamp := Timestamp 15000 2\<rparr>"
  let ?s = "init_server\<lparr>ongoing := [''d'' \<mapsto> \<lparr>og_txn = ?d, num_concurrent_clients = 1\<rparr>]\<rparr>"
  have od: "ongoing_deps ?s ?d = []" "ongoing_deps ?s dep_txn = [?d]"
    by (simp_all add: ongoing_deps_def dep_txn_def empty_txn_def List.map_filter_def)
  have old: "\<forall>d og. ongoing ?s d = Some og \<longrightarrow> older_deps ?s (og_txn og)" "older_deps ?s dep_txn"
    using od by (simp_all add: older_deps_def, simp add: dep_txn_def empty_txn_def less_Timestamp_def)
  have "dep_chain ?s dep_txn (Suc 0)" using od dep_chain.base by (intro dep_chain.step [of ?d]) simp_all
  then show ?thesis using DependencyDepth_longest [OF old] by (auto simp: Suc_le_eq)
qed

end
