(* ===== verification/Semantic_CC.thy ===== *)
theory Semantic_CC
  imports Dependencies
begin

text \<open>
  Semantic concurrency control (\<open>store/pequinstore/concurrencycontrol_semantic.cc\<close>): the predicates of a
  transaction's scans against the table writes of others.  The evaluation of a predicate on a row
  is a parameter.  \<open>lazy_check\<close> is the constant \<open>true\<close>, so that only that branch is modelled.
\<close>

section \<open>Monotone table versions\<close>

fun monotonic_loop :: "params \<Rightarrow> string \<Rightarrow> u64 \<Rightarrow> string list \<Rightarrow> server \<Rightarrow> bool \<times> server" where
  "monotonic_loop pe d t [] s = (True, s)"
| "monotonic_loop pe d t (table # tables) s =
     (case highTableVersions s table of
        None \<Rightarrow> monotonic_loop pe d t tables s
      | Some high \<Rightarrow>
          if TStoUS t + (monotonicityGrace pe + non_monotonicityGrace pe) * 1000 \<le> TStoUS (getTimestamp high)
          then (False, s)
          else
            let s' = (if TStoUS t + monotonicityGrace pe * 1000 \<le> TStoUS (getTimestamp high)
                      then s\<lparr>non_monotonic_writes := insert d (non_monotonic_writes s)\<rparr> else s)
            in monotonic_loop pe d t tables s')"

definition CheckMonotonicTableColVersions :: "params \<Rightarrow> string \<Rightarrow> Transaction \<Rightarrow> server \<Rightarrow> bool \<times> server" where
  "CheckMonotonicTableColVersions pe d txn s =
     monotonic_loop pe d (getTimestamp (timestamp txn)) (map fst (table_writes txn)) s"

section \<open>Predicates against table writes\<close>

definition GetEncodedRow :: "Transaction \<Rightarrow> RowUpdates \<Rightarrow> string option" where
  "GetEncodedRow txn row =
     (let i = row_write_set_idx row
      in if 0 \<le> i \<and> i < int (length (write_set txn)) then Some (write_key (write_set txn ! nat i)) else None)"

text \<open>
  The state of the row loop: the candidates for a dynamic dependency with their activity, and the keys
  whose latest write has been looked at.
\<close>

type_synonym pred_state = "(string, bool \<times> string) omap \<times> string list"

definition row_conflict :: "params \<Rightarrow> ReadPredicate \<Rightarrow> RowUpdates \<Rightarrow> bool" where
  "row_conflict pe pred row \<longleftrightarrow> row_deletion row \<noteq> Some True \<and>
     (\<exists>i \<in> set (pred_instances pred). EvaluatePred pe i row (pred_table_name pred))"

fun pred_rows ::
  "params \<Rightarrow> ReadPredicate \<Rightarrow> string list \<Rightarrow> Transaction \<Rightarrow> string \<Rightarrow> bool \<Rightarrow> RowUpdates list \<Rightarrow>
   pred_state \<Rightarrow> (bool \<times> pred_state) option" where
  "pred_rows pe pred reads txn d commit [] st = Some (False, st)"
| "pred_rows pe pred reads txn d commit (row # rows) (cands, keys) =
     (case GetEncodedRow txn row of
        None \<Rightarrow> None
      | Some key \<Rightarrow>
          if \<not> IsKeyOwned pe key then pred_rows pe pred reads txn d commit rows (cands, keys)
          else (case map_of cands key of
             Some (active, cd) \<Rightarrow>
               pred_rows pe pred reads txn d commit rows
                 (if active then cands else om_put key (True, cd) cands, keys)
           | None \<Rightarrow>
               if key \<in> set keys \<or> key \<in> set reads then pred_rows pe pred reads txn d commit rows (cands, keys)
               else if row_conflict pe pred row then Some (True, (cands, keys))
               else pred_rows pe pred reads txn d commit rows
                      (if commit then om_erase key cands else om_put key (False, d) cands, key # keys)))"

fun pred_writes ::
  "params \<Rightarrow> server \<Rightarrow> ReadPredicate \<Rightarrow> string list \<Rightarrow> (Timestamp \<times> Transaction \<times> bool) list \<Rightarrow>
   pred_state \<Rightarrow> (bool \<times> pred_state) option" where
  "pred_writes pe s pred reads [] st = Some (False, st)"
| "pred_writes pe s pred reads ((t, txn, commit) # ws) st =
     (if getTimestamp t \<le> 10000 then None
      else if t = pred_table_version pred then pred_writes pe s pred reads ws st
      else if TStoUS (getTimestamp t) + (monotonicityGrace pe + non_monotonicityGrace pe) * 1000
                < TStoUS (getTimestamp (pred_table_version pred)) then Some (False, st)
      else (case txndigest txn of
         None \<Rightarrow> None
       | Some d \<Rightarrow>
           if TStoUS (getTimestamp t) + monotonicityGrace pe * 1000
                < TStoUS (getTimestamp (pred_table_version pred)) \<and> d \<notin> non_monotonic_writes s
           then pred_writes pe s pred reads ws st
           else (case map_of (table_writes txn) (pred_table_name pred) of
              None \<Rightarrow> None
            | Some tw \<Rightarrow>
                (case pred_rows pe pred reads txn d commit (tw_rows tw) st of
                   None \<Rightarrow> None
                 | Some (True, st') \<Rightarrow> Some (True, st')
                 | Some (False, st') \<Rightarrow> pred_writes pe s pred reads ws st'))))"

text \<open>
  The iterator starts before \<open>lower_bound(txn_ts)\<close> and the loop ends when it reaches \<open>begin()\<close>, without
  looking at the element there.
\<close>

definition CheckReadPred ::
  "params \<Rightarrow> Timestamp \<Rightarrow> ReadPredicate \<Rightarrow> ReadMessage list \<Rightarrow> server \<Rightarrow> (CCResult \<times> string list) option" where
  "CheckReadPred pe txn_ts pred txn_read_set s =
     (if pred_instances pred = [] then None
      else (case tableWrites s (pred_table_name pred) of
         None \<Rightarrow> Some (CC_COMMIT, [])
       | Some writes \<Rightarrow>
           (case takeWhile (\<lambda>w. fst w < txn_ts) writes of
              [] \<Rightarrow> Some (CC_COMMIT, [])
            | _ # below \<Rightarrow> do {
                (conflict, cands, _) \<leftarrow> pred_writes pe s pred (map read_key txn_read_set) (rev below) ([], []);
                if conflict then Some (CC_ABSTAIN, [])
                else Some (CC_COMMIT, map (snd \<circ> snd) (filter (fst \<circ> snd) cands))
              })))"

section \<open>Table writes against predicates\<close>

definition read_txn_preds :: "params \<Rightarrow> Transaction \<Rightarrow> ReadPredicate list" where
  "read_txn_preds pe txn =
     (case merged_read_set txn of
        Some m \<Rightarrow> if cacheReadSet pe \<or> \<not> mergeActiveAtClient pe then rs_read_predicates m else read_predicates txn
      | None \<Rightarrow> read_predicates txn)"

text \<open>The read set that is searched is the merged one exactly when there is none.\<close>

definition skip_reads :: "Transaction \<Rightarrow> ReadMessage list" where
  "skip_reads read_txn = (case merged_read_set read_txn of Some _ \<Rightarrow> read_set read_txn | None \<Rightarrow> [])"

fun table_rows ::
  "params \<Rightarrow> Transaction \<Rightarrow> Timestamp \<Rightarrow> string \<Rightarrow> Transaction \<Rightarrow> RowUpdates list \<Rightarrow> bool option" where
  "table_rows pe txn txn_ts table read_txn [] = Some False"
| "table_rows pe txn txn_ts table read_txn (row # rows) =
     (if row_deletion row = Some True then table_rows pe txn txn_ts table read_txn rows
      else (case GetEncodedRow txn row of
         None \<Rightarrow> None
       | Some key \<Rightarrow>
           if \<not> IsKeyOwned pe key \<or> key \<in> set (map read_key (skip_reads read_txn))
           then table_rows pe txn txn_ts table read_txn rows
           else if query_set read_txn = [] then None
           else if \<exists>pred \<in> set (read_txn_preds pe read_txn). pred_table_name pred = table \<and>
                     txn_ts \<noteq> pred_table_version pred \<and>
                     (\<exists>i \<in> set (pred_instances pred). EvaluatePred pe i row (pred_table_name pred))
           then Some True
           else table_rows pe txn txn_ts table read_txn rows))"

fun table_preds ::
  "params \<Rightarrow> Transaction \<Rightarrow> Timestamp \<Rightarrow> string \<Rightarrow> RowUpdates list \<Rightarrow> Transaction list \<Rightarrow> bool option" where
  "table_preds pe txn txn_ts table rows [] = Some False"
| "table_preds pe txn txn_ts table rows (r # rs) =
     (case table_rows pe txn txn_ts table r rows of
        None \<Rightarrow> None
      | Some True \<Rightarrow> Some True
      | Some False \<Rightarrow> table_preds pe txn txn_ts table rows rs)"

definition CheckTableWrites ::
  "params \<Rightarrow> Transaction \<Rightarrow> Timestamp \<Rightarrow> string \<Rightarrow> TableWrite \<Rightarrow> server \<Rightarrow> CCResult option" where
  "CheckTableWrites pe txn txn_ts table tw s =
     (case tablePredicates s table of
        None \<Rightarrow> Some CC_COMMIT
      | Some preds \<Rightarrow> map_option (\<lambda>c. if c then CC_ABSTAIN else CC_COMMIT)
          (table_preds pe txn txn_ts table (tw_rows tw) (map (fst \<circ> snd) (om_upper_bound txn_ts preds))))"

fun read_preds_loop ::
  "params \<Rightarrow> Timestamp \<Rightarrow> ReadMessage list \<Rightarrow> server \<Rightarrow> ReadPredicate list \<Rightarrow> (string, unit) omap \<Rightarrow>
   (CCResult \<times> (string, unit) omap) option" where
  "read_preds_loop pe ts reads s [] dyn = Some (CC_COMMIT, dyn)"
| "read_preds_loop pe ts reads s (p # ps) dyn =
     (case CheckReadPred pe ts p reads s of
        None \<Rightarrow> None
      | Some (res, active) \<Rightarrow>
          if res \<noteq> CC_COMMIT then Some (res, dyn)
          else read_preds_loop pe ts reads s ps (fold (\<lambda>d. om_insert d ()) active dyn))"

fun table_writes_loop ::
  "params \<Rightarrow> Transaction \<Rightarrow> Timestamp \<Rightarrow> server \<Rightarrow> (string \<times> TableWrite) list \<Rightarrow> CCResult option" where
  "table_writes_loop pe txn ts s [] = Some CC_COMMIT"
| "table_writes_loop pe txn ts s ((table, tw) # tws) =
     (case CheckTableWrites pe txn ts table tw s of
        None \<Rightarrow> None
      | Some res \<Rightarrow> if res \<noteq> CC_COMMIT then Some res else table_writes_loop pe txn ts s tws)"

definition CheckPredicates ::
  "params \<Rightarrow> Transaction \<Rightarrow> Timestamp \<Rightarrow> ReadMessage list \<Rightarrow> ReadPredicate list \<Rightarrow> server \<Rightarrow>
   (CCResult \<times> string list) option" where
  "CheckPredicates pe txn ts reads preds s = do {
     (res, dyn) \<leftarrow> read_preds_loop pe ts reads s preds [];
     if res \<noteq> CC_COMMIT then Some (res, map fst dyn)
     else do {
       res \<leftarrow> table_writes_loop pe txn ts s (table_writes txn);
       Some (res, map fst dyn)
     }
   }"

section \<open>Recording and clearing\<close>

definition record_preds :: "params \<Rightarrow> Transaction \<Rightarrow> ReadPredicate list" where
  "record_preds pe txn =
     (case merged_read_set txn of
        Some m \<Rightarrow> if query_set txn \<noteq> [] \<and> (cacheReadSet pe \<or> \<not> mergeActiveAtClient pe)
                   then rs_read_predicates m else read_predicates txn
      | None \<Rightarrow> read_predicates txn)"

definition record_pred :: "Timestamp \<Rightarrow> Transaction \<times> bool \<Rightarrow> ReadPredicate \<Rightarrow> server \<Rightarrow> server" where
  "record_pred ts e pred s = s\<lparr>tablePredicates := (tablePredicates s)(pred_table_name pred \<mapsto>
     om_put ts e (lookup_list (tablePredicates s) (pred_table_name pred)))\<rparr>"

definition record_write :: "Timestamp \<Rightarrow> Transaction \<times> bool \<Rightarrow> string \<Rightarrow> server \<Rightarrow> server" where
  "record_write ts e table s = s\<lparr>tableWrites := (tableWrites s)(table \<mapsto>
     om_put ts e (lookup_list (tableWrites s) table))\<rparr>"

definition RecordReadPredicatesAndWrites ::
  "params \<Rightarrow> Transaction \<Rightarrow> Timestamp \<Rightarrow> bool \<Rightarrow> server \<Rightarrow> server option" where
  "RecordReadPredicatesAndWrites pe txn ts commit_or_prepare s =
     (if getTimestamp ts \<le> 10000 then None
      else Some (fold (record_write ts (txn, commit_or_prepare)) (map fst (table_writes txn))
                  (fold (record_pred ts (txn, commit_or_prepare)) (record_preds pe txn) s)))"

definition clear_pred :: "Timestamp \<Rightarrow> ReadPredicate \<Rightarrow> server \<Rightarrow> server" where
  "clear_pred ts pred s = s\<lparr>tablePredicates := (tablePredicates s)(pred_table_name pred :=
     map_option (om_erase ts) (tablePredicates s (pred_table_name pred)))\<rparr>"

definition clear_write :: "Timestamp \<Rightarrow> string \<Rightarrow> server \<Rightarrow> server" where
  "clear_write ts table s = s\<lparr>tableWrites := (tableWrites s)(table :=
     map_option (om_erase ts) (tableWrites s table))\<rparr>"

definition ClearPredicateAndWrites :: "params \<Rightarrow> Transaction \<Rightarrow> server \<Rightarrow> server" where
  "ClearPredicateAndWrites pe txn s =
     fold (clear_write (timestamp txn)) (map fst (table_writes txn))
       (fold (clear_pred (timestamp txn)) (record_preds pe txn) s)"

section \<open>What the predicate check guarantees\<close>

text \<open>The rows the check looks at, in the order in which it does.\<close>

fun examined ::
  "params \<Rightarrow> server \<Rightarrow> ReadPredicate \<Rightarrow> (Timestamp \<times> Transaction \<times> bool) list \<Rightarrow> (Transaction \<times> RowUpdates) list" where
  "examined pe s pred [] = []"
| "examined pe s pred ((t, txn, commit) # ws) =
     (if t = pred_table_version pred then examined pe s pred ws
      else if TStoUS (getTimestamp t) + (monotonicityGrace pe + non_monotonicityGrace pe) * 1000
                < TStoUS (getTimestamp (pred_table_version pred)) then []
      else if TStoUS (getTimestamp t) + monotonicityGrace pe * 1000
                < TStoUS (getTimestamp (pred_table_version pred)) \<and>
              (\<forall>d. txndigest txn = Some d \<longrightarrow> d \<notin> non_monotonic_writes s)
      then examined pe s pred ws
      else map (Pair txn) (case map_of (table_writes txn) (pred_table_name pred) of
                             None \<Rightarrow> [] | Some tw \<Rightarrow> tw_rows tw) @ examined pe s pred ws)"

definition seen_keys :: "pred_state \<Rightarrow> string set" where
  "seen_keys st = dom (map_of (fst st)) \<union> set (snd st)"

text \<open>The newest row of every key outside the read set does not satisfy the predicate.\<close>

definition rows_clear :: "params \<Rightarrow> ReadPredicate \<Rightarrow> string set \<Rightarrow> (Transaction \<times> RowUpdates) list \<Rightarrow> bool" where
  "rows_clear pe pred known rows \<longleftrightarrow>
     (\<forall>xs txn row ys key. rows = xs @ (txn, row) # ys \<longrightarrow> GetEncodedRow txn row = Some key \<longrightarrow>
        IsKeyOwned pe key \<longrightarrow> key \<notin> known \<longrightarrow> (\<forall>x \<in> set xs. GetEncodedRow (fst x) (snd x) \<noteq> Some key) \<longrightarrow>
        \<not> row_conflict pe pred row)"

definition row_keys :: "(Transaction \<times> RowUpdates) list \<Rightarrow> string set" where
  "row_keys rows = {key. \<exists>x \<in> set rows. GetEncodedRow (fst x) (snd x) = Some key}"

lemma rows_clear_Nil [simp]: "rows_clear pe pred known []"
  by (simp add: rows_clear_def)

lemma rows_clear_Cons:
  assumes "GetEncodedRow txn row = Some key"
    "IsKeyOwned pe key \<Longrightarrow> key \<notin> known \<Longrightarrow> \<not> row_conflict pe pred row"
    "rows_clear pe pred (insert key known) rows"
  shows "rows_clear pe pred known ((txn, row) # rows)"
  unfolding rows_clear_def
proof (intro allI impI)
  fix xs txn' row' ys key'
  assume a: "(txn, row) # rows = xs @ (txn', row') # ys" "GetEncodedRow txn' row' = Some key'"
    "IsKeyOwned pe key'" "key' \<notin> known" "\<forall>x \<in> set xs. GetEncodedRow (fst x) (snd x) \<noteq> Some key'"
  show "\<not> row_conflict pe pred row'"
  proof (cases xs)
    case Nil
    then show ?thesis using a assms(1,2) by auto
  next
    case (Cons x xs')
    then have "rows = xs' @ (txn', row') # ys" "key' \<noteq> key" using a assms(1) by auto
    then show ?thesis using assms(3) a Cons unfolding rows_clear_def by auto
  qed
qed

lemma rows_clear_append:
  assumes "rows_clear pe pred known rows" "rows_clear pe pred (known \<union> row_keys rows) rows'"
  shows "rows_clear pe pred known (rows @ rows')"
  unfolding rows_clear_def
proof (intro allI impI)
  fix xs txn row ys key
  assume a: "rows @ rows' = xs @ (txn, row) # ys" "GetEncodedRow txn row = Some key"
    "IsKeyOwned pe key" "key \<notin> known" "\<forall>x \<in> set xs. GetEncodedRow (fst x) (snd x) \<noteq> Some key"
  from a(1) consider us where "rows = xs @ us" "us @ rows' = (txn, row) # ys"
    | us where "xs = rows @ us" "rows' = us @ (txn, row) # ys"
    by (auto simp: append_eq_append_conv2)
  then show "\<not> row_conflict pe pred row"
  proof cases
    case (1 us)
    show ?thesis
    proof (cases us)
      case Nil
      then have "rows' = [] @ (txn, row) # ys" "key \<notin> known \<union> row_keys rows"
        using 1 a by (auto simp: row_keys_def)
      then show ?thesis using assms(2) a unfolding rows_clear_def by (metis empty_iff empty_set)
    next
      case (Cons u us')
      then have "rows = xs @ (txn, row) # us'" using 1 by auto
      then show ?thesis using assms(1) a unfolding rows_clear_def by blast
    qed
  next
    case (2 us)
    then have "key \<notin> known \<union> row_keys rows" "\<forall>x \<in> set us. GetEncodedRow (fst x) (snd x) \<noteq> Some key"
      using a by (auto simp: row_keys_def)
    then show ?thesis using assms(2) a 2 unfolding rows_clear_def by blast
  qed
qed

lemma rows_clear_mono: "rows_clear pe pred known rows \<Longrightarrow> known \<subseteq> known' \<Longrightarrow> rows_clear pe pred known' rows"
  unfolding rows_clear_def by blast

lemma dom_om_put: "dom (map_of (om_put k v m)) \<subseteq> insert k (dom (map_of m))"
  unfolding dom_map_of_conv_image_fst using image_mono [OF set_om_put_subset, of fst k v m] by simp

lemma pred_rows_clear:
  assumes "pred_rows pe pred reads txn d commit rows st = Some (False, st')"
  shows "rows_clear pe pred (seen_keys st \<union> set reads) (map (Pair txn) rows) \<and>
    seen_keys st' \<subseteq> seen_keys st \<union> row_keys (map (Pair txn) rows)"
  using assms
proof (induction pe pred reads txn d commit rows st rule: pred_rows.induct)
  case (2 pe pred reads txn d commit row rows cands keys)
  obtain key where k: "GetEncodedRow txn row = Some key" using 2(5) by (auto split: option.splits)
  have rk: "row_keys ((txn, row) # map (Pair txn) rows) = insert key (row_keys (map (Pair txn) rows))"
    using k by (auto simp: row_keys_def)
  let ?K = "seen_keys (cands, keys)"
  have step: ?case if "pred_rows pe pred reads txn d commit rows st2 = Some (False, st')"
      "rows_clear pe pred (seen_keys st2 \<union> set reads) (map (Pair txn) rows) \<and>
        seen_keys st' \<subseteq> seen_keys st2 \<union> row_keys (map (Pair txn) rows)"
      "seen_keys st2 \<subseteq> insert key ?K"
      "IsKeyOwned pe key \<Longrightarrow> key \<notin> ?K \<union> set reads \<Longrightarrow> \<not> row_conflict pe pred row" for st2
  proof -
    have "rows_clear pe pred (insert key (?K \<union> set reads)) (map (Pair txn) rows)"
      by (rule rows_clear_mono [OF conjunct1 [OF that(2)]]) (use that(3) in auto)
    then have "rows_clear pe pred (?K \<union> set reads) ((txn, row) # map (Pair txn) rows)"
      using that(4) by (intro rows_clear_Cons [OF k]) simp_all
    then show ?thesis using that(2,3) by (auto simp: rk)
  qed
  show ?case
  proof (cases "IsKeyOwned pe key")
    case False
    show ?thesis
      by (rule step [of "(cands, keys)"]) (use 2(1) [OF k] 2(5) k False in \<open>auto\<close>)
  next
    case own: True
    show ?thesis
    proof (cases "map_of cands key")
      case (Some c)
      obtain act cd where c: "c = (act, cd)" by (cases c)
      show ?thesis
        by (rule step [of "(if act then cands else om_put key (True, cd) cands, keys)"])
          (use 2(4) [OF k _ Some] 2(5) k own Some c
            dom_om_put [of key "(True, cd)" cands] in \<open>auto simp: seen_keys_def split: if_splits\<close>)
    next
      case None
      show ?thesis
      proof (cases "key \<in> set keys \<or> key \<in> set reads")
        case True
        show ?thesis
          by (rule step [of "(cands, keys)"])
            (use 2(2) [OF k] 2(5) k own None True in \<open>auto simp: seen_keys_def\<close>)
      next
        case False
        then have nc: "\<not> row_conflict pe pred row" using 2(5) k own None by auto
        show ?thesis
          by (rule step [of "(if commit then om_erase key cands else om_put key (False, d) cands, key # keys)"])
            (use 2(3) [OF k] 2(5) k own None False nc
            dom_om_put [of key "(False, d)" cands] in \<open>auto simp: seen_keys_def map_of_om_erase split: if_splits\<close>)
      qed
    qed
  qed
qed (simp add: row_keys_def)

lemma pred_writes_clear:
  assumes "pred_writes pe s pred reads ws st = Some (False, st')"
  shows "rows_clear pe pred (seen_keys st \<union> set reads) (examined pe s pred ws)"
  using assms
proof (induction pe s pred reads ws st rule: pred_writes.induct)
  case (2 pe s pred reads t txn commit ws st)
  let ?tv = "pred_table_version pred"
  consider (same) "t = ?tv" | (stop) "t \<noteq> ?tv" "TStoUS (getTimestamp t) +
      (monotonicityGrace pe + non_monotonicityGrace pe) * 1000 < TStoUS (getTimestamp ?tv)"
    | (go) "t \<noteq> ?tv" "\<not> TStoUS (getTimestamp t) +
      (monotonicityGrace pe + non_monotonicityGrace pe) * 1000 < TStoUS (getTimestamp ?tv)" by blast
  then show ?case
  proof cases
    case go
    have nts: "\<not> getTimestamp t \<le> 10000" using 2(4) by (auto split: if_splits)
    obtain d where d: "txndigest txn = Some d" using 2(4) go nts by (auto split: option.splits)
    show ?thesis
    proof (cases "TStoUS (getTimestamp t) + monotonicityGrace pe * 1000 < TStoUS (getTimestamp ?tv) \<and>
        d \<notin> non_monotonic_writes s")
      case True
      then show ?thesis using 2(2) [OF nts go d True] 2(4) go nts d by simp
    next
      case False
      then obtain tw st1 where tw: "map_of (table_writes txn) (pred_table_name pred) = Some tw"
        and r: "pred_rows pe pred reads txn d commit (tw_rows tw) st = Some (False, st1)"
        and w: "pred_writes pe s pred reads ws st1 = Some (False, st')"
        using 2(4) go nts d by (auto split: option.splits bool.splits if_splits)
      note pr = pred_rows_clear [OF r]
      have "rows_clear pe pred (seen_keys st1 \<union> set reads) (examined pe s pred ws)"
        using 2(3) [OF nts go d False tw r refl refl w] .
      then have "rows_clear pe pred (seen_keys st \<union> set reads \<union> row_keys (map (Pair txn) (tw_rows tw)))
          (examined pe s pred ws)"
        by (rule rows_clear_mono) (use pr in auto)
      then show ?thesis using rows_clear_append [OF conjunct1 [OF pr]] go False d tw by auto
    qed
  qed (use 2(1,4) in \<open>auto split: if_splits\<close>)
qed simp

text \<open>
  C38. An accepted scan has no unseen conflict among the writes it is checked against: for every row that the
  check examines, which is neither in the read set nor overwritten by a later examined write, the
  predicate of the scan is false.  The examined rows are those of the table writes before the
  transaction, latest first, without the oldest one.
\<close>

theorem CheckReadPred_sound:
  assumes "CheckReadPred pe ts pred reads s = Some (CC_COMMIT, active)"
    "tableWrites s (pred_table_name pred) = Some writes"
    "examined pe s pred (rev (tl (takeWhile (\<lambda>w. fst w < ts) writes))) = xs @ (txn, row) # ys"
    "GetEncodedRow txn row = Some key" "IsKeyOwned pe key" "key \<notin> set (map read_key reads)"
    "\<forall>x \<in> set xs. GetEncodedRow (fst x) (snd x) \<noteq> Some key"
  shows "\<not> row_conflict pe pred row"
proof (cases "takeWhile (\<lambda>w. fst w < ts) writes")
  case (Cons w below)
  then obtain st where "pred_writes pe s pred (map read_key reads) (rev below) ([], []) = Some (False, st)"
    using assms(1,2) by (auto simp: CheckReadPred_def bind_eq_Some_conv split: if_splits)
  from pred_writes_clear [OF this]
  have "rows_clear pe pred (set (map read_key reads)) (xs @ (txn, row) # ys)"
    using assms(3) Cons by (simp add: seen_keys_def)
  then show ?thesis using assms(4-7) unfolding rows_clear_def by blast
qed (use assms(3) in simp)


section \<open>What the table write check guarantees\<close>

definition write_conflict ::
  "params \<Rightarrow> Transaction \<Rightarrow> Timestamp \<Rightarrow> string \<Rightarrow> Transaction \<Rightarrow> RowUpdates \<Rightarrow> bool" where
  "write_conflict pe txn ts table reader row \<longleftrightarrow> row_deletion row \<noteq> Some True \<and>
     (\<exists>key. GetEncodedRow txn row = Some key \<and> IsKeyOwned pe key \<and>
        key \<notin> set (map read_key (skip_reads reader))) \<and>
     (\<exists>pred \<in> set (read_txn_preds pe reader). pred_table_name pred = table \<and> ts \<noteq> pred_table_version pred \<and>
        (\<exists>i \<in> set (pred_instances pred). EvaluatePred pe i row table))"

lemma table_rows_conflict:
  "table_rows pe txn ts table r rows = Some c \<Longrightarrow> c = (\<exists>row \<in> set rows. write_conflict pe txn ts table r row)"
proof (induction pe txn ts table r rows rule: table_rows.induct)
  case (2 pe txn ts table r row rows)
  show ?case
  proof (cases "row_deletion row = Some True")
    case True
    then show ?thesis using 2(1,4) by (simp add: write_conflict_def)
  next
    case nd: False
    obtain key where k: "GetEncodedRow txn row = Some key" using 2(4) nd by (auto split: option.splits)
    show ?thesis
    proof (cases "\<not> IsKeyOwned pe key \<or> key \<in> set (map read_key (skip_reads r))")
      case True
      then have "\<not> write_conflict pe txn ts table r row" using k by (auto simp: write_conflict_def)
      then show ?thesis using 2(2) [OF nd k True] 2(4) nd k True by auto
    next
      case no: False
      let ?P = "\<exists>pred \<in> set (read_txn_preds pe r). pred_table_name pred = table \<and> ts \<noteq> pred_table_version pred \<and>
        (\<exists>i \<in> set (pred_instances pred). EvaluatePred pe i row (pred_table_name pred))"
      have q: "query_set r \<noteq> []" using 2(4) nd k no by (auto split: if_splits)
      have wc: "write_conflict pe txn ts table r row \<longleftrightarrow> ?P"
        using nd k no by (auto simp: write_conflict_def)
      show ?thesis
      proof (cases ?P)
        case True
        then show ?thesis using 2(4) nd k no q wc by auto
      next
        case False
        then have "table_rows pe txn ts table r rows = Some c" using 2(4) nd k no q by (auto split: if_splits)
        then show ?thesis using 2(3) [OF nd k no q False] wc False by simp
      qed
    qed
  qed
qed simp

lemma table_preds_conflict:
  "table_preds pe txn ts table rows rs = Some c \<Longrightarrow>
   c = (\<exists>r \<in> set rs. \<exists>row \<in> set rows. write_conflict pe txn ts table r row)"
proof (induction pe txn ts table rows rs rule: table_preds.induct)
  case (2 pe txn ts table rows r rs)
  obtain b where b: "table_rows pe txn ts table r rows = Some b" using 2(2) by (auto split: option.splits)
  show ?case using 2 b table_rows_conflict [OF b] by (cases b) auto
qed simp


section \<open>Examples\<close>

definition eq_params :: params where
  "eq_params = kv_params\<lparr>EvaluatePred := (\<lambda>i row table. row_column_values row = [i])\<rparr>"

definition row_txn :: "string \<Rightarrow> string \<Rightarrow> Transaction" where
  "row_txn d v = empty_txn\<lparr>write_set := [mk_write ''k'' v], txndigest := Some d, table_writes :=
     [(''t'', \<lparr>tw_rows = [\<lparr>row_deletion = None, row_column_values = [v], row_write_set_idx = 0\<rparr>]\<rparr>)]\<rparr>"

definition eq_pred :: "string \<Rightarrow> ReadPredicate" where
  "eq_pred v = \<lparr>pred_table_name = ''t'', pred_table_version = Timestamp 20000 1, pred_instances = [v],
     pred_instantiations = []\<rparr>"

definition two_writes :: server where
  "two_writes = init_server\<lparr>tableWrites := [''t'' \<mapsto>
     [(Timestamp 20000 1, row_txn ''a'' ''old'', True), (Timestamp 30000 1, row_txn ''b'' ''new'', True)]]\<rparr>"

definition scan_txn :: Transaction where
  "scan_txn = empty_txn\<lparr>query_set := [\<lparr>qmd_query_id = ''q'', qmd_retry_version = 0, qmd_group_meta = []\<rparr>],
     read_predicates := [eq_pred ''new'']\<rparr>"

lemmas example_simps = eq_params_def kv_params_def row_txn_def eq_pred_def two_writes_def scan_txn_def empty_txn_def
  mk_write_def GetEncodedRow_def IsKeyOwned_def less_Timestamp_def less_eq_Timestamp_def row_conflict_def

lemma CheckReadPred_sound_witness:
  "\<exists>row. examined eq_params two_writes (eq_pred ''other'') [(Timestamp 30000 1, row_txn ''b'' ''new'', True)] =
     [(row_txn ''b'' ''new'', row)] \<and> \<not> row_conflict eq_params (eq_pred ''other'') row"
proof (intro exI conjI)
  let ?row = "\<lparr>row_deletion = None, row_column_values = [''new''], row_write_set_idx = 0\<rparr>"
  let ?p = "eq_pred ''other''" and ?w = "[(Timestamp 30000 1, row_txn ''b'' ''new'', True)]"
  have st: "takeWhile (\<lambda>w. fst w < Timestamp 40000 1)
      [(Timestamp 20000 1, row_txn ''a'' ''old'', True), (Timestamp 30000 1, row_txn ''b'' ''new'', True)] =
      (Timestamp 20000 1, row_txn ''a'' ''old'', True) # ?w"
    by (simp add: less_Timestamp_def)
  show ex: "examined eq_params two_writes ?p ?w = [(row_txn ''b'' ''new'', ?row)]"
    by (simp add: example_simps TStoUS_def)
  have "CheckReadPred eq_params (Timestamp 40000 1) ?p [] two_writes = Some (CC_COMMIT, [])"
    by (simp add: CheckReadPred_def example_simps TStoUS_def om_erase_def)
  then show "\<not> row_conflict eq_params ?p ?row"
    by (rule CheckReadPred_sound [where xs = "[]" and ys = "[]" and key = "''k''" and txn = "row_txn ''b'' ''new''"])
      (use ex in \<open>simp_all add: two_writes_def eq_pred_def st, simp_all add: example_simps\<close>)
qed


end
