(* ===== verification/Query_Merge.thy ===== *)
theory Query_Merge
  imports Semantic_CC "HOL-Library.AList"
begin

text \<open>
  The read sets of queries, \<open>store/pequinstore/concurrencycontrol.cc\<close>: a transaction that only names
  the hash of a query's read set has it fetched from the replica's cache, waits when the replica has
  not executed the query, and is merged into one read set before the concurrency check.

  The theory shows that a successful merge contains every read of every query and of the
  transaction itself, and two ways in which waiting loses information.
\<close>

section \<open>Waiting for queries\<close>

definition subscribeTxOnMissingQuery :: "string \<Rightarrow> string \<Rightarrow> server \<Rightarrow> server" where
  "subscribeTxOnMissingQuery query_id d s = s\<lparr>subscribedQuery := (subscribedQuery s)(query_id \<mapsto> d)\<rparr>"

text \<open>
  The result is the transaction whose processing resumes with its meta data, if any; the caller
  continues with \<open>TryPrepare\<close> or \<open>UpdateCommittedReads\<close>.  The entry of a transaction that is missing
  queries always points to its meta data here.
\<close>

definition wakeSubscribedTx ::
  "string \<Rightarrow> u64 \<Rightarrow> server \<Rightarrow> ((string \<times> waitingOnQueriesMeta) option \<times> server) option" where
  "wakeSubscribedTx query_id retry_version s =
     (case subscribedQuery s query_id of
        None \<Rightarrow> Some (None, s)
      | Some d \<Rightarrow>
          let s1 = s\<lparr>subscribedQuery := (subscribedQuery s)(query_id := None)\<rparr>
          in case TxnMissingQueries s1 d of
               None \<Rightarrow> Some (None, s1)
             | Some None \<Rightarrow> None
             | Some (Some waiting) \<Rightarrow>
                 (case map_of (wq_missing waiting) query_id of
                    None \<Rightarrow> Some (None, s1)
                  | Some v \<Rightarrow>
                      if v \<noteq> retry_version then Some (None, s1)
                      else
                        let waiting' = waiting\<lparr>wq_missing := filter (\<lambda>m. fst m \<noteq> query_id) (wq_missing waiting)\<rparr>;
                            s2 = s1\<lparr>TxnMissingQueries := (TxnMissingQueries s1)(d := None)\<rparr>
                        in if wq_missing waiting' \<noteq> [] then Some (None, s2)
                           else if wq_prepare_or_commit waiting' \<le> 1 then Some (Some (d, waiting'), s2)
                           else None))"

section \<open>Fetching a read set\<close>

datatype rs_source = From_Txn | From_Cache

definition fetch_cached ::
  "string \<Rightarrow> QueryResultMetaData \<Rightarrow> string \<Rightarrow> Transaction \<Rightarrow> server \<Rightarrow>
   (CCResult \<times> (rs_source \<times> ReadSet) option \<times> server) option" where
  "fetch_cached hash md d txn s =
     (let wait = Some (CC_WAIT, None, subscribeTxOnMissingQuery (qmd_query_id md) d s)
      in case queryMetaData s (qmd_query_id md) of
           None \<Rightarrow> wait
         | Some q \<Rightarrow>
             if \<not> qm_has_result q then wait
             else if qm_client_id q \<noteq> client_id txn then None
             else if qmd_retry_version md < qm_retry_version q then None
             else if qmd_retry_version md > qm_retry_version q then wait
             else (case qm_result q of
                None \<Rightarrow> None
              | Some res \<Rightarrow>
                  (case qr_query_read_set res of
                     None \<Rightarrow> Some (CC_ABSTAIN, None, s)
                   | Some rs \<Rightarrow>
                       if qm_failure q \<or> qr_query_result_hash res \<noteq> Some hash then Some (CC_ABSTAIN, None, s)
                       else Some (CC_COMMIT, Some (From_Cache, rs), s))))"

definition fetchReadSet ::
  "params \<Rightarrow> QueryResultMetaData \<Rightarrow> string \<Rightarrow> Transaction \<Rightarrow> server \<Rightarrow>
   (CCResult \<times> (rs_source \<times> ReadSet) option \<times> server) option" where
  "fetchReadSet pe md d txn s =
     (case map_of (qmd_group_meta md) (of_int (groupIdx pe)) of
        None \<Rightarrow> Some (CC_COMMIT, None, s)
      | Some g \<Rightarrow>
          (case qgm_query_read_set g of
             Some rs \<Rightarrow> Some (CC_COMMIT, Some (From_Txn, rs), s)
           | None \<Rightarrow>
               (case qgm_read_set_hash g of
                  None \<Rightarrow> Some (CC_IGNORE, None, s)
                | Some hash \<Rightarrow> fetch_cached hash md d txn s)))"

definition restoreTxn :: "Transaction \<Rightarrow> Transaction" where
  "restoreTxn txn =
     (if query_set txn = [] then txn
      else case merged_read_set txn of
             None \<Rightarrow> txn
           | Some m \<Rightarrow> txn\<lparr>read_set := rs_read_set m, merged_read_set := None\<rparr>)"

section \<open>Merging\<close>

text \<open>
  With cached read sets the predicates are moved, last one first, and one that repeats the instance of
  the predicate before it is dropped.  Reading instance 0 of a predicate without instances is undefined.
\<close>

fun move_preds :: "ReadPredicate list \<Rightarrow> ReadPredicate list \<Rightarrow> ReadPredicate list option" where
  "move_preds [] merged = Some merged"
| "move_preds (p # ps) merged =
     (if merged \<noteq> [] \<and> length (pred_instances p) = 1 then
        (case pred_instances (last merged) of
           [] \<Rightarrow> None
         | i # _ \<Rightarrow>
             if hd (pred_instances p) = i then move_preds ps merged else move_preds ps (merged @ [p]))
      else move_preds ps (merged @ [p]))"

definition merge_preds :: "params \<Rightarrow> ReadSet \<Rightarrow> ReadSet \<Rightarrow> ReadPredicate list option" where
  "merge_preds pe merged rs =
     (if \<not> cacheReadSet pe then Some (rs_read_predicates merged @ rs_read_predicates rs)
      else move_preds (rev (rs_read_predicates rs)) (rs_read_predicates merged))"

text \<open>The read set that is left behind, in the message or in the cache, when its predicates are moved.\<close>

definition strip_md :: "params \<Rightarrow> QueryResultMetaData \<Rightarrow> ReadSet \<Rightarrow> QueryResultMetaData" where
  "strip_md pe md rs = md\<lparr>qmd_group_meta := map (\<lambda>(g, m).
     if g = of_int (groupIdx pe) then (g, m\<lparr>qgm_query_read_set := Some (rs\<lparr>rs_read_predicates := []\<rparr>)\<rparr>) else (g, m))
     (qmd_group_meta md)\<rparr>"

definition strip_cache :: "string \<Rightarrow> ReadSet \<Rightarrow> server \<Rightarrow> server" where
  "strip_cache query_id rs s = s\<lparr>queryMetaData := (queryMetaData s)(query_id :=
     map_option (\<lambda>q. q\<lparr>qm_result := map_option (\<lambda>r. r\<lparr>qr_query_read_set := Some (rs\<lparr>rs_read_predicates := []\<rparr>)\<rparr>)
       (qm_result q)\<rparr>) (queryMetaData s query_id))\<rparr>"

definition merge_one ::
  "params \<Rightarrow> QueryResultMetaData \<Rightarrow> rs_source \<Rightarrow> ReadSet \<Rightarrow> ReadSet \<Rightarrow> server \<Rightarrow>
   (QueryResultMetaData \<times> ReadSet \<times> server) option" where
  "merge_one pe md src rs merged s = do {
     preds \<leftarrow> merge_preds pe merged rs;
     let merged' = \<lparr>rs_read_set = rs_read_set merged @ rs_read_set rs, rs_deps = rs_deps merged @ rs_deps rs,
                    rs_read_predicates = preds\<rparr>;
     Some (if \<not> cacheReadSet pe then (md, merged', s)
           else case src of
                  From_Txn \<Rightarrow> (strip_md pe md rs, merged', s)
                | From_Cache \<Rightarrow> (md, merged', strip_cache (qmd_query_id md) rs s))
   }"

text \<open>The loop over the queries; its first result is the verdict of the query that stopped it.\<close>

fun merge_queries ::
  "params \<Rightarrow> string \<Rightarrow> Transaction \<Rightarrow> QueryResultMetaData list \<Rightarrow> ReadSet \<Rightarrow> (string \<times> u64) list \<Rightarrow> server \<Rightarrow>
   (CCResult \<times> QueryResultMetaData list \<times> ReadSet \<times> (string \<times> u64) list \<times> server) option" where
  "merge_queries pe d txn [] merged missing s = Some (CC_COMMIT, [], merged, missing, s)"
| "merge_queries pe d txn (md # mds) merged missing s =
     (case fetchReadSet pe md d txn s of
        None \<Rightarrow> None
      | Some (res, rs, s1) \<Rightarrow>
          if res = CC_WAIT then do {
            (r, mds', m, mi, s2) \<leftarrow> merge_queries pe d txn mds merged
               (missing @ [(qmd_query_id md, qmd_retry_version md)]) s1;
            Some (r, md # mds', m, mi, s2)
          }
          else if res \<noteq> CC_COMMIT then Some (res, md # mds, merged, missing, s1)
          else (case rs of
             Some (src, rs) \<Rightarrow>
               if missing = [] then do {
                 (md', merged', s2) \<leftarrow> merge_one pe md src rs merged s1;
                 (r, mds', m, mi, s3) \<leftarrow> merge_queries pe d txn mds merged' missing s2;
                 Some (r, md' # mds', m, mi, s3)
               }
               else do {
                 (r, mds', m, mi, s2) \<leftarrow> merge_queries pe d txn mds merged missing s1;
                 Some (r, md # mds', m, mi, s2)
               }
           | None \<Rightarrow> do {
               (r, mds', m, mi, s2) \<leftarrow> merge_queries pe d txn mds merged missing s1;
               Some (r, md # mds', m, mi, s2)
             }))"

text \<open>
  \<open>std::sort\<close> by key and \<open>std::unique\<close>.  The order \<open>std::sort\<close> leaves between reads of one key at
  different versions is not specified; here it is the order of the list.
\<close>

fun unique_by :: "('a \<Rightarrow> 'a \<Rightarrow> bool) \<Rightarrow> 'a list \<Rightarrow> 'a list" where
  "unique_by eq [] = []"
| "unique_by eq [x] = [x]"
| "unique_by eq (x # y # xs) = (if eq x y then unique_by eq (x # xs) else x # unique_by eq (y # xs))"

definition equalReadMsg :: "ReadMessage \<Rightarrow> ReadMessage \<Rightarrow> bool" where
  "equalReadMsg l r \<longleftrightarrow> read_key l = read_key r \<and> readtime l = readtime r"

definition equalDep :: "Dependency \<Rightarrow> Dependency \<Rightarrow> bool" where
  "equalDep l r \<longleftrightarrow> dep_id l = dep_id r \<and> dep_involved_group l = dep_involved_group r"

definition finish_merge :: "params \<Rightarrow> Transaction \<Rightarrow> ReadSet \<Rightarrow> ReadSet" where
  "finish_merge pe txn merged =
     (let new_reads = rs_read_set merged \<noteq> [];
          rs = rs_read_set merged @ read_set txn;
          ds = rs_deps merged @ deps txn
      in merged\<lparr>rs_read_set := (if parallel_CCC pe \<and> new_reads then unique_by equalReadMsg (sort_key read_key rs) else rs),
                rs_deps := (if new_reads
                            then unique_by equalDep (sort_key (\<lambda>x. (dep_id x, dep_involved_group x)) ds) else ds)\<rparr>)"

text \<open>
  The sets the concurrency check works on, the transaction with its merged read set, and the new
  state.  The transaction object of a phase-1 request is the one that is ongoing.
\<close>

record merge_args =
  ma_prepare_or_commit :: nat
  ma_reqId :: u64
  ma_remote :: "remote option"
  ma_isGossip :: bool
  ma_proof :: "CommittedProof option"

record merge_out =
  mo_result :: CCResult
  mo_readSet :: "ReadMessage list"
  mo_depSet :: "Dependency list"
  mo_predSet :: "ReadPredicate list"
  mo_txn :: Transaction

definition base_sets :: "CCResult \<Rightarrow> Transaction \<Rightarrow> merge_out" where
  "base_sets res txn = \<lparr>mo_result = res, mo_readSet = read_set txn, mo_depSet = deps txn,
     mo_predSet = read_predicates txn, mo_txn = txn\<rparr>"

definition merged_sets :: "ReadSet \<Rightarrow> Transaction \<Rightarrow> merge_out" where
  "merged_sets m txn = \<lparr>mo_result = CC_COMMIT, mo_readSet = rs_read_set m, mo_depSet = rs_deps m,
     mo_predSet = rs_read_predicates m, mo_txn = txn\<rparr>"

definition wait_entry :: "merge_args \<Rightarrow> Transaction \<Rightarrow> (string \<times> u64) list \<Rightarrow> waitingOnQueriesMeta" where
  "wait_entry a txn missing =
     \<lparr>wq_missing = fold (\<lambda>(q, v) m. AList.update q v m) missing [],
      wq_prepare_or_commit = ma_prepare_or_commit a, wq_isGossip = ma_isGossip a, wq_reqId = ma_reqId a,
      wq_remote = ma_remote a, wq_txn = txn, wq_proof = ma_proof a\<rparr>"

text \<open>A waiting transaction is upgraded to commit; its proof is assigned to itself.\<close>

definition setToCommit :: "waitingOnQueriesMeta \<Rightarrow> waitingOnQueriesMeta" where
  "setToCommit w = w\<lparr>wq_prepare_or_commit := 1\<rparr>"

definition mergeTxReadSets ::
  "params \<Rightarrow> merge_args \<Rightarrow> string \<Rightarrow> Transaction \<Rightarrow> server \<Rightarrow> (merge_out \<times> server) option" where
  "mergeTxReadSets pe a d txn s =
     (if (\<not> cacheReadSet pe \<and> mergeActiveAtClient pe) \<or> query_set txn = [] then Some (base_sets CC_COMMIT txn, s)
      else case merged_read_set txn of
        Some m \<Rightarrow> Some (merged_sets m txn, s)
      | None \<Rightarrow>
        (case TxnMissingQueries s d of
           Some None \<Rightarrow> None
         | Some (Some w) \<Rightarrow>
             Some (base_sets CC_WAIT txn,
                   if ma_prepare_or_commit a = 1
                   then s\<lparr>TxnMissingQueries := (TxnMissingQueries s)(d \<mapsto> Some (setToCommit w))\<rparr> else s)
         | None \<Rightarrow> do {
             (res, qs, merged, missing, s1) \<leftarrow> merge_queries pe d txn (query_set txn)
                \<lparr>rs_read_set = [], rs_deps = [], rs_read_predicates = []\<rparr> [] s;
             let txn1 = txn\<lparr>query_set := qs\<rparr>;
             Some (if res \<noteq> CC_COMMIT then (base_sets res txn1, s1)
                   else if missing \<noteq> [] then
                     (base_sets CC_WAIT txn1,
                      s1\<lparr>TxnMissingQueries := (TxnMissingQueries s1)(d \<mapsto> Some (wait_entry a txn1 missing))\<rparr>)
                   else if rs_read_set merged = [] \<and> rs_read_predicates merged = [] then (base_sets CC_COMMIT txn1, s1)
                   else let m = finish_merge pe txn1 merged
                        in (merged_sets m (txn1\<lparr>merged_read_set := Some m\<rparr>), s1))
           }))"

section \<open>A merge is complete\<close>

definition reads_of :: "ReadMessage list \<Rightarrow> (string \<times> Timestamp) set" where
  "reads_of rs = (\<lambda>r. (read_key r, readtime r)) ` set rs"

lemma reads_of_simps [simp]:
  "reads_of [] = {}" "reads_of (xs @ ys) = reads_of xs \<union> reads_of ys"
  "reads_of (x # xs) = insert (read_key x, readtime x) (reads_of xs)" "reads_of (sort_key f xs) = reads_of xs"
  by (auto simp: reads_of_def)

lemma reads_of_unique [simp]: "reads_of (unique_by equalReadMsg xs) = reads_of xs"
  by (induction "equalReadMsg" xs rule: unique_by.induct) (auto simp: equalReadMsg_def)

definition cached_rs :: "server \<Rightarrow> string \<Rightarrow> ReadSet option" where
  "cached_rs s query_id =
     Option.bind (Option.bind (queryMetaData s query_id) qm_result) qr_query_read_set"

text \<open>What this replica's group has read for a query: in the message, or else in the cache.\<close>

definition query_rs :: "params \<Rightarrow> server \<Rightarrow> QueryResultMetaData \<Rightarrow> ReadSet option" where
  "query_rs pe s md = Option.bind (map_of (qmd_group_meta md) (of_int (groupIdx pe)))
     (\<lambda>g. case qgm_query_read_set g of Some rs \<Rightarrow> Some rs | None \<Rightarrow> cached_rs s (qmd_query_id md))"

definition query_reads :: "params \<Rightarrow> server \<Rightarrow> QueryResultMetaData \<Rightarrow> (string \<times> Timestamp) set" where
  "query_reads pe s md = (case query_rs pe s md of None \<Rightarrow> {} | Some rs \<Rightarrow> reads_of (rs_read_set rs))"

lemma fetchReadSet_commit:
  assumes "fetchReadSet pe md d txn s = Some (CC_COMMIT, x, s1)"
  shows "s1 = s" "query_rs pe s md = map_option snd x"
    "x = Some (From_Cache, rs) \<Longrightarrow> cached_rs s (qmd_query_id md) = Some rs"
  using assms by (auto simp: fetchReadSet_def fetch_cached_def query_rs_def cached_rs_def Let_def
      split: option.splits if_splits)

lemma fetchReadSet_wait:
  "fetchReadSet pe md d txn s = Some (CC_WAIT, x, s1) \<Longrightarrow> queryMetaData s1 = queryMetaData s"
  by (auto simp: fetchReadSet_def fetch_cached_def subscribeTxOnMissingQuery_def Let_def
      split: option.splits if_splits)

lemma cached_rs_strip:
  "cached_rs s i = Some rs \<Longrightarrow> map_option rs_read_set (cached_rs (strip_cache i rs s) j) = map_option rs_read_set (cached_rs s j)"
  by (auto simp: cached_rs_def strip_cache_def bind_eq_Some_conv)

lemma query_reads_alt:
  "query_reads pe s md = (case map_of (qmd_group_meta md) (of_int (groupIdx pe)) of
     None \<Rightarrow> {}
   | Some g \<Rightarrow> (case qgm_query_read_set g of
       Some rs \<Rightarrow> reads_of (rs_read_set rs)
     | None \<Rightarrow> (case map_option rs_read_set (cached_rs s (qmd_query_id md)) of None \<Rightarrow> {} | Some r \<Rightarrow> reads_of r)))"
  by (auto simp: query_reads_def query_rs_def split: option.splits)

lemma query_reads_cong:
  "(\<And>i. map_option rs_read_set (cached_rs s' i) = map_option rs_read_set (cached_rs s i)) \<Longrightarrow>
   query_reads pe s' = query_reads pe s"
  by (rule ext) (simp only: query_reads_alt)

lemma merge_one_reads:
  assumes "merge_one pe md src rs merged s = Some (md', merged', s')"
    "src = From_Cache \<Longrightarrow> cached_rs s (qmd_query_id md) = Some rs"
  shows "reads_of (rs_read_set merged') = reads_of (rs_read_set merged) \<union> reads_of (rs_read_set rs)"
    "query_reads pe s' = query_reads pe s"
  using assms cached_rs_strip [of s "qmd_query_id md" rs]
  by (auto simp: merge_one_def bind_eq_Some_conv Let_def split: if_splits rs_source.splits intro!: query_reads_cong)

lemma merge_queries_complete:
  "merge_queries pe d txn mds merged missing s = Some (CC_COMMIT, qs, m, [], s') \<Longrightarrow>
   missing = [] \<and> reads_of (rs_read_set m) = reads_of (rs_read_set merged) \<union> (\<Union>md \<in> set mds. query_reads pe s md)"
proof (induction pe d txn mds merged missing s arbitrary: qs rule: merge_queries.induct)
  case (2 pe d txn md mds merged missing s)
  obtain res x s1 where f: "fetchReadSet pe md d txn s = Some (res, x, s1)"
    using 2(5) by (auto split: option.splits)
  have "res \<noteq> CC_WAIT"
    using 2(1) [OF f refl refl] 2(5) f by (auto simp: bind_eq_Some_conv)
  with 2(5) f have res: "res = CC_COMMIT" by (auto split: if_splits)
  note fc = fetchReadSet_commit [OF f [unfolded res]]
  show ?case
  proof (cases x)
    case None
    then show ?thesis using 2(2) [OF f refl refl] 2(5) f res fc
      by (auto simp: bind_eq_Some_conv query_reads_def)
  next
    case (Some y)
    obtain src rs where y: "y = (src, rs)" by (cases y)
    have "missing = []"
    proof (rule ccontr)
      assume "missing \<noteq> []"
      then show False using 2(4) [OF f refl refl _ _ Some [unfolded y] refl] 2(5) f res Some y by (auto simp: bind_eq_Some_conv)
    qed
    then obtain md' merged' s2 qs' where o: "merge_one pe md src rs merged s = Some (md', merged', s2)"
      and r: "merge_queries pe d txn mds merged' [] s2 = Some (CC_COMMIT, qs', m, [], s')"
      using 2(5) f res Some y fc(1) by (auto simp: bind_eq_Some_conv)
    have q: "query_reads pe s md = reads_of (rs_read_set rs)" using fc(2) Some y by (simp add: query_reads_def)
    note mo = merge_one_reads [OF o]
    have "reads_of (rs_read_set m) = reads_of (rs_read_set merged') \<union> (\<Union>md \<in> set mds. query_reads pe s2 md)"
      using 2(3) [OF f refl refl _ _ Some [unfolded y] refl \<open>missing = []\<close>] o r res fc(1) \<open>missing = []\<close> by auto
    then show ?thesis using mo fc(3) Some y q \<open>missing = []\<close> by auto
  qed
qed simp

text \<open>
  C7. The concurrency check of a transaction with queries sees all its reads: when the merge succeeds, the
  keys and versions it yields are exactly those of the transaction's own read set and of the read set
  of each of its queries at this replica.
\<close>

theorem mergeTxReadSets_complete:
  assumes "mergeTxReadSets pe a d txn s = Some (out, s')" "mo_result out = CC_COMMIT"
    "cacheReadSet pe \<or> \<not> mergeActiveAtClient pe" "merged_read_set txn = None"
  shows "reads_of (mo_readSet out) = reads_of (read_set txn) \<union> (\<Union>md \<in> set (query_set txn). query_reads pe s md)"
proof (cases "query_set txn = []")
  case True
  then show ?thesis using assms by (auto simp: mergeTxReadSets_def base_sets_def)
next
  case False
  let ?e = "\<lparr>rs_read_set = [], rs_deps = [], rs_read_predicates = []\<rparr>"
  obtain res qs m missing s1 where g: "merge_queries pe d txn (query_set txn) ?e [] s = Some (res, qs, m, missing, s1)"
    and o: "(out, s') = (if res \<noteq> CC_COMMIT then (base_sets res (txn\<lparr>query_set := qs\<rparr>), s1)
       else if missing \<noteq> [] then (base_sets CC_WAIT (txn\<lparr>query_set := qs\<rparr>),
         s1\<lparr>TxnMissingQueries := (TxnMissingQueries s1)(d \<mapsto> Some (wait_entry a (txn\<lparr>query_set := qs\<rparr>) missing))\<rparr>)
       else if rs_read_set m = [] \<and> rs_read_predicates m = [] then (base_sets CC_COMMIT (txn\<lparr>query_set := qs\<rparr>), s1)
       else let m' = finish_merge pe (txn\<lparr>query_set := qs\<rparr>) m
            in (merged_sets m' (txn\<lparr>query_set := qs, merged_read_set := Some m'\<rparr>), s1))"
    using assms False by (auto simp: mergeTxReadSets_def bind_eq_Some_conv Let_def base_sets_def
        split: option.splits if_splits)
  have c: "res = CC_COMMIT" "missing = []" using o assms(2) by (auto simp: base_sets_def split: if_splits)
  have "reads_of (rs_read_set m) = (\<Union>md \<in> set (query_set txn). query_reads pe s md)"
    using merge_queries_complete [OF g [unfolded c]] by simp
  then show ?thesis
    using o c by (auto simp: base_sets_def merged_sets_def finish_merge_def Let_def split: if_splits)
qed

section \<open>What waiting loses\<close>

text \<open>
  C8. A transaction that waits for two queries never resumes: the first query to finish removes the
  transaction's entry although another query is missing, so no later query wakes it.
\<close>

theorem wakeSubscribedTx_forgets:
  assumes "subscribedQuery s q = Some d" "TxnMissingQueries s d = Some (Some w)"
    "map_of (wq_missing w) q = Some v" "q' \<noteq> q" "map_of (wq_missing w) q' \<noteq> None"
    "subscribedQuery s q' = Some d"
  shows "\<exists>s1. wakeSubscribedTx q v s = Some (None, s1) \<and> TxnMissingQueries s1 d = None \<and>
    (\<forall>v'. \<exists>s2. wakeSubscribedTx q' v' s1 = Some (None, s2) \<and> subscribedQuery s2 q' = None)"
proof -
  have "filter (\<lambda>m. fst m \<noteq> q) (wq_missing w) \<noteq> []"
    using assms(4,5) by (force simp: filter_empty_conv dest!: map_of_SomeD)
  then show ?thesis using assms by (simp add: wakeSubscribedTx_def Let_def)
qed

definition wait_two :: server where
  "wait_two = init_server\<lparr>subscribedQuery := [''q1'' \<mapsto> ''t'', ''q2'' \<mapsto> ''t''],
     TxnMissingQueries := [''t'' \<mapsto> Some \<lparr>wq_missing = [(''q1'', 0), (''q2'', 0)], wq_prepare_or_commit = 0,
       wq_isGossip = False, wq_reqId = 1, wq_remote = Some ''client'', wq_txn = empty_txn, wq_proof = None\<rparr>]\<rparr>"

lemma wakeSubscribedTx_forgets_witness:
  "\<exists>s1. wakeSubscribedTx ''q1'' 0 wait_two = Some (None, s1) \<and> TxnMissingQueries s1 ''t'' = None \<and>
    (\<forall>v'. \<exists>s2. wakeSubscribedTx ''q2'' v' s1 = Some (None, s2) \<and> subscribedQuery s2 ''q2'' = None)"
  by (rule wakeSubscribedTx_forgets [of _ _ "''t''" "the (the (TxnMissingQueries wait_two ''t''))"])
    (simp_all add: wait_two_def)

definition cache_params :: params where
  "cache_params = kv_params\<lparr>cacheReadSet := True\<rparr>"

definition hash_query :: "string \<Rightarrow> QueryResultMetaData" where
  "hash_query q = \<lparr>qmd_query_id = q, qmd_retry_version = 0,
     qmd_group_meta = [(0, \<lparr>qgm_read_set_hash = Some ''h'', qgm_query_read_set = None\<rparr>)]\<rparr>"

definition cached_query :: "ReadPredicate list \<Rightarrow> QueryMetaData" where
  "cached_query ps = \<lparr>qm_failure = False, qm_client_id = 0, qm_ts = Timestamp 20000 0, qm_retry_version = 0,
     qm_has_result = True, qm_result = Some \<lparr>qr_query_result_hash = Some ''h'', qr_query_read_set =
       Some \<lparr>rs_read_set = [mk_read ''k'' (Timestamp 15000 1)], rs_deps = [], rs_read_predicates = ps\<rparr>\<rparr>\<rparr>"

definition p1_args :: merge_args where
  "p1_args = \<lparr>ma_prepare_or_commit = 0, ma_reqId = 1, ma_remote = Some ''client'', ma_isGossip = False, ma_proof = None\<rparr>"

lemmas merge_example_simps = mergeTxReadSets_def cache_params_def hash_query_def cached_query_def p1_args_def kv_params_def
  empty_txn_def fetchReadSet_def fetch_cached_def merge_one_def merge_preds_def strip_cache_def mk_read_def
  finish_merge_def merged_sets_def base_sets_def Let_def init_server_def subscribeTxOnMissingQuery_def
  eq_pred_def wait_entry_def

lemma mergeTxReadSets_complete_witness:
  "\<exists>out s'. mergeTxReadSets cache_params p1_args ''t''
      (empty_txn\<lparr>query_set := [hash_query ''q1''], read_set := [mk_read ''a'' (Timestamp 12000 1)]\<rparr>)
      (init_server\<lparr>queryMetaData := [''q1'' \<mapsto> cached_query []]\<rparr>) = Some (out, s') \<and>
    reads_of (mo_readSet out) = {(''a'', Timestamp 12000 1), (''k'', Timestamp 15000 1)}"
proof -
  let ?t = "empty_txn\<lparr>query_set := [hash_query ''q1''], read_set := [mk_read ''a'' (Timestamp 12000 1)]\<rparr>"
  let ?s = "init_server\<lparr>queryMetaData := [''q1'' \<mapsto> cached_query []]\<rparr>"
  obtain out s' where m: "mergeTxReadSets cache_params p1_args ''t'' ?t ?s = Some (out, s')" "mo_result out = CC_COMMIT"
    by (simp add: merge_example_simps)
  have "query_reads cache_params ?s (hash_query ''q1'') = {(''k'', Timestamp 15000 1)}"
    by (simp add: query_reads_alt cached_rs_def merge_example_simps)
  then show ?thesis
    using m mergeTxReadSets_complete [OF m] by (auto simp: cache_params_def empty_txn_def mk_read_def)
qed

text \<open>
  A query whose predicates were merged while another query was missing has none left: after the wait
  the scan of the first query is checked without its predicate.
\<close>

lemma merge_after_wait_drops_predicates:
  "\<exists>o1 s1 o2 s2. mergeTxReadSets cache_params p1_args ''t'' (empty_txn\<lparr>query_set := [hash_query ''q1'', hash_query ''q2'']\<rparr>)
      (init_server\<lparr>queryMetaData := [''q1'' \<mapsto> cached_query [eq_pred ''v'']]\<rparr>) = Some (o1, s1) \<and>
    mo_result o1 = CC_WAIT \<and>
    mergeTxReadSets cache_params p1_args ''t'' (mo_txn o1)
      (s1\<lparr>TxnMissingQueries := Map.empty, queryMetaData := (queryMetaData s1)(''q2'' \<mapsto> cached_query [])\<rparr>) = Some (o2, s2) \<and>
    mo_result o2 = CC_COMMIT \<and> mo_predSet o2 = []"
  by (simp add: merge_example_simps)

end
