(* ===== verification/Commit.thy ===== *)
theory Commit
  imports Query_Merge
begin

text \<open>
  Committing and aborting a transaction, \<open>store/pequinstore/server.cc\<close>, and the materialisation of its
  table writes, \<open>querysync-servertools.cc\<close>.  Table writes are applied by a job on another thread
  (\<open>ASYNC_WRITES\<close>); the job is an effect of the commit and \<open>commit_job\<close> and \<open>prepare_job\<close> are what it does.

  That the operations keep the indexes of the concurrency control is shown in \<open>Replica_Index\<close>.
\<close>

section \<open>Materialisation\<close>

text \<open>Whether a table write has a row of this shard is decided by the table store.\<close>

fun apply_tables ::
  "params \<Rightarrow> Timestamp \<Rightarrow> string \<Rightarrow> CommittedProof option \<Rightarrow> bool \<Rightarrow> bool \<Rightarrow> (string \<times> TableWrite) list \<Rightarrow>
   server \<Rightarrow> string list \<times> server" where
  "apply_tables pe ts d proof commit force [] s = ([], s)"
| "apply_tables pe ts d proof commit force ((table, tw) # tws) s =
     (let s1 = emit (Table_Apply table tw ts d proof commit force) s
      in if has_local_writes pe table tw then
           let (enc, name) = EncodeTable table (table_encoder s1);
               (names, s2) = apply_tables pe ts d proof commit force tws (s1\<lparr>table_encoder := enc\<rparr>)
           in (name # names, s2)
         else apply_tables pe ts d proof commit force tws s1)"

definition ApplyTableWrites ::
  "params \<Rightarrow> Transaction \<Rightarrow> Timestamp \<Rightarrow> string \<Rightarrow> CommittedProof option \<Rightarrow> bool \<Rightarrow> bool \<Rightarrow> server \<Rightarrow>
   (string list \<times> server) option" where
  "ApplyTableWrites pe txn ts d proof commit force s = do {
     s1 \<leftarrow> RegisterTxTS pe d txn s;
     let (tables, s2) = apply_tables pe ts d proof commit force (table_writes txn) s1;
     let s3 = s2\<lparr>materialized := insert d (materialized s2)\<rparr>;
     s4 \<leftarrow> CheckWaitingQueries pe d (getTimestamp ts) (getID ts) False 0 s3;
     Some (tables, s4)
   }"

definition prepare_job :: "params \<Rightarrow> Transaction \<Rightarrow> Timestamp \<Rightarrow> string \<Rightarrow> server \<Rightarrow> server option" where
  "prepare_job pe txn ts d s = do {
     (tables, s1) \<leftarrow> ApplyTableWrites pe txn ts d None False False s;
     Some (fold (\<lambda>table s. s\<lparr>preparedWrites := (preparedWrites s)
       (table \<mapsto> om_insert ts txn (lookup_list (preparedWrites s) table))\<rparr>) tables s1)
   }"

definition commit_job ::
  "params \<Rightarrow> Transaction \<Rightarrow> Timestamp \<Rightarrow> string \<Rightarrow> CommittedProof option \<Rightarrow> server \<Rightarrow> server option" where
  "commit_job pe txn ts d proof s = do {
     (tables, s1) \<leftarrow> ApplyTableWrites pe txn ts d proof True False s;
     Some (fold (\<lambda>table s. s\<lparr>store := vs_put table \<lparr>val_val = [], val_proof = proof\<rparr> ts (store s)\<rparr>) tables s1)
   }"

definition ForceMaterialization :: "params \<Rightarrow> CCResult \<Rightarrow> string \<Rightarrow> Transaction \<Rightarrow> server \<Rightarrow> server option" where
  "ForceMaterialization pe result d txn s =
     (if result = CC_COMMIT \<or> result = CC_WAIT \<or> result = CC_ABORT \<or> result = CC_IGNORE then Some s
      else map_option snd (ApplyTableWrites pe txn (timestamp txn) d None False True s))"

definition RegisterForceMaterialization :: "params \<Rightarrow> string \<Rightarrow> Transaction \<Rightarrow> server \<Rightarrow> (bool \<times> server) option" where
  "RegisterForceMaterialization pe d txn s =
     (let c = p1_meta s d
      in if p1_hasP1 c \<and> \<not> p1_alreadyForceMaterialized c then do {
           result \<leftarrow> p1_result c;
           s' \<leftarrow> ForceMaterialization pe result d txn
             (s\<lparr>p1MetaData := (p1MetaData s)(d \<mapsto> c\<lparr>p1_alreadyForceMaterialized := True\<rparr>)\<rparr>);
           Some (False, s')
         }
         else Some (True, s\<lparr>p1MetaData := (p1MetaData s)(d \<mapsto> c\<lparr>p1_forceMaterialize := True\<rparr>)\<rparr>))"

section \<open>Committing\<close>

definition commit_args :: "CommittedProof option \<Rightarrow> merge_args" where
  "commit_args proof = \<lparr>ma_prepare_or_commit = 1, ma_reqId = 0, ma_remote = None, ma_isGossip = False, ma_proof = proof\<rparr>"

definition commit_read ::
  "params \<Rightarrow> Timestamp \<Rightarrow> CommittedProof option \<Rightarrow> ReadMessage \<Rightarrow> server \<Rightarrow> server" where
  "commit_read pe ts proof r s =
     (if read_is_table_col_version r \<or> \<not> IsKeyOwned pe (read_key r) then s
      else s\<lparr>committedReads := (committedReads s)
               (read_key r \<mapsto> om_insert (ts, readtime r) proof (lookup_list (committedReads s) (read_key r)))\<rparr>)"

text \<open>The proof holds the transaction, so a merged read set shows up in it.\<close>

definition UpdateCommittedReads ::
  "params \<Rightarrow> Transaction \<Rightarrow> string \<Rightarrow> Timestamp \<Rightarrow> CommittedProof option \<Rightarrow> server \<Rightarrow>
   (Transaction \<times> CommittedProof option \<times> server) option" where
  "UpdateCommittedReads pe txn d ts proof s = do {
     (out, s1) \<leftarrow> mergeTxReadSets pe (commit_args proof) d txn s;
     let proof' = map_option (\<lambda>p. p\<lparr>cp_txn := mo_txn out\<rparr>) proof;
     Some (mo_txn out, proof', fold (commit_read pe ts proof') (mo_readSet out) s1)
   }"

definition commit_rts :: "params \<Rightarrow> string \<Rightarrow> Timestamp \<Rightarrow> server \<Rightarrow> server" where
  "commit_rts pe key ts s =
     (if rtsMode pe = 2
      then s\<lparr>rts_list := (rts_list s)(key \<mapsto> takeWhile (\<lambda>p. fst p < ts) (lookup_list (rts_list s) key))\<rparr>
      else s)"

text \<open>
  The value is shared by all writes: a write without a value stores that of the write before it.
\<close>

fun commit_writes ::
  "params \<Rightarrow> Transaction \<Rightarrow> Timestamp \<Rightarrow> WriteMessage list \<Rightarrow> Value \<Rightarrow> server \<Rightarrow> server option" where
  "commit_writes pe txn ts [] val s = Some s"
| "commit_writes pe txn ts (w # ws) val s =
     (if write_is_table_col_version w \<or> \<not> IsKeyOwned pe (write_key w) then commit_writes pe txn ts ws val s
      else if write_value w = None \<and> \<not> sql_mode pe then None
      else if txndigest txn = None then None
      else
        let val' = (case write_value w of None \<Rightarrow> val | Some v \<Rightarrow> val\<lparr>val_val := v\<rparr>);
            s1 = s\<lparr>store := vs_put (write_key w) val' ts (store s)\<rparr>
        in commit_writes pe txn ts ws val' (commit_rts pe (write_key w) ts s1))"

definition CommitToStore ::
  "params \<Rightarrow> CommittedProof option \<Rightarrow> Transaction \<Rightarrow> string \<Rightarrow> Timestamp \<Rightarrow> server \<Rightarrow>
   (Transaction \<times> CommittedProof option \<times> server) option" where
  "CommitToStore pe proof txn d ts s = do {
     (txn', proof', s1) \<leftarrow> UpdateCommittedReads pe txn d ts proof s;
     s2 \<leftarrow> commit_writes pe txn' ts (write_set txn') \<lparr>val_val = [], val_proof = proof'\<rparr> s1;
     s3 \<leftarrow> (if useSemanticCC pe then RecordReadPredicatesAndWrites pe txn' ts True s2 else Some s2);
     Some (txn', proof', emit (Job_ApplyTableWrites txn' ts d proof' True) s3)
   }"

text \<open>The part that \<open>Commit\<close> and \<open>CommitWithProof\<close> share.\<close>

definition commit_txn ::
  "params \<Rightarrow> string \<Rightarrow> Transaction \<Rightarrow> CommittedProof option \<Rightarrow> server \<Rightarrow> server option" where
  "commit_txn pe d txn proof s =
     (if committed s d \<noteq> None then Some s
      else do {
        (txn', proof', s1) \<leftarrow> CommitToStore pe proof txn d (timestamp txn)
           (s\<lparr>committed := (committed s)(d \<mapsto> proof)\<rparr>);
        let s2 = s1\<lparr>committed := (committed s1)(d \<mapsto> proof')\<rparr>;
        s3 \<leftarrow> Clean pe d False False s2;
        s4 \<leftarrow> CheckDependents pe d s3;
        CleanQueries pe txn' (CleanDependencies d s4)
      })"

definition commit_proof :: "params \<Rightarrow> Transaction \<Rightarrow> GroupedSignatures \<Rightarrow> bool \<Rightarrow> u64 \<Rightarrow> CommittedProof option" where
  "commit_proof pe txn groupedSigs p1Sigs view =
     (if validateProofs pe
      then Some \<lparr>cp_txn = txn,
             cp_sigs = (if \<not> signedMessages pe then No_sigs
                        else if p1Sigs then P1_sigs groupedSigs else P2_sigs groupedSigs),
             cp_p2_view = (if signedMessages pe \<and> \<not> p1Sigs then Some view else None)\<rparr>
      else None)"

definition Commit_txn ::
  "params \<Rightarrow> string \<Rightarrow> Transaction \<Rightarrow> GroupedSignatures \<Rightarrow> bool \<Rightarrow> u64 \<Rightarrow> server \<Rightarrow> server option" where
  "Commit_txn pe d txn groupedSigs p1Sigs view s =
     commit_txn pe d txn (commit_proof pe txn groupedSigs p1Sigs view) s"

definition CommitWithProof :: "params \<Rightarrow> string \<Rightarrow> CommittedProof \<Rightarrow> server \<Rightarrow> server option" where
  "CommitWithProof pe d proof s = commit_txn pe d (cp_txn proof) (Some proof) s"

section \<open>Aborting\<close>

text \<open>
  The last argument of the call of \<open>CheckWaitingQueries\<close> is bound to \<open>non_blocking\<close>, so both wake-ups run
  whether or not the transaction had been materialised.
\<close>

definition Abort :: "params \<Rightarrow> string \<Rightarrow> Transaction \<Rightarrow> server \<Rightarrow> server option" where
  "Abort pe d txn s = do {
     s1 \<leftarrow> Clean pe d True False (s\<lparr>aborted := insert d (aborted s)\<rparr>);
     s2 \<leftarrow> CheckDependents pe d s1;
     let s3 = ClearRTS pe (map read_key (read_set txn)) (timestamp txn) (CleanDependencies d s2);
     s4 \<leftarrow> CleanQueries pe txn s3;
     let s5 = (if useSemanticCC pe then ClearPredicateAndWrites pe txn s4 else s4);
     let s6 = s5\<lparr>materialized := insert d (materialized s5)\<rparr>;
     CheckWaitingQueries pe d (getTimestamp (timestamp txn)) (getID (timestamp txn)) True 0 s6
   }"

section \<open>Loading\<close>

definition Load :: "string \<Rightarrow> string \<Rightarrow> Timestamp \<Rightarrow> server \<Rightarrow> server option" where
  "Load key value ts s =
     (case committed s [] of
        None \<Rightarrow> None
      | Some proof \<Rightarrow> Some (s\<lparr>store := vs_put key \<lparr>val_val = value, val_proof = proof\<rparr> ts (store s)\<rparr>))"

end
