(* ===== verification/Concurrency_Control.thy ===== *)
theory Concurrency_Control
  imports Commit Locking
begin

text \<open>
  The concurrency check of a replica, \<open>store/pequinstore/concurrencycontrol.cc\<close> (\<open>DoOCCCheck\<close>,
  \<open>DoMVTSOOCCCheck\<close>, \<open>DoTAPIROCCCheck\<close>), and \<open>Prepare\<close> of \<open>server.cc\<close>.  The clock reading is an argument.
  The switch \<open>simulate_inconsistency\<close>, which drops prepares in experiments, is off.

  An entry that \<open>operator[]\<close> creates empty in \<open>rts_list\<close> is not distinguished from a missing one.
\<close>

section \<open>Preparing\<close>

definition prepare_read :: "params \<Rightarrow> string \<Rightarrow> Transaction \<Rightarrow> ReadMessage \<Rightarrow> server \<Rightarrow> server" where
  "prepare_read pe d txn r s =
     (if read_is_table_col_version r \<or> \<not> IsKeyOwned pe (read_key r) then s
      else s\<lparr>preparedReads := (preparedReads s)
               (read_key r \<mapsto> om_insert d txn (lookup_list (preparedReads s) (read_key r)))\<rparr>)"

definition prepare_write :: "params \<Rightarrow> Timestamp \<Rightarrow> Transaction \<Rightarrow> WriteMessage \<Rightarrow> server \<Rightarrow> server" where
  "prepare_write pe ts txn w s =
     (if write_is_table_col_version w \<or> \<not> IsKeyOwned pe (write_key w) then s
      else s\<lparr>preparedWrites := (preparedWrites s)
               (write_key w \<mapsto> om_insert ts txn (lookup_list (preparedWrites s) (write_key w)))\<rparr>)"

definition Prepare :: "params \<Rightarrow> string \<Rightarrow> Transaction \<Rightarrow> ReadMessage list \<Rightarrow> server \<Rightarrow> server option" where
  "Prepare pe d txn readSet s =
     (let ts = timestamp txn
      in case ongoing s d of
           None \<Rightarrow> Some s
         | Some og \<Rightarrow>
             if txndigest (og_txn og) = None then None
             else if prepared s d \<noteq> None then Some s
             else do {
               let s1 = s\<lparr>prepared := (prepared s)(d \<mapsto> (ts, og_txn og))\<rparr>;
               let s2 = fold (prepare_write pe ts (og_txn og)) (write_set txn)
                          (fold (prepare_read pe d (og_txn og)) readSet s1);
               s3 \<leftarrow> (if useSemanticCC pe then RecordReadPredicatesAndWrites pe (og_txn og) ts False s2
                       else Some s2);
               Some (if disable_prepare_visibility pe then s3
                     else emit (Job_ApplyTableWrites (og_txn og) ts d None False) s3)
             })"

section \<open>Conflicts\<close>

text \<open>A verdict ends the check: the vote, the proof of a committed conflict, and the prepared transaction in the way.\<close>

type_synonym verdict = "CCResult \<times> CommittedProof option \<times> Transaction option"

fun first_verdict :: "('a \<Rightarrow> verdict option) \<Rightarrow> 'a list \<Rightarrow> verdict option" where
  "first_verdict f [] = None"
| "first_verdict f (x # xs) = (case f x of None \<Rightarrow> first_verdict f xs | Some v \<Rightarrow> Some v)"

definition GetPreceedingPreparedWrite ::
  "(Timestamp, Transaction) omap \<Rightarrow> Timestamp \<Rightarrow> (Timestamp \<times> Transaction) list" where
  "GetPreceedingPreparedWrite m ts = (case om_pred_lt ts m of None \<Rightarrow> [] | Some p \<Rightarrow> [p])"

definition GetPreceedingCommittedWrite :: "server \<Rightarrow> string \<Rightarrow> Timestamp \<Rightarrow> (Timestamp \<times> Value) option" where
  "GetPreceedingCommittedWrite s key ts = vs_getPreceedingCommit (store s) key ts"

definition CheckHighWatermark :: "params \<Rightarrow> u64 \<Rightarrow> Timestamp \<Rightarrow> bool" where
  "CheckHighWatermark pe now ts \<longleftrightarrow> ts > Timestamp (now + timeDelta pe) 0"

text \<open>The exemption for prepared deletions sets \<open>exempt\<close> to false in every case and never applies.\<close>

definition check_prepared_write :: "server \<Rightarrow> Timestamp \<Rightarrow> ReadMessage \<Rightarrow> verdict option" where
  "check_prepared_write s ts r =
     (case preparedWrites s (read_key r) of
        None \<Rightarrow> None
      | Some m \<Rightarrow> first_verdict (\<lambda>(preparedTs, preparedTx).
          if readtime r < preparedTs \<and> preparedTs < ts then Some (CC_ABSTAIN, None, Some preparedTx) else None)
          (GetPreceedingPreparedWrite m ts))"

definition check_read :: "params \<Rightarrow> server \<Rightarrow> Timestamp \<Rightarrow> ReadMessage \<Rightarrow> verdict option" where
  "check_read pe s ts r =
     (if read_is_table_col_version r \<or> \<not> IsKeyOwned pe (read_key r) then None
      else case GetPreceedingCommittedWrite s (read_key r) ts of
             None \<Rightarrow> check_prepared_write s ts r
           | Some (t, v) \<Rightarrow>
               if readtime r = ts_zero \<and> val_val v = ''d'' then None
               else if readtime r < t then Some (CC_ABORT, if validateProofs pe then val_proof v else None, None)
               else check_prepared_write s ts r)"

fun check_committed_reads ::
  "params \<Rightarrow> Timestamp \<Rightarrow> WriteMessage \<Rightarrow> ((Timestamp \<times> Timestamp) \<times> CommittedProof option) list \<Rightarrow>
   verdict option" where
  "check_committed_reads pe ts w [] = None"
| "check_committed_reads pe ts w (((reader, version), proof) # rs) =
     (if ts \<ge> reader then None
      else if version < ts \<and> \<not> (version = ts_zero \<and> write_value w = Some ''d'')
      then Some (CC_ABORT, if validateProofs pe then proof else None, None)
      else check_committed_reads pe ts w rs)"

definition check_prepared_read :: "Timestamp \<Rightarrow> WriteMessage \<Rightarrow> Transaction \<Rightarrow> verdict option" where
  "check_prepared_read ts w reader =
     (if \<not> ts < timestamp reader then None
      else case find (\<lambda>r. read_key r = write_key w) (read_set reader) of
             None \<Rightarrow> None
           | Some r \<Rightarrow>
               if readtime r < ts \<and> \<not> (readtime r = ts_zero \<and> write_value w = Some ''d'')
               then Some (CC_ABSTAIN, None, None) else None)"

definition check_rts :: "params \<Rightarrow> server \<Rightarrow> Timestamp \<Rightarrow> string \<Rightarrow> verdict option" where
  "check_rts pe s ts key =
     (if rtsMode pe = 1 then
        (case rts s key of
           None \<Rightarrow> None
         | Some r \<Rightarrow> if r > getTimestamp ts then Some (CC_ABSTAIN, None, None) else None)
      else if rtsMode pe = 2 then
        (case dropWhile (\<lambda>p. fst p = ts) (om_lower_bound ts (lookup_list (rts_list s) key)) of
           [] \<Rightarrow> None
         | (t, _) # _ \<Rightarrow> if t > ts then Some (CC_ABSTAIN, None, None) else None)
      else None)"

definition check_write :: "params \<Rightarrow> server \<Rightarrow> Timestamp \<Rightarrow> WriteMessage \<Rightarrow> verdict option" where
  "check_write pe s ts w =
     (if write_is_table_col_version w \<or> \<not> IsKeyOwned pe (write_key w) then None
      else case check_committed_reads pe ts w (rev (lookup_list (committedReads s) (write_key w))) of
             Some v \<Rightarrow> Some v
           | None \<Rightarrow>
               (case first_verdict (check_prepared_read ts w)
                       (map snd (lookup_list (preparedReads s) (write_key w))) of
                  Some v \<Rightarrow> Some v
                | None \<Rightarrow> check_rts pe s ts (write_key w)))"

section \<open>The multi-version check\<close>

record cc_out =
  co_result :: CCResult
  co_conflict :: "CommittedProof option"
  co_abstain_conflict :: "Transaction option"
  co_txn :: Transaction

definition verdict_out :: "verdict \<Rightarrow> Transaction \<Rightarrow> cc_out" where
  "verdict_out v txn = (case v of (r, c, a) \<Rightarrow>
     \<lparr>co_result = r, co_conflict = c, co_abstain_conflict = a, co_txn = txn\<rparr>)"

text \<open>The transaction object of a phase-1 request is the one that is registered as ongoing.\<close>

definition set_ongoing :: "string \<Rightarrow> Transaction \<Rightarrow> server \<Rightarrow> server" where
  "set_ongoing d txn s =
     s\<lparr>ongoing := (ongoing s)(d := map_option (\<lambda>og. og\<lparr>og_txn := txn\<rparr>) (ongoing s d))\<rparr>"

definition dynamic_dep :: "params \<Rightarrow> string \<Rightarrow> Dependency" where
  "dynamic_dep pe d = \<lparr>dep_write = \<lparr>w_committed_value = None, w_committed_timestamp = None,
       w_prepared_value = None, w_prepared_timestamp = None, w_prepared_txn_digest = Some d\<rparr>,
     dep_write_sigs = None, dep_involved_group = groupIdx pe\<rparr>"

definition add_dynamic_deps :: "params \<Rightarrow> Dependency list \<Rightarrow> string list \<Rightarrow> Transaction \<Rightarrow> Transaction" where
  "add_dynamic_deps pe depSet dyn txn =
     (let new = filter (\<lambda>d. d \<notin> set (map dep_id depSet)) dyn
      in if new = [] then txn
         else let m = (case merged_read_set txn of
                         Some m \<Rightarrow> m
                       | None \<Rightarrow> \<lparr>rs_read_set = [], rs_deps = deps txn, rs_read_predicates = []\<rparr>)
              in txn\<lparr>merged_read_set := Some (m\<lparr>rs_deps := rs_deps m @ map (dynamic_dep pe) new\<rparr>)\<rparr>)"

text \<open>The check of a transaction that is not prepared: a verdict, or the transaction to prepare.\<close>

definition mvtso_conflicts ::
  "params \<Rightarrow> u64 \<Rightarrow> string \<Rightarrow> Transaction \<Rightarrow> ReadMessage list \<Rightarrow> Dependency list \<Rightarrow> ReadPredicate list \<Rightarrow>
   server \<Rightarrow> ((verdict + Transaction) \<times> server) option" where
  "mvtso_conflicts pe now d txn readSet depSet predSet s =
     (let ts = timestamp txn; abstain = (CC_ABSTAIN, None, None)
      in if CheckHighWatermark pe now ts then Some (Inl abstain, s)
         else do {
           let (monotonic, s) = (if useSemanticCC pe \<and> write_set txn \<noteq> []
                                 then CheckMonotonicTableColVersions pe d txn s else (True, s));
           if \<not> monotonic then Some (Inl abstain, s)
           else (case first_verdict (check_read pe s ts) readSet of
              Some v \<Rightarrow> Some (Inl v, s)
            | None \<Rightarrow>
                (case first_verdict (check_write pe s ts) (write_set txn) of
                   Some v \<Rightarrow> Some (Inl v, s)
                 | None \<Rightarrow>
                     let res = (if validateProofs pe \<and> signedMessages pe \<and> \<not> verifyDeps pe
                                then CheckDepLocalPresence pe depSet s else CC_COMMIT)
                     in if res \<noteq> CC_COMMIT then Some (Inl (res, None, None), s)
                        else if useSemanticCC pe then do {
                          (res, dyn) \<leftarrow> CheckPredicates pe txn ts readSet predSet s;
                          Some (if res \<noteq> CC_COMMIT then (Inl (res, None, None), s)
                                else (Inr (add_dynamic_deps pe depSet dyn txn), s))
                        }
                        else Some (Inr txn, s)))
         })"

definition DoMVTSOOCCCheck ::
  "params \<Rightarrow> u64 \<Rightarrow> u64 \<Rightarrow> remote \<Rightarrow> string \<Rightarrow> Transaction \<Rightarrow> ReadMessage list \<Rightarrow> Dependency list \<Rightarrow>
   ReadPredicate list \<Rightarrow> bool \<Rightarrow> bool \<Rightarrow> server \<Rightarrow> (cc_out \<times> server) option" where
  "DoMVTSOOCCCheck pe now reqId remote d txn readSet depSet predSet fallback_flow isGossip s = do {
     (checked, s1) \<leftarrow> (if prepared s d \<noteq> None then Some (Inr txn, s)
                      else mvtso_conflicts pe now d txn readSet depSet predSet s);
     case checked of
       Inl v \<Rightarrow> Some (verdict_out v txn, s1)
     | Inr txn' \<Rightarrow> do {
         s2 \<leftarrow> (if prepared s d \<noteq> None then Some s1
                else Prepare pe d txn' readSet (set_ongoing d txn' s1));
         (allFinished, s3) \<leftarrow> ManageDependencies pe d txn' remote reqId fallback_flow isGossip s2;
         Some (verdict_out (if \<not> allFinished then CC_WAIT else CheckDependencies_txn pe txn' s3, None, None) txn', s3)
       }
   }"

section \<open>The TAPIR check\<close>

definition prepared_read_above :: "params \<Rightarrow> server \<Rightarrow> string \<Rightarrow> Timestamp \<Rightarrow> bool" where
  "prepared_read_above pe s key ts \<longleftrightarrow> IsKeyOwned pe key \<and>
     (\<exists>(t, txn) \<in> ran (prepared s). key \<in> set (map read_key (read_set txn)) \<and> t > ts)"

definition tapir_read :: "server \<Rightarrow> ReadMessage \<Rightarrow> CCResult option" where
  "tapir_read s r =
     (case vs_getRange (store s) (read_key r) (readtime r) of
        None \<Rightarrow> None
      | Some (first, second) \<Rightarrow>
          if first \<noteq> readtime r then None
          else (case second of
             None \<Rightarrow> if preparedWrites s (read_key r) \<noteq> None then Some CC_ABSTAIN else None
           | Some t \<Rightarrow>
               if isValid t then Some CC_ABORT
               else if preparedWrites s (read_key r) \<noteq> None then Some CC_ABSTAIN else None))"

definition tapir_write :: "params \<Rightarrow> server \<Rightarrow> Timestamp \<Rightarrow> WriteMessage \<Rightarrow> bool" where
  "tapir_write pe s ts w \<longleftrightarrow>
     (case vs_get_latest (store s) (write_key w) of
        None \<Rightarrow> False
      | Some (t, _) \<Rightarrow> t > ts \<or> (case vs_getLastRead (store s) (write_key w) of None \<Rightarrow> False | Some t \<Rightarrow> t > ts)) \<or>
     om_upper_bound ts (lookup_list (preparedWrites s) (write_key w)) \<noteq> [] \<or>
     prepared_read_above pe s (write_key w) ts"

text \<open>Cleaning a transaction that is prepared at another timestamp waits for an accessor the caller holds.\<close>

definition DoTAPIROCCCheck :: "params \<Rightarrow> string \<Rightarrow> Transaction \<Rightarrow> server \<Rightarrow> (CCResult \<times> server) option" where
  "DoTAPIROCCCheck pe d txn s =
     (case prepared s d of
        Some (t, _) \<Rightarrow> if t = timestamp txn then Some (CC_COMMIT, s) else None
      | None \<Rightarrow>
          (case List.map_filter (tapir_read s) (read_set txn) of
             r # _ \<Rightarrow> Some (r, s)
           | [] \<Rightarrow>
               if (\<exists>w \<in> set (write_set txn). tapir_write pe s (timestamp txn) w) then Some (CC_ABSTAIN, s)
               else do {
                 s' \<leftarrow> Prepare pe d txn (read_set txn) s;
                 Some (CC_COMMIT, s')
               }))"

section \<open>The check of a phase-1 request\<close>

text \<open>A mutex that a thread takes twice blocks it for ever.\<close>

definition DoOCCCheck ::
  "params \<Rightarrow> u64 \<Rightarrow> u64 \<Rightarrow> remote \<Rightarrow> string \<Rightarrow> Transaction \<Rightarrow> bool \<Rightarrow> bool \<Rightarrow> server \<Rightarrow> (cc_out \<times> server) option" where
  "DoOCCCheck pe now reqId remote d txn fallback_flow isGossip s =
     (if getTimestamp (timestamp txn) \<le> 10000 then None
      else do {
        (m, s1) \<leftarrow> mergeTxReadSets pe \<lparr>ma_prepare_or_commit = 0, ma_reqId = reqId, ma_remote = Some remote,
            ma_isGossip = isGossip, ma_proof = None\<rparr> d txn s;
        let txn1 = mo_txn m;
        let s2 = set_ongoing d txn1 s1;
        if mo_result m \<noteq> CC_COMMIT then Some (verdict_out (mo_result m, None, None) txn1, s2)
        else if parallel_CCC pe \<and> \<not> distinct (LockTxnKeys_scoped txn1 (mo_readSet m)) then None
        else do {
          (out, s3) \<leftarrow> (case occType pe of
             MVTSO \<Rightarrow> DoMVTSOOCCCheck pe now reqId remote d txn1 (mo_readSet m) (mo_depSet m) (mo_predSet m)
                        fallback_flow isGossip s2
           | TAPIR \<Rightarrow> map_option (\<lambda>(r, s'). (verdict_out (r, None, None) txn1, s')) (DoTAPIROCCCheck pe d txn1 s2));
          if co_result out \<noteq> CC_ABORT then Some (out, s3)
          else do {
            conflict \<leftarrow> co_conflict out;
            let wb = \<lparr>wb_decision = ABORT, wb_txn_digest = Some d, wb_txn = None, wb_proof = WB_conflict conflict,
                      wb_p2_view = None\<rparr>;
            let s4 = s3\<lparr>writebackMessages := (case writebackMessages s3 d of
                          None \<Rightarrow> (writebackMessages s3)(d \<mapsto> wb) | Some _ \<Rightarrow> writebackMessages s3)\<rparr>;
            s5 \<leftarrow> Abort pe d txn1 s4;
            Some (if cacheReadSet pe then out\<lparr>co_result := CC_ABSTAIN, co_conflict := None\<rparr> else out, s5)
          }
        }
      })"

end
