(* ===== verification/Replica_Index.thy ===== *)
theory Replica_Index
  imports Concurrency_Control
begin

text \<open>
  The indexes of a replica: how its prepared transactions appear in \<open>preparedReads\<close> and \<open>preparedWrites\<close>
  and its committed ones in \<open>committedReads\<close> and the store.  Each operation is shown to keep the relation;
  the part of the state that no index depends on is framed away once (\<open>cc_core\<close>).
\<close>

section \<open>The part of the state the check depends on\<close>

definition cc_core :: "server \<Rightarrow> _" where
  "cc_core s = (store s, committedReads s, prepared s, preparedReads s, preparedWrites s)"

lemma cc_coreD:
  assumes "cc_core s' = cc_core s"
  shows "store s' = store s" "committedReads s' = committedReads s" "prepared s' = prepared s"
    "preparedReads s' = preparedReads s" "preparedWrites s' = preparedWrites s"
  using assms by (simp_all add: cc_core_def)

named_theorems core_frame

lemma core_upd [simp]:
  "cc_core (s\<lparr>rts := x_rts\<rparr>) = cc_core s" "cc_core (s\<lparr>rts_list := x_rts_list\<rparr>) = cc_core s"
  "cc_core (s\<lparr>ongoing := x_ongoing\<rparr>) = cc_core s" "cc_core (s\<lparr>ooMessages := x_ooMessages\<rparr>) = cc_core s"
  "cc_core (s\<lparr>ts_to_tx := x_ts_to_tx\<rparr>) = cc_core s" "cc_core (s\<lparr>tablePredicates := x_tablePredicates\<rparr>) = cc_core s"
  "cc_core (s\<lparr>tableWrites := x_tableWrites\<rparr>) = cc_core s"
  "cc_core (s\<lparr>highTableVersions := x_highTableVersions\<rparr>) = cc_core s"
  "cc_core (s\<lparr>non_monotonic_writes := x_non_monotonic_writes\<rparr>) = cc_core s"
  "cc_core (s\<lparr>committed := x_committed\<rparr>) = cc_core s" "cc_core (s\<lparr>aborted := x_aborted\<rparr>) = cc_core s"
  "cc_core (s\<lparr>writebackMessages := x_writebackMessages\<rparr>) = cc_core s"
  "cc_core (s\<lparr>p1MetaData := x_p1MetaData\<rparr>) = cc_core s" "cc_core (s\<lparr>p2MetaDatas := x_p2MetaDatas\<rparr>) = cc_core s"
  "cc_core (s\<lparr>interestedClients := x_interestedClients\<rparr>) = cc_core s"
  "cc_core (s\<lparr>ElectQuorums := x_ElectQuorums\<rparr>) = cc_core s" "cc_core (s\<lparr>dependents := x_dependents\<rparr>) = cc_core s"
  "cc_core (s\<lparr>waitingDependencies_new := x_waitingDependencies_new\<rparr>) = cc_core s"
  "cc_core (s\<lparr>queryMetaData := x_queryMetaData\<rparr>) = cc_core s"
  "cc_core (s\<lparr>alreadyDeleted := x_alreadyDeleted\<rparr>) = cc_core s"
  "cc_core (s\<lparr>clientQueryWatermark := x_clientQueryWatermark\<rparr>) = cc_core s"
  "cc_core (s\<lparr>subscribedQuery := x_subscribedQuery\<rparr>) = cc_core s"
  "cc_core (s\<lparr>TxnMissingQueries := x_TxnMissingQueries\<rparr>) = cc_core s"
  "cc_core (s\<lparr>queryMissingTxns := x_queryMissingTxns\<rparr>) = cc_core s"
  "cc_core (s\<lparr>materialized := x_materialized\<rparr>) = cc_core s" "cc_core (s\<lparr>table_encoder := x_table_encoder\<rparr>) = cc_core s"
  "cc_core (s\<lparr>effects := x_effects\<rparr>) = cc_core s"
  by (simp_all add: cc_core_def)

lemma core_simple [simp]:
  "cc_core (emit e s) = cc_core s" "cc_core (set_ongoing d txn s) = cc_core s"
  "cc_core (CleanDependencies d s) = cc_core s" "cc_core (commit_rts pe key ts s) = cc_core s"
  "cc_core (rts_erase ts key s) = cc_core s" "cc_core (record_pred ts x pred s) = cc_core s"
  "cc_core (record_write ts x table s) = cc_core s" "cc_core (clear_pred ts pred s) = cc_core s"
  "cc_core (clear_write ts table s) = cc_core s" "cc_core (subscribeTxOnMissingQuery q d s) = cc_core s"
  by (simp_all add: emit_def set_ongoing_def CleanDependencies_def commit_rts_def rts_erase_def record_pred_def
      record_write_def clear_pred_def clear_write_def subscribeTxOnMissingQuery_def Let_def)

lemma core_fold: "(\<And>x s. cc_core (f x s) = cc_core s) \<Longrightarrow> cc_core (fold f xs s) = cc_core s"
  by (induction xs arbitrary: s) simp_all

lemma core_foldM: "foldM f xs s = Some s' \<Longrightarrow> (\<And>x s s'. f x s = Some s' \<Longrightarrow> cc_core s' = cc_core s) \<Longrightarrow> cc_core s' = cc_core s"
  by (induction xs arbitrary: s) (auto split: option.splits)

lemma core_folds [simp]:
  "cc_core (ClearRTS pe keys ts s) = cc_core s" "cc_core (ClearPredicateAndWrites pe txn s) = cc_core s"
  by (simp_all add: ClearRTS_def ClearPredicateAndWrites_def core_fold)

lemma core_RecordReadPredicatesAndWrites [core_frame]:
  "RecordReadPredicatesAndWrites pe txn ts b s = Some s' \<Longrightarrow> cc_core s' = cc_core s"
  by (auto simp: RecordReadPredicatesAndWrites_def core_fold split: if_splits)

lemma core_CleanQueries [core_frame]: "CleanQueries pe txn s = Some s' \<Longrightarrow> cc_core s' = cc_core s"
proof -
  have "cc_core s' = cc_core s" if "clean_query pe q s = Some s'" for q s s'
    using that by (auto simp: clean_query_def bind_eq_Some_conv Let_def split: option.splits if_splits)
  then show "CleanQueries pe txn s = Some s' \<Longrightarrow> cc_core s' = cc_core s"
    by (auto simp: CleanQueries_def Let_def split: option.splits dest!: core_foldM)
qed

lemma core_CheckWaitingQueries [core_frame]:
  "CheckWaitingQueries pe d ts i a m s = Some s' \<Longrightarrow> cc_core s' = cc_core s"
  by (auto simp: CheckWaitingQueries_def bind_eq_Some_conv Let_def split: if_splits)

lemma core_RegisterTxTS [core_frame]: "RegisterTxTS pe d txn s = Some s' \<Longrightarrow> cc_core s' = cc_core s"
  by (auto simp: RegisterTxTS_def bind_eq_Some_conv split: if_splits option.splits)

lemma core_dep_frame: "dep_frame s s' \<Longrightarrow> cc_core s' = cc_core s"
  by (elim dep_frameE) simp

lemma core_CheckDependents [core_frame]: "CheckDependents pe d s = Some s' \<Longrightarrow> cc_core s' = cc_core s"
  using CheckDependents_dep_frame [THEN core_dep_frame] by simp

lemma core_sends: "sends s s' \<Longrightarrow> cc_core s' = cc_core s"
  by (elim sendsE) simp

lemma core_ManageDependencies [core_frame]:
  assumes "ManageDependencies pe d txn rem q fb g s = Some (b, s')"
  shows "cc_core s' = cc_core s"
proof -
  have reg: "cc_core (snd y) = cc_core (snd x)" if "RegisterWaitingTxn pe dep d rem q fb g n x = Some y" for dep n x y
    using that by (auto simp: RegisterWaitingTxn_def Let_def bind_eq_Some_conv split: prod.splits if_splits
        dest!: SendRelayP1_sends core_sends)
  have loop: "cc_core (snd y) = cc_core (snd x)"
    if "foldM (\<lambda>dep. RegisterWaitingTxn pe (dep_id dep) d rem q fb g n) ds x = Some y" for ds n x y
    using that by (induction ds arbitrary: x) (auto split: option.splits dest!: reg)
  show ?thesis using assms
    by (auto simp: ManageDependencies_def manage_deps_def bind_eq_Some_conv split: if_splits dest!: loop)
qed

lemma core_monotonic [core_frame]:
  "CheckMonotonicTableColVersions pe d txn s = (b, s') \<Longrightarrow> cc_core s' = cc_core s"
proof -
  have "cc_core (snd (monotonic_loop pe d t tables s)) = cc_core s" for t tables
    by (induction pe d t tables s rule: monotonic_loop.induct) (auto simp: Let_def split: option.splits)
  then show "CheckMonotonicTableColVersions pe d txn s = (b, s') \<Longrightarrow> cc_core s' = cc_core s"
    by (metis CheckMonotonicTableColVersions_def snd_conv)
qed

section \<open>The invariant\<close>

definition txn_core :: "Transaction \<Rightarrow> ReadMessage list \<times> WriteMessage list \<times> Timestamp \<times> int list" where
  "txn_core T = (read_set T, write_set T, timestamp T, involved_groups T)"

definition owned_reads :: "params \<Rightarrow> Transaction \<Rightarrow> ReadMessage set" where
  "owned_reads pe T = {r \<in> set (read_set T). \<not> read_is_table_col_version r \<and> IsKeyOwned pe (read_key r)}"

definition owned_writes :: "params \<Rightarrow> Transaction \<Rightarrow> WriteMessage set" where
  "owned_writes pe T = {w \<in> set (write_set T). \<not> write_is_table_col_version w \<and> IsKeyOwned pe (write_key w)}"

text \<open>
  \<open>reader\<close> read a version that \<open>writer\<close> has overwritten before \<open>reader\<close>'s timestamp: with both committed,
  the timestamp order would not be a serialisation.
\<close>

definition rw_conflict :: "params \<Rightarrow> Transaction \<Rightarrow> Transaction \<Rightarrow> bool" where
  "rw_conflict pe reader writer \<longleftrightarrow> (\<exists>r \<in> owned_reads pe reader. \<exists>w \<in> owned_writes pe writer.
     read_key r = write_key w \<and> readtime r < timestamp writer \<and> timestamp writer < timestamp reader)"

text \<open>A transaction of a correct client in a key-value workload reads each key once and deletes nothing.\<close>

definition plain_txn :: "Transaction \<Rightarrow> bool" where
  "plain_txn T \<longleftrightarrow> distinct (map read_key (read_set T)) \<and> (\<forall>w \<in> set (write_set T). write_value w \<noteq> Some ''d'')"

abbreviation versions_at :: "server \<Rightarrow> string \<Rightarrow> Timestamp \<rightharpoonup> Value" where
  "versions_at s k \<equiv> map_of (lookup_list (vs_store (store s)) k)"

abbreviation creads_at :: "server \<Rightarrow> string \<Rightarrow> Timestamp \<times> Timestamp \<rightharpoonup> CommittedProof option" where
  "creads_at s k \<equiv> map_of (lookup_list (committedReads s) k)"

abbreviation preads_at :: "server \<Rightarrow> string \<Rightarrow> string \<rightharpoonup> Transaction" where
  "preads_at s k \<equiv> map_of (lookup_list (preparedReads s) k)"

abbreviation pwrites_at :: "server \<Rightarrow> string \<Rightarrow> Timestamp \<rightharpoonup> Transaction" where
  "pwrites_at s k \<equiv> map_of (lookup_list (preparedWrites s) k)"

definition sorted_ok :: "server \<Rightarrow> bool" where
  "sorted_ok s \<longleftrightarrow> (\<forall>k. om_sorted (lookup_list (vs_store (store s)) k) \<and> om_sorted (lookup_list (committedReads s) k) \<and>
     om_sorted (lookup_list (preparedReads s) k) \<and> om_sorted (lookup_list (preparedWrites s) k))"

definition no_deletions :: "server \<Rightarrow> bool" where
  "no_deletions s \<longleftrightarrow> (\<forall>k t v. versions_at s k t = Some v \<longrightarrow> val_val v \<noteq> ''d'')"

definition indexed_prepared :: "params \<Rightarrow> server \<Rightarrow> string \<Rightarrow> Transaction \<Rightarrow> bool" where
  "indexed_prepared pe s d T \<longleftrightarrow>
     (\<exists>T'. prepared s d = Some (timestamp T, T') \<and> txn_core T' = txn_core T) \<and>
     (\<forall>r \<in> owned_reads pe T. \<exists>T'. preads_at s (read_key r) d = Some T' \<and> txn_core T' = txn_core T) \<and>
     (\<forall>w \<in> owned_writes pe T. pwrites_at s (write_key w) (timestamp T) \<noteq> None)"

definition indexed_committed :: "params \<Rightarrow> server \<Rightarrow> Transaction \<Rightarrow> bool" where
  "indexed_committed pe s T \<longleftrightarrow>
     (\<forall>r \<in> owned_reads pe T. creads_at s (read_key r) (timestamp T, readtime r) \<noteq> None) \<and>
     (\<forall>w \<in> owned_writes pe T. versions_at s (write_key w) (timestamp T) \<noteq> None)"

definition prepared_known :: "params \<Rightarrow> (string \<rightharpoonup> Transaction) \<Rightarrow> server \<Rightarrow> bool" where
  "prepared_known pe H s \<longleftrightarrow>
     (\<forall>d t T'. prepared s d = Some (t, T') \<longrightarrow> t = timestamp T' \<and> (\<exists>T. H d = Some T \<and> txn_core T' = txn_core T)) \<and>
     (\<forall>k d T'. preads_at s k d = Some T' \<longrightarrow>
        (\<exists>t T''. prepared s d = Some (t, T'') \<and> txn_core T' = txn_core T'' \<and> cleans_read pe T'' k))"

definition no_conflicts :: "params \<Rightarrow> (string \<rightharpoonup> Transaction) \<Rightarrow> bool" where
  "no_conflicts pe H \<longleftrightarrow> (\<forall>d1 T1 d2 T2. H d1 = Some T1 \<longrightarrow> H d2 = Some T2 \<longrightarrow>
     (d1 \<noteq> d2 \<longrightarrow> timestamp T1 \<noteq> timestamp T2) \<and> \<not> rw_conflict pe T1 T2)"

definition cc_inv :: "params \<Rightarrow> (string \<rightharpoonup> Transaction) \<Rightarrow> server \<Rightarrow> bool" where
  "cc_inv pe H s \<longleftrightarrow> sorted_ok s \<and> no_deletions s \<and> prepared_known pe H s \<and> no_conflicts pe H \<and>
     (\<forall>d T. H d = Some T \<longrightarrow> plain_txn T \<and> (indexed_prepared pe s d T \<or> indexed_committed pe s T))"

lemma cc_invD:
  assumes "cc_inv pe H s"
  shows "sorted_ok s" "no_deletions s" "prepared_known pe H s" "no_conflicts pe H"
    "H d = Some T \<Longrightarrow> plain_txn T" "H d = Some T \<Longrightarrow> indexed_prepared pe s d T \<or> indexed_committed pe s T"
  using assms by (auto simp: cc_inv_def)

lemma cc_invI:
  assumes "sorted_ok s" "no_deletions s" "prepared_known pe H s" "no_conflicts pe H"
    "\<And>d T. H d = Some T \<Longrightarrow> plain_txn T"
    "\<And>d T. H d = Some T \<Longrightarrow> indexed_prepared pe s d T \<or> indexed_committed pe s T"
  shows "cc_inv pe H s"
  using assms by (simp add: cc_inv_def)

lemma no_conflictsD:
  assumes "no_conflicts pe H" "H d1 = Some T1" "H d2 = Some T2"
  shows "d1 \<noteq> d2 \<Longrightarrow> timestamp T1 \<noteq> timestamp T2" "\<not> rw_conflict pe T1 T2"
  using assms unfolding no_conflicts_def by blast+

lemma prepared_knownD:
  assumes "prepared_known pe H s"
  shows "prepared s d = Some (t, T') \<Longrightarrow> t = timestamp T' \<and> (\<exists>T. H d = Some T \<and> txn_core T' = txn_core T)"
    "preads_at s k d = Some T' \<Longrightarrow> \<exists>t T''. prepared s d = Some (t, T'') \<and> txn_core T' = txn_core T'' \<and> cleans_read pe T'' k"
  using assms unfolding prepared_known_def by blast+

lemma cc_inv_core: "cc_core s' = cc_core s \<Longrightarrow> cc_inv pe H s' = cc_inv pe H s"
  by (simp add: cc_inv_def sorted_ok_def no_deletions_def prepared_known_def indexed_prepared_def
      indexed_committed_def cc_core_def)

lemma txn_core_cong:
  assumes "txn_core T' = txn_core T"
  shows "read_set T' = read_set T" "write_set T' = write_set T" "timestamp T' = timestamp T"
    "owned_reads pe T' = owned_reads pe T" "owned_writes pe T' = owned_writes pe T"
    "cleans_read pe T' = cleans_read pe T" "cleans_write pe T' = cleans_write pe T"
  using assms by (simp_all add: txn_core_def owned_reads_def owned_writes_def cleans_read_def [abs_def]
      cleans_write_def [abs_def])

section \<open>What a passed check excludes\<close>

lemma check_read_None:
  assumes "check_read pe s ts r = None" "\<not> read_is_table_col_version r" "IsKeyOwned pe (read_key r)"
    "sorted_ok s" "no_deletions s" "t < ts"
    "versions_at s (read_key r) t \<noteq> None \<or> pwrites_at s (read_key r) t \<noteq> None"
  shows "\<not> readtime r < t"
proof -
  let ?k = "read_key r"
  have so: "om_sorted (lookup_list (vs_store (store s)) ?k)" "om_sorted (lookup_list (preparedWrites s) ?k)"
    using assms(4) by (auto simp: sorted_ok_def)
  have pw: "\<not> readtime r < t" if pass: "check_prepared_write s ts r = None" "pwrites_at s ?k t \<noteq> None"
  proof -
    obtain m where m: "preparedWrites s ?k = Some m" "map_of m t \<noteq> None"
      using pass(2) by (auto simp: lookup_list_def split: option.splits)
    have sm: "om_sorted m" using so(2) m(1) by (simp add: lookup_list_def)
    obtain t' x where p: "om_pred_lt ts m = Some (t', x)"
      using om_pred_lt_None [OF sm, of ts] m(2) assms(6) by (cases "om_pred_lt ts m") auto
    note q = om_pred_lt_Some [OF sm p]
    have "t \<le> t'" using q(3) m(2) assms(6) by blast
    moreover have "\<not> readtime r < t'"
      using pass(1) m(1) p q(2) by (auto simp: check_prepared_write_def GetPreceedingPreparedWrite_def)
    ultimately show ?thesis by auto
  qed
  show ?thesis
  proof (cases "GetPreceedingCommittedWrite s ?k ts")
    case None
    then have "versions_at s ?k t = None"
      using om_pred_lt_None [OF so(1), of ts] assms(6)
      by (auto simp: GetPreceedingCommittedWrite_def vs_getPreceedingCommit_def lookup_list_def split: option.splits)
    then show ?thesis using pw assms(1-3,7) None by (simp add: check_read_def)
  next
    case (Some p)
    obtain t' v where p: "p = (t', v)" by (cases p)
    have "om_pred_lt ts (lookup_list (vs_store (store s)) ?k) = Some (t', v)"
      using Some p by (auto simp: GetPreceedingCommittedWrite_def vs_getPreceedingCommit_def lookup_list_def
          split: option.splits)
    note q = om_pred_lt_Some [OF so(1) this]
    have "val_val v \<noteq> ''d''" using q(1) assms(5) by (auto simp: no_deletions_def)
    then have nr: "\<not> readtime r < t'" "check_prepared_write s ts r = None"
      using assms(1-3) Some p by (auto simp: check_read_def split: if_splits)
    have "t \<le> t'" if "versions_at s ?k t \<noteq> None" using q(3) that assms(6) by blast
    then show ?thesis using nr pw assms(7) by auto
  qed
qed

lemma check_committed_reads_None:
  assumes "check_committed_reads pe ts w (rev m) = None" "om_sorted m" "((reader, version), x) \<in> set m"
    "write_value w \<noteq> Some ''d''" "ts < reader"
  shows "\<not> version < ts"
  using assms(1-3)
proof (induction m rule: rev_induct)
  case (snoc p m)
  obtain t v y where p: "p = ((t, v), y)" by (metis prod.exhaust)
  have so: "om_sorted m" and le: "\<forall>q \<in> set m. fst q < (t, v)"
    using snoc.prems(2) by (auto simp: om_sorted_def p sorted_wrt_append)
  have "t > ts"
  proof (cases "((reader, version), x) = p")
    case False
    then have "(reader, version) < (t, v)" using snoc.prems(3) le by auto
    then show ?thesis using assms(5) by (auto simp: less_prod_def)
  qed (use p assms(5) in simp)
  then have "check_committed_reads pe ts w (rev m) = None" "\<not> v < ts"
    using snoc.prems(1) assms(4) by (auto simp: p split: if_splits)
  then show ?case using snoc.IH so snoc.prems(3) by (auto simp: p)
qed simp

lemma first_verdict_None: "first_verdict f xs = None \<longleftrightarrow> (\<forall>x \<in> set xs. f x = None)"
  by (induction xs) (auto split: option.splits)

lemma find_mem: "x \<in> set xs \<Longrightarrow> P x \<Longrightarrow> \<exists>y. find P xs = Some y \<and> y \<in> set xs \<and> P y"
  by (induction xs) auto

lemma check_write_None:
  assumes "check_write pe s ts w = None" "\<not> write_is_table_col_version w" "IsKeyOwned pe (write_key w)"
    "sorted_ok s" "write_value w \<noteq> Some ''d''"
  shows "creads_at s (write_key w) (reader, version) \<noteq> None \<Longrightarrow> ts < reader \<Longrightarrow> \<not> version < ts"
    "preads_at s (write_key w) d = Some T \<Longrightarrow> plain_txn T \<Longrightarrow> r \<in> set (read_set T) \<Longrightarrow>
      read_key r = write_key w \<Longrightarrow> ts < timestamp T \<Longrightarrow> \<not> readtime r < ts"
proof -
  have c: "check_committed_reads pe ts w (rev (lookup_list (committedReads s) (write_key w))) = None"
    and p: "\<forall>T \<in> snd ` set (lookup_list (preparedReads s) (write_key w)). check_prepared_read ts w T = None"
    using assms(1-3) by (auto simp: check_write_def first_verdict_None split: option.splits)
  have so: "om_sorted (lookup_list (committedReads s) (write_key w))" using assms(4) by (simp add: sorted_ok_def)
  show "\<not> version < ts" if "creads_at s (write_key w) (reader, version) \<noteq> None" "ts < reader"
    using that check_committed_reads_None [OF c so _ assms(5)] by (auto dest: map_of_SomeD)
  show "\<not> readtime r < ts" if rd: "preads_at s (write_key w) d = Some T" "plain_txn T" "r \<in> set (read_set T)"
    "read_key r = write_key w" "ts < timestamp T"
  proof -
    have "check_prepared_read ts w T = None" using p map_of_SomeD [OF rd(1)] by force
    moreover obtain r' where f: "find (\<lambda>r. read_key r = write_key w) (read_set T) = Some r'" "r' \<in> set (read_set T)"
      "read_key r' = write_key w"
      using find_mem [OF rd(3), of "\<lambda>r. read_key r = write_key w"] rd(4) by blast
    moreover have "r' = r" using f(2,3) rd(2-4) by (auto simp: plain_txn_def distinct_map inj_on_def)
    ultimately show ?thesis using rd(5) assms(5) by (auto simp: check_prepared_read_def split: if_splits)
  qed
qed

section \<open>What a prepare does\<close>

lemma om_insert_idem [simp]: "om_insert k v (om_insert k v m) = om_insert k v m"
  by (induction k v m rule: om_insert.induct) auto

lemma prepare_fields [simp]:
  "store (fold (prepare_read pe d T) rs s) = store s" "committedReads (fold (prepare_read pe d T) rs s) = committedReads s"
  "prepared (fold (prepare_read pe d T) rs s) = prepared s" "preparedWrites (fold (prepare_read pe d T) rs s) = preparedWrites s"
  "store (fold (prepare_write pe ts T) ws s) = store s" "committedReads (fold (prepare_write pe ts T) ws s) = committedReads s"
  "prepared (fold (prepare_write pe ts T) ws s) = prepared s" "preparedReads (fold (prepare_write pe ts T) ws s) = preparedReads s"
  by (induction rs arbitrary: s, simp_all add: prepare_read_def)
    (induction ws arbitrary: s, simp_all add: prepare_write_def)+

lemma prepare_read_lookup:
  "lookup_list (preparedReads (fold (prepare_read pe d T) rs s)) k =
     (if \<exists>r \<in> set rs. read_key r = k \<and> \<not> read_is_table_col_version r \<and> IsKeyOwned pe k
      then om_insert d T (lookup_list (preparedReads s) k) else lookup_list (preparedReads s) k)"
  by (induction rs arbitrary: s) (auto simp: prepare_read_def)

lemma prepare_write_lookup:
  "lookup_list (preparedWrites (fold (prepare_write pe ts T) ws s)) k =
     (if \<exists>w \<in> set ws. write_key w = k \<and> \<not> write_is_table_col_version w \<and> IsKeyOwned pe k
      then om_insert ts T (lookup_list (preparedWrites s) k) else lookup_list (preparedWrites s) k)"
  by (induction ws arbitrary: s) (auto simp: prepare_write_def)

lemma Prepare_core:
  assumes "Prepare pe d txn rs s = Some s'" "ongoing s d = Some og" "prepared s d = None"
  shows "store s' = store s" "committedReads s' = committedReads s"
    "prepared s' = (prepared s)(d \<mapsto> (timestamp txn, og_txn og))"
    "lookup_list (preparedReads s') k =
       (if \<exists>r \<in> set rs. read_key r = k \<and> \<not> read_is_table_col_version r \<and> IsKeyOwned pe k
        then om_insert d (og_txn og) (lookup_list (preparedReads s) k) else lookup_list (preparedReads s) k)"
    "lookup_list (preparedWrites s') k =
       (if \<exists>w \<in> set (write_set txn). write_key w = k \<and> \<not> write_is_table_col_version w \<and> IsKeyOwned pe k
        then om_insert (timestamp txn) (og_txn og) (lookup_list (preparedWrites s) k)
        else lookup_list (preparedWrites s) k)"
proof -
  define s1 where "s1 = s\<lparr>prepared := (prepared s)(d \<mapsto> (timestamp txn, og_txn og))\<rparr>"
  define s2 where "s2 = fold (prepare_write pe (timestamp txn) (og_txn og)) (write_set txn)
      (fold (prepare_read pe d (og_txn og)) rs s1)"
  have "cc_core s' = cc_core s2"
    using assms by (auto simp: Prepare_def Let_def s1_def s2_def bind_eq_Some_conv split: if_splits
        dest!: core_RecordReadPredicatesAndWrites)
  note c = cc_coreD [OF this]
  show "store s' = store s" "committedReads s' = committedReads s"
    "prepared s' = (prepared s)(d \<mapsto> (timestamp txn, og_txn og))"
    using c by (simp_all add: s2_def s1_def)
  show "lookup_list (preparedReads s') k =
       (if \<exists>r \<in> set rs. read_key r = k \<and> \<not> read_is_table_col_version r \<and> IsKeyOwned pe k
        then om_insert d (og_txn og) (lookup_list (preparedReads s) k) else lookup_list (preparedReads s) k)"
    "lookup_list (preparedWrites s') k =
       (if \<exists>w \<in> set (write_set txn). write_key w = k \<and> \<not> write_is_table_col_version w \<and> IsKeyOwned pe k
        then om_insert (timestamp txn) (og_txn og) (lookup_list (preparedWrites s) k)
        else lookup_list (preparedWrites s) k)"
    unfolding c s2_def prepare_fields prepare_read_lookup prepare_write_lookup by (auto simp: s1_def)
qed

lemma indexed_prepared_mono:
  assumes "indexed_prepared pe s d T" "prepared s' d = prepared s d"
    "\<And>k. cleans_read pe T k \<Longrightarrow> preads_at s' k d = preads_at s k d"
    "\<And>k. pwrites_at s k (timestamp T) \<noteq> None \<Longrightarrow> pwrites_at s' k (timestamp T) \<noteq> None"
  shows "indexed_prepared pe s' d T"
  using assms by (auto simp: indexed_prepared_def owned_reads_def cleans_read_def) fastforce+

lemma indexed_committed_mono:
  assumes "indexed_committed pe s T" "\<And>k x. creads_at s k x \<noteq> None \<Longrightarrow> creads_at s' k x \<noteq> None"
    "\<And>k t. versions_at s k t \<noteq> None \<Longrightarrow> versions_at s' k t \<noteq> None"
  shows "indexed_committed pe s' T"
  using assms unfolding indexed_committed_def by blast

lemma plain_txn_core: "txn_core T' = txn_core T \<Longrightarrow> plain_txn T' = plain_txn T"
  by (simp add: plain_txn_def txn_core_def)

lemma pass_no_conflicts:
  assumes inv: "cc_inv pe H s" and plain: "plain_txn T"
    and fresh: "\<forall>d' T'. H d' = Some T' \<longrightarrow> d' \<noteq> d \<longrightarrow> timestamp T' \<noteq> timestamp T"
    and r: "\<And>r. r \<in> set (read_set T) \<Longrightarrow> check_read pe s (timestamp T) r = None"
    and w: "\<And>w. w \<in> set (write_set T) \<Longrightarrow> check_write pe s (timestamp T) w = None"
  shows "no_conflicts pe (H(d \<mapsto> T))"
proof -
  note so = cc_invD(1,2) [OF inv]
  have one: "\<not> rw_conflict pe T T2" if "H d2 = Some T2" for d2 T2
  proof
    assume "rw_conflict pe T T2"
    then obtain x y where c: "x \<in> owned_reads pe T" "y \<in> owned_writes pe T2" "read_key x = write_key y"
      "readtime x < timestamp T2" "timestamp T2 < timestamp T" by (auto simp: rw_conflict_def)
    have "versions_at s (read_key x) (timestamp T2) \<noteq> None \<or> pwrites_at s (read_key x) (timestamp T2) \<noteq> None"
      using cc_invD(6) [OF inv that] c(2,3) unfolding indexed_prepared_def indexed_committed_def by force
    then show False using check_read_None [OF r _ _ so c(5)] c by (auto simp: owned_reads_def)
  qed
  have two: "\<not> rw_conflict pe T1 T" if h: "H d1 = Some T1" for d1 T1
  proof
    assume "rw_conflict pe T1 T"
    then obtain x y where c: "x \<in> owned_reads pe T1" "y \<in> owned_writes pe T" "read_key x = write_key y"
      "readtime x < timestamp T" "timestamp T < timestamp T1" by (auto simp: rw_conflict_def)
    have y: "y \<in> set (write_set T)" "\<not> write_is_table_col_version y" "IsKeyOwned pe (write_key y)"
      "write_value y \<noteq> Some ''d''" using c(2) plain by (auto simp: owned_writes_def plain_txn_def)
    note cw = check_write_None [OF w [OF y(1)] y(2,3) so(1) y(4)]
    from cc_invD(6) [OF inv h] show False
    proof
      assume "indexed_committed pe s T1"
      then have "creads_at s (write_key y) (timestamp T1, readtime x) \<noteq> None"
        using c(1) unfolding c(3) [symmetric] indexed_committed_def by blast
      then show False using cw(1) c(4,5) by blast
    next
      assume "indexed_prepared pe s d1 T1"
      then obtain T' where T': "preads_at s (write_key y) d1 = Some T'" "txn_core T' = txn_core T1"
        using c(1) unfolding c(3) [symmetric] indexed_prepared_def by blast
      then show False
        using cw(2) [OF T'(1), of x] cc_invD(5) [OF inv h] plain_txn_core [OF T'(2)] txn_core_cong [OF T'(2)] c
        by (auto simp: owned_reads_def)
    qed
  qed
  have "\<not> rw_conflict pe T T" by (auto simp: rw_conflict_def)
  then show ?thesis using one two cc_invD(4) [OF inv] fresh
    by (auto simp: no_conflicts_def) metis+
qed

lemma Prepare_inv:
  assumes inv: "cc_inv pe H s" and plain: "plain_txn T" and nc: "no_conflicts pe (H(d \<mapsto> T))"
    and p: "Prepare pe d T' (read_set T) s = Some s'" and og: "ongoing s d = Some og" "og_txn og = T'"
    and new: "prepared s d = None" and core: "txn_core T' = txn_core T"
  shows "cc_inv pe (H(d \<mapsto> T)) s'"
proof -
  note pc = Prepare_core [OF p og(1) new, unfolded og(2)] and tc = txn_core_cong [OF core]
  note so = cc_invD(1-3) [OF inv]
  have nopr: "preads_at s k d = None" for k
    using prepared_knownD(2) [OF so(3), of k d] new by (cases "preads_at s k d") auto
  have pr: "preads_at s' k d' = (if d' = d \<and> cleans_read pe T k then Some T' else preads_at s k d')" for k d'
    using so(1) nopr [of k] by (auto simp: pc(4) sorted_ok_def map_of_om_insert cleans_read_def)
  have pw: "pwrites_at s' k t \<noteq> None" if "pwrites_at s k t \<noteq> None" for k t
    using so(1) that by (auto simp: pc(5) sorted_ok_def map_of_om_insert split: option.splits)
  have self: "indexed_prepared pe s' d T" unfolding indexed_prepared_def
  proof (intro conjI ballI)
    show "\<exists>T'. prepared s' d = Some (timestamp T, T') \<and> txn_core T' = txn_core T"
      using core tc(3) by (simp add: pc(3))
    show "\<exists>T'. preads_at s' (read_key r) d = Some T' \<and> txn_core T' = txn_core T" if "r \<in> owned_reads pe T" for r
      using that core by (auto simp: pr owned_reads_def cleans_read_def)
    show "pwrites_at s' (write_key w) (timestamp T) \<noteq> None" if "w \<in> owned_writes pe T" for w
      using that so(1) tc(2,3) by (auto simp: pc(5) owned_writes_def sorted_ok_def map_of_om_insert split: option.splits)
  qed
  have prep: "indexed_prepared pe s' d2 T2" if "indexed_prepared pe s d2 T2" "d2 \<noteq> d" for d2 T2
    using that(1) by (rule indexed_prepared_mono) (use that(2) pw in \<open>auto simp: pc(3) pr\<close>)
  have comm: "indexed_committed pe s' T2" if "indexed_committed pe s T2" for T2
    using that by (rule indexed_committed_mono) (simp_all add: pc)
  show ?thesis
  proof (rule cc_invI)
    show "sorted_ok s'" using so(1) by (simp add: sorted_ok_def pc)
    show "no_deletions s'" using so(2) by (simp add: no_deletions_def pc)
    show "no_conflicts pe (H(d \<mapsto> T))" by fact
    show "prepared_known pe (H(d \<mapsto> T)) s'" unfolding prepared_known_def
    proof (intro conjI allI impI)
      fix d2 t T2 assume a: "prepared s' d2 = Some (t, T2)"
      have "t = timestamp T2 \<and> (\<exists>T'. (H(d \<mapsto> T)) d2 = Some T' \<and> txn_core T2 = txn_core T')"
      proof (cases "d2 = d")
        case True
        then show ?thesis using a core by (auto simp: pc(3))
      next
        case False
        then show ?thesis using a prepared_knownD(1) [OF so(3), of d2 t T2] by (simp add: pc(3))
      qed
      then show "t = timestamp T2" "\<exists>T'. (H(d \<mapsto> T)) d2 = Some T' \<and> txn_core T2 = txn_core T'" by blast+
    next
      fix k d2 T2 assume a: "preads_at s' k d2 = Some T2"
      show "\<exists>t T''. prepared s' d2 = Some (t, T'') \<and> txn_core T2 = txn_core T'' \<and> cleans_read pe T'' k"
      proof (cases "d2 = d")
        case True
        then show ?thesis using a nopr [of k] tc(6) by (simp add: pc(3) pr split: if_splits)
      next
        case False
        then show ?thesis using a prepared_knownD(2) [OF so(3), of k d2 T2] by (simp add: pc(3) pr)
      qed
    qed
    fix d2 T2 assume h: "(H(d \<mapsto> T)) d2 = Some T2"
    show "plain_txn T2" using h plain cc_invD(5) [OF inv, of d2 T2] by (cases "d2 = d") auto
    show "indexed_prepared pe s' d2 T2 \<or> indexed_committed pe s' T2"
      using h self prep comm cc_invD(6) [OF inv, of d2 T2] by (cases "d2 = d") auto
  qed
qed

section \<open>What a clean-up does\<close>

lemma clean_prepared_core:
  assumes "cc_core s1 = cc_core s2"
  shows "cc_core (clean_prepared pe d b s1) = cc_core (clean_prepared pe d b s2)"
proof -
  note c = cc_coreD [OF assms]
  have r: "preparedReads (fold (clean_read pe d) rs s1) = preparedReads (fold (clean_read pe d) rs s2)"
    if "preparedReads s1 = preparedReads s2" for rs and s1 s2 :: server
    using that
  proof (induction rs arbitrary: s1 s2)
    case (Cons x rs)
    from Cons.prems have "preparedReads (clean_read pe d x s1) = preparedReads (clean_read pe d x s2)"
      by (simp add: clean_read_def)
    from Cons.IH [OF this] show ?case by simp
  qed simp
  have w: "preparedWrites (fold (clean_write pe ts) ws s1) = preparedWrites (fold (clean_write pe ts) ws s2)"
    if "preparedWrites s1 = preparedWrites s2" for ts ws and s1 s2 :: server
    using that
  proof (induction ws arbitrary: s1 s2)
    case (Cons x ws)
    from Cons.prems have "preparedWrites (clean_write pe ts x s1) = preparedWrites (clean_write pe ts x s2)"
      by (simp add: clean_write_def)
    from Cons.IH [OF this] show ?case by simp
  qed simp
  show ?thesis
  proof (cases "prepared s2 d")
    case (Some p)
    obtain ts T where p: "p = (ts, T)" by (cases p)
    have "preparedWrites (fold (clean_write pe ts) (write_set T) (fold (clean_read pe d) (read_set T) s1)) =
        preparedWrites (fold (clean_write pe ts) (write_set T) (fold (clean_read pe d) (read_set T) s2))"
      by (rule w) (simp add: c)
    then show ?thesis using Some p r [OF c(4), of "read_set T"]
      by (simp add: cc_core_def clean_prepared_def Let_def emit_def c)
  qed (use c in \<open>simp add: cc_core_def clean_prepared_def\<close>)
qed

lemma Clean_core: "Clean pe d a h s = Some s' \<Longrightarrow> cc_core s' = cc_core (clean_prepared pe d (a \<or> h) s)"
  by (auto simp: Clean_def Let_def split: option.splits if_splits intro!: clean_prepared_core)

lemma clean_index:
  fixes d b
  assumes "cc_inv pe H s"
  defines "s' \<equiv> clean_prepared pe d b s"
  shows "sorted_ok s'" "no_deletions s'"
    "H d2 = Some T2 \<Longrightarrow> d2 \<noteq> d \<Longrightarrow> indexed_prepared pe s d2 T2 \<Longrightarrow> indexed_prepared pe s' d2 T2"
    "indexed_committed pe s T2 \<Longrightarrow> indexed_committed pe s' T2"
    "prepared_known pe (H(d := x)) s'"
proof -
  note so = cc_invD(1-3) [OF assms(1)]
  show "sorted_ok s'" using so(1)
    by (auto simp: s'_def sorted_ok_def clean_prepared_writes clean_prepared_reads split: option.splits)
  show "no_deletions s'" using so(2) by (simp add: s'_def no_deletions_def)
  have pr: "preads_at s' k d2 = preads_at s k d2" if "d2 \<noteq> d" for k d2
    using that by (auto simp: s'_def clean_prepared_reads split: option.splits)
  have gone: "preads_at s' k d = None" for k
  proof (cases "preads_at s k d")
    case (Some T')
    obtain t T'' where "prepared s d = Some (t, T'')" "cleans_read pe T'' k"
      using prepared_knownD(2) [OF so(3) Some] by blast
    then show ?thesis by (simp add: s'_def clean_prepared_reads)
  qed (auto simp: s'_def clean_prepared_reads split: option.splits)
  show "indexed_prepared pe s' d2 T2" if "H d2 = Some T2" "d2 \<noteq> d" "indexed_prepared pe s d2 T2"
    using that(3)
  proof (rule indexed_prepared_mono)
    fix k assume "pwrites_at s k (timestamp T2) \<noteq> None"
    moreover have "t \<noteq> timestamp T2" if prep: "prepared s d = Some (t, T')" for t T'
    proof -
      obtain T where T: "t = timestamp T'" "H d = Some T" "txn_core T' = txn_core T"
        using prepared_knownD(1) [OF so(3) prep] by blast
      have "timestamp T \<noteq> timestamp T2"
        using no_conflictsD(1) [OF cc_invD(4) [OF assms(1)] T(2) \<open>H d2 = Some T2\<close>] \<open>d2 \<noteq> d\<close> by blast
      then show ?thesis using T(1) txn_core_cong(3) [OF T(3)] by simp
    qed
    ultimately show "pwrites_at s' k (timestamp T2) \<noteq> None"
      by (auto simp: s'_def clean_prepared_writes split: option.splits)
  qed (use that(2) pr in \<open>simp_all add: s'_def\<close>)
  show "indexed_committed pe s T2 \<Longrightarrow> indexed_committed pe s' T2"
    by (erule indexed_committed_mono) (simp_all add: s'_def)
  show "prepared_known pe (H(d := x)) s'" unfolding prepared_known_def
  proof (intro conjI allI impI)
    fix d2 t T' assume "prepared s' d2 = Some (t, T')"
    then have "prepared s d2 = Some (t, T')" "d2 \<noteq> d" by (auto simp: s'_def split: if_splits)
    then show "t = timestamp T'" "\<exists>T. (H(d := x)) d2 = Some T \<and> txn_core T' = txn_core T"
      using prepared_knownD(1) [OF so(3), of d2 t T'] by simp_all
  next
    fix k d2 T' assume a: "preads_at s' k d2 = Some T'"
    then have "d2 \<noteq> d" using gone by auto
    then show "\<exists>t T''. prepared s' d2 = Some (t, T'') \<and> txn_core T' = txn_core T'' \<and> cleans_read pe T'' k"
      using a pr prepared_knownD(2) [OF so(3), of k d2 T'] by (simp add: s'_def)
  qed
qed

lemma no_conflicts_remove: "no_conflicts pe H \<Longrightarrow> no_conflicts pe (H(d := None))"
  unfolding no_conflicts_def by (auto split: if_splits)

lemma Clean_inv:
  assumes "cc_inv pe H s" "cc_core s' = cc_core (clean_prepared pe d b s)"
  shows "cc_inv pe (H(d := None)) s'"
proof -
  note ci = clean_index [OF assms(1), where d = d and b = b]
  have "cc_inv pe (H(d := None)) (clean_prepared pe d b s)"
  proof (rule cc_invI)
    show "no_conflicts pe (H(d := None))" using no_conflicts_remove [OF cc_invD(4) [OF assms(1)]] .
    fix d2 T2 assume "(H(d := None)) d2 = Some T2"
    then have "H d2 = Some T2" "d2 \<noteq> d" by (auto split: if_splits)
    then show "plain_txn T2"
      "indexed_prepared pe (clean_prepared pe d b s) d2 T2 \<or> indexed_committed pe (clean_prepared pe d b s) T2"
      using cc_invD(5,6) [OF assms(1)] ci(3,4) by blast+
  qed (rule ci)+
  then show ?thesis using cc_inv_core [OF assms(2)] by simp
qed

lemma Abort_inv:
  assumes "cc_inv pe H s" "Abort pe d txn s = Some s'"
  shows "cc_inv pe (H(d := None)) s'"
proof -
  obtain s1 s2 s4 where c: "Clean pe d True False (s\<lparr>aborted := insert d (aborted s)\<rparr>) = Some s1"
    and r: "CheckDependents pe d s1 = Some s2"
      "CleanQueries pe txn (ClearRTS pe (map read_key (read_set txn)) (timestamp txn) (CleanDependencies d s2)) = Some s4"
    and w: "cc_core s' = cc_core s4"
    using assms(2) by (auto simp: Abort_def bind_eq_Some_conv Let_def dest!: core_CheckWaitingQueries)
  have "cc_core s' = cc_core (clean_prepared pe d (True \<or> False) s)"
    using w core_CleanQueries [OF r(2)] core_CheckDependents [OF r(1)] Clean_core [OF c]
      clean_prepared_core [of "s\<lparr>aborted := insert d (aborted s)\<rparr>" s] by simp
  then show ?thesis using Clean_inv [OF assms(1)] by blast
qed

section \<open>What a commit does\<close>

text \<open>A step that only adds entries to the indexes.\<close>

definition grows :: "server \<Rightarrow> server \<Rightarrow> bool" where
  "grows s s' \<longleftrightarrow> prepared s' = prepared s \<and> preparedReads s' = preparedReads s \<and>
     (sorted_ok s \<longrightarrow> sorted_ok s' \<and> (no_deletions s \<longrightarrow> no_deletions s') \<and>
        (\<forall>k t. pwrites_at s k t \<noteq> None \<longrightarrow> pwrites_at s' k t \<noteq> None) \<and>
        (\<forall>k x. creads_at s k x \<noteq> None \<longrightarrow> creads_at s' k x \<noteq> None) \<and>
        (\<forall>k t. versions_at s k t \<noteq> None \<longrightarrow> versions_at s' k t \<noteq> None))"

lemma growsD:
  assumes "grows s s'"
  shows "prepared s' = prepared s" "preparedReads s' = preparedReads s" "sorted_ok s \<Longrightarrow> sorted_ok s'"
    "sorted_ok s \<Longrightarrow> no_deletions s \<Longrightarrow> no_deletions s'"
    "sorted_ok s \<Longrightarrow> pwrites_at s k t \<noteq> None \<Longrightarrow> pwrites_at s' k t \<noteq> None"
    "sorted_ok s \<Longrightarrow> creads_at s k x \<noteq> None \<Longrightarrow> creads_at s' k x \<noteq> None"
    "sorted_ok s \<Longrightarrow> versions_at s k t \<noteq> None \<Longrightarrow> versions_at s' k t \<noteq> None"
  using assms unfolding grows_def by blast+

lemma grows_core: "cc_core s' = cc_core s \<Longrightarrow> grows s s'"
  by (auto simp: grows_def sorted_ok_def no_deletions_def cc_core_def)

lemma grows_trans: "grows s s' \<Longrightarrow> grows s' s'' \<Longrightarrow> grows s s''"
  unfolding grows_def by simp

lemma grows_fold: "(\<And>x s. P x \<Longrightarrow> grows s (f x s)) \<Longrightarrow> \<forall>x \<in> set xs. P x \<Longrightarrow> grows s (fold f xs s)"
proof (induction xs arbitrary: s)
  case (Cons x xs)
  then have "grows s (f x s)" "grows (f x s) (fold f xs (f x s))" by simp_all
  then show ?case using grows_trans by simp
qed (simp add: grows_core)

lemma grows_inv:
  assumes inv: "cc_inv pe H s" and g: "grows s s'"
  shows "cc_inv pe H s'"
proof (rule cc_invI)
  note so = cc_invD(1-3) [OF inv] and gd = growsD [OF g]
  show "sorted_ok s'" "no_deletions s'" using so gd(3,4) by blast+
  show "prepared_known pe H s'" using so(3) by (simp add: prepared_known_def gd(1,2))
  show "no_conflicts pe H" by (rule cc_invD(4) [OF inv])
  fix d T assume h: "H d = Some T"
  show "plain_txn T" by (rule cc_invD(5) [OF inv h])
  have "indexed_prepared pe s' d T" if "indexed_prepared pe s d T"
    using that by (rule indexed_prepared_mono) (use gd(5) [OF so(1)] in \<open>simp_all add: gd(1,2)\<close>)
  moreover have "indexed_committed pe s' T" if "indexed_committed pe s T"
    using that by (rule indexed_committed_mono) (use gd(6,7) [OF so(1)] in simp_all)
  ultimately show "indexed_prepared pe s' d T \<or> indexed_committed pe s' T" using cc_invD(6) [OF inv h] by blast
qed

lemma grows_put:
  "val_val v \<noteq> ''d'' \<Longrightarrow> grows s (s\<lparr>store := vs_put k v t (store s)\<rparr>)"
  "sorted_ok s \<Longrightarrow> versions_at (s\<lparr>store := vs_put k v t (store s)\<rparr>) k t \<noteq> None"
  by (auto simp: grows_def sorted_ok_def no_deletions_def vs_put_def map_of_om_insert split: option.splits if_splits)

lemma grows_pwrite:
  "grows s (s\<lparr>preparedWrites := (preparedWrites s)(k \<mapsto> om_insert t T (lookup_list (preparedWrites s) k))\<rparr>)"
  by (auto simp: grows_def sorted_ok_def no_deletions_def map_of_om_insert split: option.splits if_splits)

lemma grows_commit_read:
  "grows s (commit_read pe ts p r s)"
  "sorted_ok s \<Longrightarrow> \<not> read_is_table_col_version r \<Longrightarrow> IsKeyOwned pe (read_key r) \<Longrightarrow>
   creads_at (commit_read pe ts p r s) (read_key r) (ts, readtime r) \<noteq> None"
  by (auto simp: grows_def sorted_ok_def no_deletions_def commit_read_def map_of_om_insert split: option.splits if_splits)

lemma commit_reads_index:
  assumes "sorted_ok s" "r \<in> set rs" "\<not> read_is_table_col_version r" "IsKeyOwned pe (read_key r)"
  shows "creads_at (fold (commit_read pe ts p) rs s) (read_key r) (ts, readtime r) \<noteq> None"
  using assms(1,2)
proof (induction rs arbitrary: s)
  case (Cons x rs)
  let ?s = "commit_read pe ts p x s"
  have so: "sorted_ok ?s" using growsD(3) [OF grows_commit_read(1)] Cons.prems(1) by blast
  show ?case
  proof (cases "x = r")
    case True
    have "creads_at ?s (read_key r) (ts, readtime r) \<noteq> None"
      using grows_commit_read(2) [OF Cons.prems(1) assms(3,4)] True by simp
    moreover have "grows ?s (fold (commit_read pe ts p) rs ?s)"
      by (rule grows_fold [where P = "\<lambda>_. True"]) (simp_all add: grows_commit_read)
    ultimately show ?thesis using growsD(6) so by simp
  qed (use Cons so in simp)
qed simp

lemma commit_writes_index:
  assumes "commit_writes pe txn ts ws v s = Some s'" "val_val v \<noteq> ''d''" "\<forall>w \<in> set ws. write_value w \<noteq> Some ''d''"
  shows "grows s s'"
    "sorted_ok s \<Longrightarrow> w \<in> set ws \<Longrightarrow> \<not> write_is_table_col_version w \<Longrightarrow> IsKeyOwned pe (write_key w) \<Longrightarrow>
     versions_at s' (write_key w) ts \<noteq> None"
proof -
  have "grows s s' \<and> (sorted_ok s \<longrightarrow> (\<forall>w \<in> set ws. \<not> write_is_table_col_version w \<longrightarrow> IsKeyOwned pe (write_key w) \<longrightarrow>
     versions_at s' (write_key w) ts \<noteq> None))"
    using assms
  proof (induction pe txn ts ws v s rule: commit_writes.induct)
    case (2 pe txn ts x ws v s)
    show ?case
    proof (cases "write_is_table_col_version x \<or> \<not> IsKeyOwned pe (write_key x)")
      case False
      define v' where "v' = (case write_value x of None \<Rightarrow> v | Some u \<Rightarrow> v\<lparr>val_val := u\<rparr>)"
      define s1 where "s1 = s\<lparr>store := vs_put (write_key x) v' ts (store s)\<rparr>"
      define s2 where "s2 = commit_rts pe (write_key x) ts s1"
      have v: "val_val v' \<noteq> ''d''" using 2(4,5) by (auto simp: v'_def split: option.splits)
      have c: "commit_writes pe txn ts ws v' s2 = Some s'" "write_value x \<noteq> None \<or> sql_mode pe" "txndigest txn \<noteq> None"
        using 2(3) False by (auto simp: v'_def s1_def s2_def Let_def split: if_splits)
      have g: "grows s s1" "grows s1 s2" using grows_put(1) [OF v] by (simp_all add: s1_def s2_def grows_core)
      have ih: "grows s2 s' \<and> (sorted_ok s2 \<longrightarrow> (\<forall>w \<in> set ws. \<not> write_is_table_col_version w \<longrightarrow>
          IsKeyOwned pe (write_key w) \<longrightarrow> versions_at s' (write_key w) ts \<noteq> None))"
        by (rule 2(2) [OF False _ _ v'_def refl, folded s1_def s2_def]) (use c v 2(5) in auto)
      have "versions_at s' (write_key x) ts \<noteq> None" if "sorted_ok s"
        using growsD(7) [OF grows_trans [OF g(2)], of s'] ih grows_put(2) [OF that, of "write_key x" v' ts]
          growsD(3) [OF g(1) that] by (simp add: s1_def)
      moreover have "sorted_ok s \<Longrightarrow> sorted_ok s2" using growsD(3) g by blast
      ultimately show ?thesis using ih g grows_trans by auto
    qed (use 2 in auto)
  qed (simp add: grows_core)
  then show "grows s s'"
    "sorted_ok s \<Longrightarrow> w \<in> set ws \<Longrightarrow> \<not> write_is_table_col_version w \<Longrightarrow> IsKeyOwned pe (write_key w) \<Longrightarrow>
     versions_at s' (write_key w) ts \<noteq> None" by blast+
qed

text \<open>The configuration in which the client merges the read sets of its queries.\<close>

definition client_merges :: "params \<Rightarrow> bool" where
  "client_merges pe \<longleftrightarrow> \<not> cacheReadSet pe \<and> mergeActiveAtClient pe"

lemma merge_client_merges: "client_merges pe \<Longrightarrow> mergeTxReadSets pe a d txn s = Some (base_sets CC_COMMIT txn, s)"
  by (simp add: mergeTxReadSets_def client_merges_def)

lemma CommitToStore_index:
  assumes "CommitToStore pe proof txn d (timestamp txn) s = Some (txn', proof', s')" "client_merges pe" "plain_txn txn"
  shows "grows s s'" "sorted_ok s \<Longrightarrow> indexed_committed pe s' txn" "txn' = txn"
proof -
  let ?s = "fold (commit_read pe (timestamp txn) proof') (read_set txn) s"
  obtain s2 where t: "txn' = txn" and w: "commit_writes pe txn (timestamp txn) (write_set txn) \<lparr>val_val = [], val_proof = proof'\<rparr> ?s = Some s2"
    and c: "cc_core s' = cc_core s2"
    using assms(1) merge_client_merges [OF assms(2)]
    by (auto simp: CommitToStore_def UpdateCommittedReads_def bind_eq_Some_conv Let_def base_sets_def
        split: if_splits dest!: core_RecordReadPredicatesAndWrites)
  show "txn' = txn" by (rule t)
  have g: "grows s ?s" by (rule grows_fold [where P = "\<lambda>_. True"]) (simp_all add: grows_commit_read)
  note ci = commit_writes_index [OF w]
  have pv: "\<forall>w \<in> set (write_set txn). write_value w \<noteq> Some ''d''" using assms(3) by (simp add: plain_txn_def)
  have g2: "grows ?s s2" using ci(1) pv by simp
  show "grows s s'" using g g2 grows_core [OF c] grows_trans by blast
  show "indexed_committed pe s' txn" if so: "sorted_ok s"
  proof -
    have so1: "sorted_ok ?s" using growsD(3) [OF g so] .
    have "creads_at s2 (read_key r) (timestamp txn, readtime r) \<noteq> None" if "r \<in> owned_reads pe txn" for r
      using growsD(6) [OF g2 so1] commit_reads_index [OF so, of r] that by (simp add: owned_reads_def)
    moreover have "versions_at s2 (write_key w) (timestamp txn) \<noteq> None" if "w \<in> owned_writes pe txn" for w
      using ci(2) [OF _ pv so1] that by (simp add: owned_writes_def)
    ultimately show ?thesis using cc_coreD [OF c] by (simp add: indexed_committed_def)
  qed
qed

lemma indexed_committed_cong:
  assumes "txn_core T' = txn_core T"
  shows "indexed_committed pe s T' = indexed_committed pe s T"
  by (simp add: indexed_committed_def txn_core_cong [OF assms])

lemma clean_committed_inv:
  assumes inv: "cc_inv pe H s" and c: "\<And>T. H d = Some T \<Longrightarrow> indexed_committed pe s T"
  shows "cc_inv pe H (clean_prepared pe d b s)"
proof -
  note ci = clean_index [OF inv, where d = d and b = b]
  show ?thesis
  proof (rule cc_invI)
    show "prepared_known pe H (clean_prepared pe d b s)" using ci(5) [of "H d"] by simp
    show "no_conflicts pe H" by (rule cc_invD(4) [OF inv])
    fix d2 T2 assume h: "H d2 = Some T2"
    show "plain_txn T2" by (rule cc_invD(5) [OF inv h])
    show "indexed_prepared pe (clean_prepared pe d b s) d2 T2 \<or> indexed_committed pe (clean_prepared pe d b s) T2"
      using cc_invD(6) [OF inv h] ci(3,4) h c by (cases "d2 = d") blast+
  qed (rule ci)+
qed

lemma commit_txn_inv:
  assumes inv: "cc_inv pe H s" and cm: "client_merges pe" and plain: "plain_txn txn"
    and same: "\<forall>T. H d = Some T \<longrightarrow> txn_core txn = txn_core T" and c: "commit_txn pe d txn proof s = Some s'"
  shows "cc_inv pe H s'"
proof (cases "committed s d")
  case None
  let ?s = "s\<lparr>committed := (committed s)(d \<mapsto> proof)\<rparr>"
  obtain txn' proof' s1 s2 s3 where t: "CommitToStore pe proof txn d (timestamp txn) ?s = Some (txn', proof', s1)"
    and cl: "Clean pe d False False (s1\<lparr>committed := (committed s1)(d \<mapsto> proof')\<rparr>) = Some s2"
    and r: "CheckDependents pe d s2 = Some s3" "CleanQueries pe txn' (CleanDependencies d s3) = Some s'"
    using c None by (auto simp: commit_txn_def bind_eq_Some_conv Let_def)
  note ci = CommitToStore_index [OF t cm plain]
  have inv0: "cc_inv pe H ?s" using inv cc_inv_core [of ?s s] by simp
  have inv1: "cc_inv pe H s1" using grows_inv [OF inv0 ci(1)] .
  have "indexed_committed pe s1 T" if "H d = Some T" for T
    using ci(2) cc_invD(1) [OF inv0] indexed_committed_cong [OF same [rule_format, OF that]] by simp
  then have "cc_inv pe H (clean_prepared pe d False s1)" using clean_committed_inv [OF inv1] by blast
  moreover have "cc_core s' = cc_core (clean_prepared pe d False s1)"
    using Clean_core [OF cl] core_CheckDependents [OF r(1)] core_CleanQueries [OF r(2)]
      clean_prepared_core [of "s1\<lparr>committed := (committed s1)(d \<mapsto> proof')\<rparr>" s1] by simp
  ultimately show ?thesis using cc_inv_core by blast
qed (use inv c in \<open>simp add: commit_txn_def\<close>)

lemma core_ApplyTableWrites [core_frame]:
  assumes "ApplyTableWrites pe txn ts d p c f s = Some (tables, s')"
  shows "cc_core s' = cc_core s"
proof -
  have a: "cc_core (snd (apply_tables pe ts d p c f tws s)) = cc_core s" for tws s
    by (induction pe ts d p c f tws s rule: apply_tables.induct) (auto simp: Let_def split: prod.splits)
  obtain s1 where r: "RegisterTxTS pe d txn s = Some s1" using assms by (auto simp: ApplyTableWrites_def bind_eq_Some_conv)
  obtain ts' s2 where t: "apply_tables pe ts d p c f (table_writes txn) s1 = (ts', s2)" by fastforce
  have "CheckWaitingQueries pe d (getTimestamp ts) (getID ts) False 0 (s2\<lparr>materialized := insert d (materialized s2)\<rparr>) = Some s'"
    using assms r t by (simp add: ApplyTableWrites_def bind_eq_Some_conv)
  from core_CheckWaitingQueries [OF this] show ?thesis
    using core_RegisterTxTS [OF r] a [of "table_writes txn" s1] t by simp
qed

lemma grows_jobs:
  "prepare_job pe txn ts d s = Some s' \<Longrightarrow> grows s s'"
  "commit_job pe txn ts d proof s = Some s' \<Longrightarrow> grows s s'"
proof -
  show "grows s s'" if p: "prepare_job pe txn ts d s = Some s'"
  proof -
    obtain tables s1 where a: "ApplyTableWrites pe txn ts d None False False s = Some (tables, s1)"
      and s': "s' = fold (\<lambda>table s. s\<lparr>preparedWrites := (preparedWrites s)
        (table \<mapsto> om_insert ts txn (lookup_list (preparedWrites s) table))\<rparr>) tables s1"
      using p by (auto simp: prepare_job_def bind_eq_Some_conv)
    have "grows s1 s'" unfolding s' by (rule grows_fold [where P = "\<lambda>_. True"]) (simp_all add: grows_pwrite)
    then show ?thesis using grows_core [OF core_ApplyTableWrites [OF a]] grows_trans by blast
  qed
  show "grows s s'" if c: "commit_job pe txn ts d proof s = Some s'"
  proof -
    obtain tables s1 where a: "ApplyTableWrites pe txn ts d proof True False s = Some (tables, s1)"
      and s': "s' = fold (\<lambda>table s. s\<lparr>store := vs_put table \<lparr>val_val = [], val_proof = proof\<rparr> ts (store s)\<rparr>) tables s1"
      using c by (auto simp: commit_job_def bind_eq_Some_conv)
    have "grows s1 s'" unfolding s' by (rule grows_fold [where P = "\<lambda>_. True"]) (simp_all add: grows_put)
    then show ?thesis using grows_core [OF core_ApplyTableWrites [OF a]] grows_trans by blast
  qed
qed

end
