(* ===== verification/Serializability.thy ===== *)
theory Serializability
  imports Replica_Index
begin

text \<open>
  The transactions a replica has voted for never conflict.

  A replica is followed through its concurrency checks, commits, aborts and table-write jobs, together
  with its history: the transactions that passed the check and have not been aborted.  No two
  transactions of the history conflict, so their timestamp order is a serialisation.
\<close>

section \<open>What a check does\<close>

lemma mvtso_conflicts_core:
  assumes "mvtso_conflicts pe now d txn rs ds ps s = Some (v, s1)"
  shows "cc_core s1 = cc_core s" "ongoing s1 = ongoing s"
proof -
  let ?m = "if useSemanticCC pe \<and> write_set txn \<noteq> [] then CheckMonotonicTableColVersions pe d txn s else (True, s)"
  obtain b s2 where m: "?m = (b, s2)" by (cases ?m)
  have o: "ongoing (snd (monotonic_loop pe d t tables s)) = ongoing s" for t tables
    by (induction pe d t tables s rule: monotonic_loop.induct) (auto simp: Let_def split: option.splits)
  have "cc_core s2 = cc_core s" "ongoing s2 = ongoing s"
    using m core_monotonic [of pe d txn s b s2] o
    by (auto simp: CheckMonotonicTableColVersions_def split: if_splits) (metis snd_conv)
  moreover have "s1 = s \<or> s1 = s2"
    using assms m by (auto simp: mvtso_conflicts_def Let_def bind_eq_Some_conv split: if_splits option.splits prod.splits)
  ultimately show "cc_core s1 = cc_core s" "ongoing s1 = ongoing s" by auto
qed

lemma txn_core_add_dynamic_deps [simp]: "txn_core (add_dynamic_deps pe ds dyn txn) = txn_core txn"
  by (simp add: add_dynamic_deps_def txn_core_def Let_def)

lemma mvtso_conflicts_pass:
  assumes "mvtso_conflicts pe now d txn rs ds ps s = Some (Inr txn', s1)"
  shows "txn_core txn' = txn_core txn" "r \<in> set rs \<Longrightarrow> check_read pe s1 (timestamp txn) r = None"
    "w \<in> set (write_set txn) \<Longrightarrow> check_write pe s1 (timestamp txn) w = None"
  using assms by (auto simp: mvtso_conflicts_def Let_def bind_eq_Some_conv first_verdict_None
      split: if_splits option.splits prod.splits)

lemma first_verdict_Some: "first_verdict f xs = Some v \<Longrightarrow> \<exists>x \<in> set xs. f x = Some v"
  by (induction xs) (auto split: option.splits)

lemma CheckPredicates_result:
  assumes "CheckPredicates pe txn ts rs ps s = Some (x, dyn)"
  shows "x = CC_COMMIT \<or> x = CC_ABSTAIN"
proof -
  have p: "x = CC_COMMIT \<or> x = CC_ABSTAIN" if "CheckReadPred pe ts q rs s = Some (x, y)" for pe ts q rs s x y
    using that by (auto simp: CheckReadPred_def bind_eq_Some_conv split: if_splits option.splits list.splits)
  have r: "x = CC_COMMIT \<or> x = CC_ABSTAIN" if "read_preds_loop pe ts rs s qs dy = Some (x, y)" for qs dy x y
    using that by (induction pe ts rs s qs dy rule: read_preds_loop.induct) (auto split: option.splits if_splits dest!: p)
  have "x = CC_COMMIT \<or> x = CC_ABSTAIN" if "table_writes_loop pe txn ts s tws = Some x" for tws x
    using that by (induction pe txn ts s tws rule: table_writes_loop.induct)
      (auto simp: CheckTableWrites_def split: option.splits if_splits)
  then show ?thesis using assms by (auto simp: CheckPredicates_def bind_eq_Some_conv split: if_splits dest!: r)
qed

lemma mvtso_conflicts_verdict:
  assumes "mvtso_conflicts pe now d txn rs ds ps s = Some (Inl (r, c, a), s1)"
  shows "r = CC_ABORT \<or> r = CC_ABSTAIN"
proof -
  have pw: "fst v = CC_ABORT \<or> fst v = CC_ABSTAIN" if "check_prepared_write s ts r = Some v" for s ts r v
    using that by (auto simp: check_prepared_write_def GetPreceedingPreparedWrite_def split: option.splits if_splits)
  have rd: "fst v = CC_ABORT \<or> fst v = CC_ABSTAIN" if "check_read pe s ts r = Some v" for s ts r v
    using that pw [of s ts r v] by (auto simp: check_read_def split: option.splits if_splits)
  have cr: "fst v = CC_ABORT \<or> fst v = CC_ABSTAIN" if "check_committed_reads pe ts w m = Some v" for ts w m v
    using that by (induction pe ts w m rule: check_committed_reads.induct) (auto split: if_splits)
  have pr: "fst v = CC_ABORT \<or> fst v = CC_ABSTAIN" if "check_prepared_read ts w T = Some v" for ts w T v
    using that by (auto simp: check_prepared_read_def split: option.splits if_splits)
  have pv: "fst v = CC_ABORT \<or> fst v = CC_ABSTAIN" if "first_verdict (check_prepared_read ts w) xs = Some v" for ts w xs v
    using first_verdict_Some [OF that] pr by blast
  have wr: "fst v = CC_ABORT \<or> fst v = CC_ABSTAIN" if "check_write pe s ts w = Some v" for s ts w v
    using that cr [of ts w _ v] pv [of ts w _ v]
    by (auto simp: check_write_def check_rts_def split: option.splits if_splits list.splits)
  have "fst (r, c, a) = CC_ABORT \<or> fst (r, c, a) = CC_ABSTAIN" if "first_verdict (check_read pe s ts) xs = Some (r, c, a)" for s ts xs
    using first_verdict_Some [OF that] rd by blast
  moreover have "fst (r, c, a) = CC_ABORT \<or> fst (r, c, a) = CC_ABSTAIN" if "first_verdict (check_write pe s ts) xs = Some (r, c, a)" for s ts xs
    using first_verdict_Some [OF that] wr by blast
  moreover have p: "presence_loop s xs = CC_ABSTAIN" if "presence_loop s xs \<noteq> CC_COMMIT" for s xs
    using that by (induction s xs rule: presence_loop.induct) (auto simp: CheckTxLocalPresence_def Let_def split: if_splits)
  ultimately show ?thesis using assms
    by (auto simp: CheckDepLocalPresence_def mvtso_conflicts_def Let_def bind_eq_Some_conv
        split: if_splits option.splits prod.splits dest!: CheckPredicates_result dest: p)
qed

lemma DoMVTSOOCCCheck_inv:
  assumes inv: "cc_inv pe H s" and og: "ongoing s d = Some og" "og_txn og = T" and plain: "plain_txn T"
    and fresh: "\<forall>d' T'. H d' = Some T' \<longrightarrow> d' \<noteq> d \<longrightarrow> timestamp T' \<noteq> timestamp T"
    and c: "DoMVTSOOCCCheck pe now q rem d T (read_set T) ds ps fb g s = Some (out, s')"
  shows "cc_inv pe (if prepared s d = None \<and> prepared s' d \<noteq> None then H(d \<mapsto> T) else H) s'"
    "co_result out = CC_COMMIT \<or> co_result out = CC_WAIT \<Longrightarrow> prepared s' d \<noteq> None"
    "co_result out = CC_ABORT \<Longrightarrow> cc_core s' = cc_core s"
proof -
  have res: "check_deps_loop s ts ds \<noteq> CC_ABORT" for s ts ds
    using check_deps_loop_result [of s ts ds] by auto
  show "cc_inv pe (if prepared s d = None \<and> prepared s' d \<noteq> None then H(d \<mapsto> T) else H) s'"
    "co_result out = CC_COMMIT \<or> co_result out = CC_WAIT \<Longrightarrow> prepared s' d \<noteq> None"
    "co_result out = CC_ABORT \<Longrightarrow> cc_core s' = cc_core s"
  proof (atomize (full), cases "prepared s d")
    case (Some p)
    then obtain b where m: "ManageDependencies pe d T rem q fb g s = Some (b, s')" 
      and o: "co_result out = (if \<not> b then CC_WAIT else CheckDependencies_txn pe T s')"
      using c by (auto simp: DoMVTSOOCCCheck_def bind_eq_Some_conv verdict_out_def)
    note k = core_ManageDependencies [OF m]
    show "cc_inv pe (if prepared s d = None \<and> prepared s' d \<noteq> None then H(d \<mapsto> T) else H) s' \<and>
      (co_result out = CC_COMMIT \<or> co_result out = CC_WAIT \<longrightarrow> prepared s' d \<noteq> None) \<and> (co_result out = CC_ABORT \<longrightarrow> cc_core s' = cc_core s)"
      using inv Some k cc_inv_core [OF k] cc_coreD(3) [OF k] by simp
  next
    case None
    obtain v s1 where v: "mvtso_conflicts pe now d T (read_set T) ds ps s = Some (v, s1)"
      using c None by (auto simp: DoMVTSOOCCCheck_def bind_eq_Some_conv)
    note k = mvtso_conflicts_core [OF v]
    show "cc_inv pe (if prepared s d = None \<and> prepared s' d \<noteq> None then H(d \<mapsto> T) else H) s' \<and>
      (co_result out = CC_COMMIT \<or> co_result out = CC_WAIT \<longrightarrow> prepared s' d \<noteq> None) \<and> (co_result out = CC_ABORT \<longrightarrow> cc_core s' = cc_core s)"
    proof (cases v)
      case (Inl x)
      obtain r y z where x: "x = (r, y, z)" by (cases x)
      then have "s' = s1" "co_result out = r"
        using c None v Inl by (auto simp: DoMVTSOOCCCheck_def verdict_out_def)
      then show ?thesis using inv cc_inv_core [OF k(1)] cc_coreD(3) [OF k(1)] None k(1)
          mvtso_conflicts_verdict [OF v [unfolded Inl x]] by auto
    next
      case (Inr T')
      note p = mvtso_conflicts_pass [OF v [unfolded Inr]]
      obtain s2 b where pr: "Prepare pe d T' (read_set T) (set_ongoing d T' s1) = Some s2"
        and m: "ManageDependencies pe d T' rem q fb g s2 = Some (b, s')"
        and o: "co_result out = (if \<not> b then CC_WAIT else CheckDependencies_txn pe T' s')"
        using c None v Inr by (auto simp: DoMVTSOOCCCheck_def bind_eq_Some_conv verdict_out_def)
      note k2 = core_ManageDependencies [OF m]
      have inv1: "cc_inv pe H s1" using inv cc_inv_core [OF k(1)] by simp
      have nc: "no_conflicts pe (H(d \<mapsto> T))" by (rule pass_no_conflicts [OF inv1 plain fresh p(2,3)])
      have og1: "ongoing (set_ongoing d T' s1) d = Some (og\<lparr>og_txn := T'\<rparr>)" using og k(2) by (simp add: set_ongoing_def)
      have np: "prepared (set_ongoing d T' s1) d = None" using None cc_coreD(3) [OF k(1)] by (simp add: set_ongoing_def)
      have "cc_inv pe H (set_ongoing d T' s1)" using inv1 cc_inv_core [of "set_ongoing d T' s1" s1] by simp
      from Prepare_inv [OF this plain nc pr og1 _ np p(1)] have "cc_inv pe (H(d \<mapsto> T)) s'"
        using cc_inv_core [OF k2] by simp
      moreover have "prepared s' d \<noteq> None" using Prepare_core(3) [OF pr og1 np] cc_coreD(3) [OF k2] by simp
      moreover have "co_result out \<noteq> CC_ABORT" using o res by (auto simp: CheckDependencies_txn_def)
      ultimately show ?thesis using None by simp
    qed
  qed
qed

lemma DoOCCCheck_inv:
  assumes inv: "cc_inv pe H s" and cm: "client_merges pe" "occType pe = MVTSO"
    and og: "ongoing s d = Some og" "og_txn og = T" and plain: "plain_txn T"
    and fresh: "\<forall>d' T'. H d' = Some T' \<longrightarrow> d' \<noteq> d \<longrightarrow> timestamp T' \<noteq> timestamp T"
    and c: "DoOCCCheck pe now q rem d T fb g s = Some (out, s')"
  shows "cc_inv pe (if co_result out = CC_ABORT then H(d := None)
      else if prepared s d = None \<and> prepared s' d \<noteq> None then H(d \<mapsto> T) else H) s'"
    "co_result out = CC_COMMIT \<or> co_result out = CC_WAIT \<Longrightarrow> prepared s' d \<noteq> None"
proof -
  have so: "set_ongoing d T s = s" using og by (cases og) (auto simp: set_ongoing_def fun_upd_idem)
  have merge: "mergeTxReadSets pe a d T s = Some (\<lparr>mo_result = CC_COMMIT, mo_readSet = read_set T,
      mo_depSet = deps T, mo_predSet = read_predicates T, mo_txn = T\<rparr>, s)" for a
    using merge_client_merges [OF cm(1)] by (simp add: base_sets_def)
  obtain out1 s1 where k: "DoMVTSOOCCCheck pe now q rem d T (read_set T) (deps T) (read_predicates T) fb g s = Some (out1, s1)"
    using c cm(2) by (auto simp: DoOCCCheck_def merge so bind_eq_Some_conv split: if_splits)
  have r: "if co_result out1 \<noteq> CC_ABORT then (out, s') = (out1, s1)
       else out = out1 \<and> (\<exists>w. Abort pe d T (s1\<lparr>writebackMessages := w\<rparr>) = Some s')"
    using c cm by (auto simp: DoOCCCheck_def merge so k Let_def client_merges_def bind_eq_Some_conv split: if_splits)
  note i = DoMVTSOOCCCheck_inv [OF inv og plain fresh k]
  show "cc_inv pe (if co_result out = CC_ABORT then H(d := None)
      else if prepared s d = None \<and> prepared s' d \<noteq> None then H(d \<mapsto> T) else H) s'"
  proof (cases "co_result out1 = CC_ABORT")
    case True
    then obtain w where a: "out = out1" "Abort pe d T (s1\<lparr>writebackMessages := w\<rparr>) = Some s'" using r by auto
    have "cc_inv pe H (s1\<lparr>writebackMessages := w\<rparr>)"
      using inv i(3) [OF True] cc_inv_core [of "s1\<lparr>writebackMessages := w\<rparr>" s] by simp
    from Abort_inv [OF this a(2)] show ?thesis using True a(1) by simp
  qed (use r i(1) in simp)
  show "co_result out = CC_COMMIT \<or> co_result out = CC_WAIT \<Longrightarrow> prepared s' d \<noteq> None" using r i(2) by (auto split: if_splits)
qed

section \<open>Runs of a replica\<close>

text \<open>
  The last rule covers every operation that leaves the indexes alone, such as registering a transaction
  as ongoing, waking dependents or recording a vote.
\<close>

inductive replica_run :: "params \<Rightarrow> (string \<rightharpoonup> Transaction) \<Rightarrow> server \<Rightarrow> bool" for pe where
  start: "replica_run pe Map.empty init_server"
| check: "replica_run pe H s \<Longrightarrow> ongoing s d = Some og \<Longrightarrow> og_txn og = T \<Longrightarrow> plain_txn T \<Longrightarrow>
    (\<forall>d' T'. H d' = Some T' \<longrightarrow> d' \<noteq> d \<longrightarrow> timestamp T' \<noteq> timestamp T) \<Longrightarrow>
    DoOCCCheck pe now q rem d T fb g s = Some (out, s') \<Longrightarrow>
    replica_run pe (if co_result out = CC_ABORT then H(d := None)
      else if prepared s d = None \<and> prepared s' d \<noteq> None then H(d \<mapsto> T) else H) s'"
| commit: "replica_run pe H s \<Longrightarrow> plain_txn T \<Longrightarrow> (\<forall>T'. H d = Some T' \<longrightarrow> txn_core T = txn_core T') \<Longrightarrow>
    Commit_txn pe d T sigs p1 view s = Some s' \<Longrightarrow> replica_run pe H s'"
| sync: "replica_run pe H s \<Longrightarrow> plain_txn (cp_txn cp) \<Longrightarrow>
    (\<forall>T'. H d = Some T' \<longrightarrow> txn_core (cp_txn cp) = txn_core T') \<Longrightarrow>
    CommitWithProof pe d cp s = Some s' \<Longrightarrow> replica_run pe H s'"
| abort: "replica_run pe H s \<Longrightarrow> Abort pe d T s = Some s' \<Longrightarrow> replica_run pe (H(d := None)) s'"
| prepare_job: "replica_run pe H s \<Longrightarrow> prepare_job pe T ts d s = Some s' \<Longrightarrow> replica_run pe H s'"
| commit_job: "replica_run pe H s \<Longrightarrow> commit_job pe T ts d cp s = Some s' \<Longrightarrow> replica_run pe H s'"
| load: "replica_run pe H s \<Longrightarrow> value \<noteq> ''d'' \<Longrightarrow> Load key value ts s = Some s' \<Longrightarrow> replica_run pe H s'"
| other: "replica_run pe H s \<Longrightarrow> cc_core s' = cc_core s \<Longrightarrow> replica_run pe H s'"

lemma cc_inv_init: "cc_inv pe Map.empty init_server"
  by (simp add: cc_inv_def sorted_ok_def no_deletions_def prepared_known_def no_conflicts_def init_server_def vs_empty_def)

lemma replica_run_inv:
  assumes "replica_run pe H s" "client_merges pe" "occType pe = MVTSO"
  shows "cc_inv pe H s"
  using assms(1)
proof induction
  case start
  show ?case by (rule cc_inv_init)
next
  case (check H s d og T now q rem fb g out s')
  show ?case by (rule DoOCCCheck_inv(1) [OF check.IH assms(2,3) check.hyps(2-6)])
next
  case (commit H s T d sigs p1 view s')
  show ?case by (rule commit_txn_inv [OF commit.IH assms(2) commit.hyps(2,3) commit.hyps(4) [unfolded Commit_txn_def]])
next
  case (sync H s cp d s')
  show ?case by (rule commit_txn_inv [OF sync.IH assms(2) sync.hyps(2,3) sync.hyps(4) [unfolded CommitWithProof_def]])
next
  case (abort H s d T s')
  show ?case by (rule Abort_inv [OF abort.IH abort.hyps(2)])
next
  case (prepare_job H s T ts d s')
  show ?case by (rule grows_inv [OF prepare_job.IH grows_jobs(1) [OF prepare_job.hyps(2)]])
next
  case (commit_job H s T ts d cp s')
  show ?case by (rule grows_inv [OF commit_job.IH grows_jobs(2) [OF commit_job.hyps(2)]])
next
  case (load H s "value" key ts s')
  then have "grows s s'" by (auto simp: Load_def intro!: grows_put(1) split: option.splits)
  then show ?case by (rule grows_inv [OF load.IH])
next
  case (other H s s')
  then show ?case using cc_inv_core by blast
qed



section \<open>Examples\<close>

text \<open>The second transaction reads what the first one writes.\<close>

definition demo_T1 :: Transaction where
  "demo_T1 = empty_txn\<lparr>involved_groups := [0], timestamp := Timestamp 20000 1, write_set := [mk_write ''x'' ''1''], txndigest := Some ''t1''\<rparr>"

definition demo_T2 :: Transaction where
  "demo_T2 = empty_txn\<lparr>involved_groups := [0], timestamp := Timestamp 30000 2, read_set := [mk_read ''x'' (Timestamp 20000 1)],
     write_set := [mk_write ''y'' ''2''], txndigest := Some ''t2''\<rparr>"

definition demo_s0 :: server where
  "demo_s0 = init_server\<lparr>ongoing := [''t1'' \<mapsto> \<lparr>og_txn = demo_T1, num_concurrent_clients = 1\<rparr>,
     ''t2'' \<mapsto> \<lparr>og_txn = demo_T2, num_concurrent_clients = 1\<rparr>]\<rparr>"

lemmas check_defs = DoOCCCheck_def mergeTxReadSets_def DoMVTSOOCCCheck_def mvtso_conflicts_def Prepare_def Let_def
  base_sets_def CheckHighWatermark_def check_read_def check_write_def CheckDepLocalPresence_def local_deps_def
  ManageDependencies_def manage_deps_def txn_deps_def CheckDependencies_txn_def verdict_out_def set_ongoing_def
  prepare_read_def prepare_write_def GetPreceedingCommittedWrite_def vs_getPreceedingCommit_def check_rts_def
  check_prepared_write_def GetPreceedingPreparedWrite_def LockTxnKeys_scoped_def lock_loop.simps dup_head_def

definition demo_s1 :: server where
  "demo_s1 = snd (the (DoOCCCheck kv_params 40000 7 ''c'' ''t1'' demo_T1 False False demo_s0))"

definition demo_s2 :: server where
  "demo_s2 = snd (the (DoOCCCheck kv_params 40000 8 ''c'' ''t2'' demo_T2 False False demo_s1))"

lemmas demo_defs = check_defs kv_params_def demo_T1_def demo_T2_def demo_s0_def empty_txn_def mk_write_def mk_read_def
  init_server_def vs_empty_def less_Timestamp_def less_eq_Timestamp_def IsKeyOwned_def emit_def
  om_pred_lt_def

lemma demo_check1:
  "\<exists>out. DoOCCCheck kv_params 40000 7 ''c'' ''t1'' demo_T1 False False demo_s0 = Some (out, demo_s1) \<and> co_result out = CC_COMMIT"
  "prepared demo_s1 = [''t1'' \<mapsto> (Timestamp 20000 1, demo_T1)]"
  "ongoing demo_s1 ''t2'' = Some \<lparr>og_txn = demo_T2, num_concurrent_clients = 1\<rparr>"
  by (simp_all add: demo_s1_def demo_defs)

lemma demo_check2:
  "\<exists>out. DoOCCCheck kv_params 40000 8 ''c'' ''t2'' demo_T2 False False demo_s1 = Some (out, demo_s2) \<and> co_result out = CC_COMMIT"
  "prepared demo_s2 ''t2'' = Some (Timestamp 30000 2, demo_T2)"
  "aborted demo_s2 = {}"
  by (simp_all add: demo_s2_def demo_s1_def demo_defs)

lemma demo_run: "replica_run kv_params [''t1'' \<mapsto> demo_T1, ''t2'' \<mapsto> demo_T2] demo_s2"
proof -
  obtain o1 where o1: "DoOCCCheck kv_params 40000 7 ''c'' ''t1'' demo_T1 False False demo_s0 = Some (o1, demo_s1)"
    "co_result o1 = CC_COMMIT" using demo_check1(1) by blast
  obtain o2 where o2: "DoOCCCheck kv_params 40000 8 ''c'' ''t2'' demo_T2 False False demo_s1 = Some (o2, demo_s2)"
    "co_result o2 = CC_COMMIT" using demo_check2(1) by blast
  have plain: "plain_txn demo_T1" "plain_txn demo_T2"
    by (simp_all add: plain_txn_def demo_T1_def demo_T2_def empty_txn_def mk_write_def)
  have "replica_run kv_params Map.empty demo_s0" by (rule replica_run.other [OF replica_run.start]) (simp add: demo_s0_def)
  moreover have "ongoing demo_s0 ''t1'' = Some \<lparr>og_txn = demo_T1, num_concurrent_clients = 1\<rparr>" by (simp add: demo_s0_def)
  ultimately have r1: "replica_run kv_params [''t1'' \<mapsto> demo_T1] demo_s1"
    using replica_run.check [OF _ _ _ plain(1) _ o1(1)] o1(2) demo_check1(2) by (fastforce simp: demo_s0_def init_server_def)
  have "\<forall>d' T'. [''t1'' \<mapsto> demo_T1] d' = Some T' \<longrightarrow> d' \<noteq> ''t2'' \<longrightarrow> timestamp T' \<noteq> timestamp demo_T2"
    by (auto simp: demo_T1_def demo_T2_def split: if_splits)
  from replica_run.check [OF r1 demo_check1(3) _ plain(2) this o2(1)]
  show ?thesis using o2(2) demo_check1(2) demo_check2(2) by simp
qed



end
