(* ===== verification/Handlers.thy ===== *)
theory Handlers
  imports Serializability
begin

text \<open>
  The message handlers of a replica: reads, phase 1, phase 2, writeback and client aborts
  (\<open>store/pequinstore/server.cc\<close>) with the helpers of \<open>servertools.cc\<close> that check a proposal and dispatch
  it.  A signature on a reply is not part of the reply here; the reply is sent when it is there.  Work for
  another thread is an effect (\<open>Job_\<dots>\<close>), and what the job does is a definition of its own.  The switch
  that injects failures (\<open>simulate_inconsistency\<close>) is off.
\<close>

section \<open>Messages and the environment of the handlers\<close>

record Read =
  rd_req_id :: u64
  rd_key :: string
  rd_timestamp :: Timestamp

record Phase1 =
  ph1_req_id :: u64
  ph1_txn :: "Transaction option"
  ph1_signed_txn :: "SignedMessage option"
  ph1_replica_gossip :: bool

record AbortInternal =
  ab_ts :: Timestamp
  ab_read_set :: "string list"
  ab_query_ids :: "string list"

datatype AbortMsg = Abort_internal AbortInternal | Abort_signed SignedMessage | Abort_none

text \<open>Parsing and the verification of client signatures are library code.\<close>

record handler_env =
  he_crypto :: crypto
  he_config :: Configuration
  he_parse_txn :: "string \<Rightarrow> Transaction"
  he_parse_abort :: "string \<Rightarrow> AbortInternal option"
  he_client_verify :: "u64 \<Rightarrow> string \<Rightarrow> string \<Rightarrow> bool"
  he_batchVerification :: bool

section \<open>The initial state\<close>

definition genesis_txn :: Transaction where
  "genesis_txn = empty_txn\<lparr>client_id := 0, client_seq_num := 0, timestamp := Timestamp 0 0\<rparr>"

definition genesis_digest :: "params \<Rightarrow> string" where
  "genesis_digest pe = TransactionDigest (blake3 pe) genesis_txn (hashDigest pe)"

text \<open>Two entries share the proof that loaded data refers to; one of them has the empty digest.\<close>

definition start_server :: "params \<Rightarrow> server option" where
  "start_server pe = do {
     let d = genesis_digest pe;
     let proof' = Some \<lparr>cp_txn = genesis_txn\<lparr>txndigest := Some d\<rparr>, cp_sigs = No_sigs, cp_p2_view = None\<rparr>;
     m \<leftarrow> MergeTimestampId 0 0;
     Some (init_server\<lparr>committed := [[] \<mapsto> proof', d \<mapsto> proof'], ts_to_tx := [m \<mapsto> d], materialized := {d}\<rparr>)
   }"

section \<open>Reads\<close>

definition prepared_write :: "params \<Rightarrow> Timestamp \<Rightarrow> string \<Rightarrow> Timestamp option \<Rightarrow> server \<Rightarrow> Write \<Rightarrow> Write option" where
  "prepared_write pe ts key c s w =
     (case FindPreparedVersion key ts c s of
        None \<Rightarrow> Some w
      | Some txn \<Rightarrow> do {
          shallow \<leftarrow> (if maxDepDepth pe = -1 then Some True
                    else map_option (\<lambda>n. int n \<le> maxDepDepth pe) (DependencyDepth txn s));
          Some (if shallow
                then w\<lparr>w_prepared_value := Some (case first_write key (write_set txn) of None \<Rightarrow> [] | Some v \<Rightarrow> v),
                       w_prepared_timestamp := Some (timestamp txn),
                       w_prepared_txn_digest := Some (TransactionDigest (blake3 pe) txn (hashDigest pe))\<rparr>
                else w)
        })"

definition HandleRead :: "params \<Rightarrow> u64 \<Rightarrow> remote \<Rightarrow> Read \<Rightarrow> server \<Rightarrow> server option" where
  "HandleRead pe now remote msg s =
     (let ts = rd_timestamp msg; key = rd_key msg in
      if CheckHighWatermark pe now ts then Some s
      else do {
        let tsVal = vs_get (store s) key ts;
        let w = \<lparr>w_committed_value = map_option (val_val \<circ> snd) tsVal, w_committed_timestamp = map_option fst tsVal,
                 w_prepared_value = None, w_prepared_timestamp = None, w_prepared_txn_digest = None\<rparr>;
        proof' \<leftarrow> (case tsVal of
                    Some (_, v) \<Rightarrow> if validateProofs pe then map_option Some (val_proof v) else Some None
                  | None \<Rightarrow> Some None);
        (w', s1) \<leftarrow> (case occType pe of
            MVTSO \<Rightarrow>
              let s1 = SetRTS pe ts key s
              in map_option (\<lambda>w'. (w', s1))
                   (if maxDepDepth pe > -2 then prepared_write pe ts key (map_option fst tsVal) s1 w else Some w)
          | TAPIR \<Rightarrow> Some (w, s));
        Some (emit (Send_ReadReply remote \<lparr>rr_req_id = rd_req_id msg, rr_key = key, rr_proof = proof', rr_write = w'\<rparr>) s1)
      })"

section \<open>Phase 1: the proposal of a client\<close>

definition signed_txn_of :: "SignedMessage option \<Rightarrow> SignedMessage" where
  "signed_txn_of m = (case m of None \<Rightarrow> \<lparr>sm_process_id = 0, sm_data = [], sm_signature = []\<rparr> | Some sm \<Rightarrow> sm)"

definition VerifyDependencies :: "handler_env \<Rightarrow> params \<Rightarrow> Transaction \<Rightarrow> bool" where
  "VerifyDependencies en pe txn \<longleftrightarrow>
     list_all (\<lambda>dep. dep_write_sigs dep \<noteq> None \<and> ValidateDependency (he_crypto en) dep (unat (readDepSize pe))) (deps txn)"

definition VerifyClientProposal ::
  "handler_env \<Rightarrow> SignedMessage option \<Rightarrow> Transaction \<Rightarrow> string \<Rightarrow> server \<Rightarrow> (bool \<times> server) option" where
  "VerifyClientProposal en smsg txn d s =
     (let sm = signed_txn_of smsg in
      if getID (timestamp txn) \<noteq> sm_process_id sm then Some (False, s)
      else if \<not> he_client_verify en (sm_process_id sm) (sm_data sm) (sm_signature sm) then Some (False, s)
      else if smsg = None then None
      else Some (True, s\<lparr>p1MetaData := (p1MetaData s)(d \<mapsto> (p1_meta s d)\<lparr>p1_signed_txn := smsg\<rparr>)\<rparr>))"

definition CheckProposalValidity ::
  "handler_env \<Rightarrow> params \<Rightarrow> SignedMessage option \<Rightarrow> Transaction \<Rightarrow> string \<Rightarrow> server \<Rightarrow> (bool \<times> server) option" where
  "CheckProposalValidity en pe smsg txn d s =
     (if validateProofs pe \<and> signedMessages pe \<and> verifyDeps pe \<and> \<not> VerifyDependencies en pe txn then Some (False, s)
      else if signClientProposals pe then VerifyClientProposal en smsg txn d s
      else Some (True, s))"

text \<open>
  The buffered result replaces the one of the caller, but neither the buffered conflict nor, when the
  reply goes to a client that asked before, that client's request number.
\<close>

definition HandlePhase1CB ::
  "params \<Rightarrow> u64 \<Rightarrow> CCResult \<Rightarrow> CommittedProof option \<Rightarrow> string \<Rightarrow> Transaction \<Rightarrow> remote \<Rightarrow> Transaction option \<Rightarrow>
   bool \<Rightarrow> bool \<Rightarrow> server \<Rightarrow> server option" where
  "HandlePhase1CB pe reqId result conflict d txn remote abstain_conflict isGossip forceMaterialize s =
     (if result = CC_IGNORE then Some s
      else do {
        (out, s1) \<leftarrow> BufferP1Result pe result conflict d reqId (Some remote) forceMaterialize isGossip 0 s;
        s2 \<leftarrow> (if (vo_result out \<noteq> CC_WAIT \<and> \<not> isGossip) \<or> vo_original out \<noteq> None
               then SendPhase1Reply pe reqId (vo_result out) conflict d
                 (case vo_original out of None \<Rightarrow> remote | Some (r, _) \<Rightarrow> r) abstain_conflict s1
               else Some s1);
        s3 \<leftarrow> (if vo_wake_fallbacks out then WakeAllInterestedFallbacks pe d (vo_result out) conflict s2 else Some s2);
        if vo_forceMaterialize out then ForceMaterialization pe (vo_result out) d txn s3 else Some s3
      })"

definition p2_meta :: "server \<Rightarrow> string \<Rightarrow> P2MetaData" where
  "p2_meta s d = (case p2MetaDatas s d of None \<Rightarrow> new_P2MetaData | Some p \<Rightarrow> p)"

definition check_and_vote ::
  "params \<Rightarrow> u64 \<Rightarrow> u64 \<Rightarrow> remote \<Rightarrow> Transaction \<Rightarrow> string \<Rightarrow> bool \<Rightarrow> bool \<Rightarrow> server \<Rightarrow> server option" where
  "check_and_vote pe now reqId remote txn d isGossip forceMaterialize s = do {
     (out, s1) \<leftarrow> DoOCCCheck pe now reqId remote d txn False isGossip s;
     HandlePhase1CB pe reqId (co_result out) (co_conflict out) d (co_txn out) remote (co_abstain_conflict out)
       isGossip forceMaterialize s1
   }"

definition TryPrepare ::
  "params \<Rightarrow> u64 \<Rightarrow> u64 \<Rightarrow> remote \<Rightarrow> Transaction \<Rightarrow> string \<Rightarrow> bool \<Rightarrow> bool \<Rightarrow> server \<Rightarrow> server option" where
  "TryPrepare pe now reqId remote txn d isGossip forceMaterialize s =
     (let s1 = s\<lparr>p2MetaDatas := (p2MetaDatas s)(d \<mapsto> p2_meta s d)\<rparr>
      in if \<not> parallel_CCC pe \<or> \<not> mainThreadDispatching pe
         then check_and_vote pe now reqId remote txn d isGossip forceMaterialize s1
         else Some (emit (Job_TryPrepare reqId remote d isGossip forceMaterialize) s1))"

text \<open>The job finds the transaction object through the map of ongoing transactions.\<close>

definition try_prepare_job ::
  "params \<Rightarrow> u64 \<Rightarrow> u64 \<Rightarrow> remote \<Rightarrow> string \<Rightarrow> bool \<Rightarrow> bool \<Rightarrow> server \<Rightarrow> server option" where
  "try_prepare_job pe now reqId remote d isGossip forceMaterialize s =
     (case ongoing s d of
        None \<Rightarrow>
          if committed s d \<noteq> None then SendPhase1Reply pe reqId CC_COMMIT None d remote None s
          else if d \<in> aborted s then SendPhase1Reply pe reqId CC_ABSTAIN None d remote None s
          else None
      | Some og \<Rightarrow> check_and_vote pe now reqId remote (og_txn og) d isGossip forceMaterialize s)"

definition proposal_checked ::
  "handler_env \<Rightarrow> params \<Rightarrow> u64 \<Rightarrow> u64 \<Rightarrow> remote \<Rightarrow> SignedMessage option \<Rightarrow> Transaction \<Rightarrow> string \<Rightarrow> bool \<Rightarrow> bool \<Rightarrow>
   server \<Rightarrow> server option" where
  "proposal_checked en pe now reqId remote smsg txn d isGossip forceMaterialize s = do {
     (valid, s1) \<leftarrow> CheckProposalValidity en pe smsg txn d s;
     if valid then TryPrepare pe now reqId remote txn d isGossip forceMaterialize s1 else RemoveOngoing d s1
   }"

definition ProcessProposal ::
  "handler_env \<Rightarrow> params \<Rightarrow> u64 \<Rightarrow> u64 \<Rightarrow> remote \<Rightarrow> SignedMessage option \<Rightarrow> Transaction \<Rightarrow> string \<Rightarrow> bool \<Rightarrow> bool \<Rightarrow>
   server \<Rightarrow> server option" where
  "ProcessProposal en pe now reqId remote smsg txn d isGossip forceMaterialize s = do {
     s1 \<leftarrow> AddOngoing pe d txn s;
     if \<not> multiThreading pe \<or> \<not> signClientProposals pe
     then proposal_checked en pe now reqId remote smsg txn d isGossip forceMaterialize s1
     else Some (emit (Job_ProcessProposal reqId remote smsg txn d isGossip forceMaterialize) s1)
   }"

text \<open>What resumes when the last query a transaction waits for has a result.\<close>

definition resume_woken :: "params \<Rightarrow> u64 \<Rightarrow> string \<Rightarrow> waitingOnQueriesMeta \<Rightarrow> server \<Rightarrow> server option" where
  "resume_woken pe now d w s =
     (if wq_prepare_or_commit w = 0 then do {
        remote \<leftarrow> wq_remote w;
        TryPrepare pe now (wq_reqId w) remote (wq_txn w) d (wq_isGossip w) False s
      }
      else if wq_prepare_or_commit w = 1 then
        map_option (snd \<circ> snd) (UpdateCommittedReads pe (wq_txn w) d (timestamp (wq_txn w)) (wq_proof w) s)
      else None)"

section \<open>Phase 2: logging a decision\<close>

definition p2_reply :: "params \<Rightarrow> Phase2 \<Rightarrow> string \<Rightarrow> CommitDecision \<Rightarrow> u64 option \<Rightarrow> Phase2Reply" where
  "p2_reply pe msg d decision view = \<lparr>p2r_req_id = ph2_req_id msg, p2r_decision = P2_plain
     \<lparr>p2d_decision = decision, p2d_txn_digest = d, p2d_involved_group = of_int (groupIdx pe), p2d_view = view\<rparr>\<rparr>"

definition SendPhase2Reply :: "remote \<Rightarrow> Phase2Reply \<Rightarrow> server \<Rightarrow> server" where
  "SendPhase2Reply remote r s = emit (Send_Phase2Reply remote r) s"

definition HandlePhase2CB :: "params \<Rightarrow> remote \<Rightarrow> Phase2 \<Rightarrow> string \<Rightarrow> bool \<Rightarrow> server \<Rightarrow> server option" where
  "HandlePhase2CB pe remote msg d valid s =
     (if \<not> valid \<and> \<not> ph2_simulated_equiv msg then None
      else do {
        let p = p2_meta s d;
        decision \<leftarrow> (if p2_hasP2 p then p2_p2Decision p else Some (ph2_decision msg));
        let p' = p\<lparr>p2_hasP2 := True, p2_p2Decision := Some decision, p2_original := Some (ph2_req_id msg, remote)\<rparr>;
        Some (SendPhase2Reply remote
          (p2_reply pe msg d decision (if validateProofs pe then Some (p2_decision_view p) else None))
          (s\<lparr>p2MetaDatas := (p2MetaDatas s)(d \<mapsto> p')\<rparr>))
      })"

text \<open>On the path without worker threads nothing follows a successful validation.\<close>

definition ManagePhase2Validation ::
  "handler_env \<Rightarrow> params \<Rightarrow> remote \<Rightarrow> Phase2 \<Rightarrow> string \<Rightarrow> Transaction \<Rightarrow> CCResult option \<Rightarrow> server \<Rightarrow> server option" where
  "ManagePhase2Validation en pe remote msg d txn myResult s =
     (if multiThreading pe \<or> he_batchVerification en then Some (emit (Job_Phase2Validation remote msg d txn myResult) s)
      else if \<not> ValidateP1Replies (he_crypto en) (he_config en) (map_option (\<lambda>_. server_id pe) myResult)
                (case myResult of None \<Rightarrow> CC_ABORT | Some r \<Rightarrow> r) (ph2_decision msg) False txn d
                (case ph2_grouped_sigs msg of None \<Rightarrow> [] | Some gs \<Rightarrow> gs)
      then HandlePhase2CB pe remote msg d False s
      else Some s)"

definition phase2_digest :: "params \<Rightarrow> Phase2 \<Rightarrow> server \<Rightarrow> (string \<times> server) option" where
  "phase2_digest pe msg s =
     (if \<not> validateProofs pe then Some ([], s)
      else case ph2_txn_digest msg of
        Some d \<Rightarrow> Some (d, s)
      | None \<Rightarrow> do {
          txn \<leftarrow> ph2_txn msg;
          let d = TransactionDigest (blake3 pe) txn (hashDigest pe);
          s1 \<leftarrow> RegisterTxTS pe d txn s;
          Some (d, s1)
        })"

text \<open>A decision for a transaction that is not known yet is kept until its phase-1 message arrives.\<close>

definition first_phase2 :: "handler_env \<Rightarrow> params \<Rightarrow> remote \<Rightarrow> Phase2 \<Rightarrow> string \<Rightarrow> server \<Rightarrow> server option" where
  "first_phase2 en pe remote msg d s =
     (let myResult = (if ph2_simulated_equiv msg then None else LookupP1Decision d s) in
      if \<not> (validateProofs pe \<and> signedMessages pe)
      then Some (SendPhase2Reply remote (p2_reply pe msg d (ph2_decision msg) None) s)
      else case ph2_txn_digest msg of
        None \<Rightarrow> do {
          txn \<leftarrow> ph2_txn msg;
          ManagePhase2Validation en pe remote msg d txn myResult s
        }
      | Some _ \<Rightarrow>
          (case ongoing s d of
             Some og \<Rightarrow> ManagePhase2Validation en pe remote msg d (og_txn og) myResult s
           | None \<Rightarrow>
               (case ph2_txn msg of
                  Some txn \<Rightarrow>
                    if d \<noteq> TransactionDigest (blake3 pe) txn (hashDigest pe) then Some s
                    else do {
                      s1 \<leftarrow> RegisterTxTS pe d txn s;
                      ManagePhase2Validation en pe remote msg d txn myResult s1
                    }
                | None \<Rightarrow>
                    Some (if ooMessages s d = None then s\<lparr>ooMessages := (ooMessages s)(d \<mapsto> OO_p2 msg remote)\<rparr> else s))))"

definition HandlePhase2 :: "handler_env \<Rightarrow> params \<Rightarrow> remote \<Rightarrow> Phase2 \<Rightarrow> server \<Rightarrow> server option" where
  "HandlePhase2 en pe remote msg s =
     (if validateProofs pe \<and> ph2_txn msg = None \<and> ph2_txn_digest msg = None then Some s
      else do {
        (d, s0) \<leftarrow> phase2_digest pe msg s;
        let p = p2_meta s0 d;
        let s1 = s0\<lparr>p2MetaDatas := (p2MetaDatas s0)(d \<mapsto> p)\<rparr>;
        if p2_hasP2 p then do {
          decision \<leftarrow> p2_p2Decision p;
          Some (SendPhase2Reply remote
            (p2_reply pe msg d decision (if validateProofs pe then Some (p2_decision_view p) else None))
            (s1\<lparr>p2MetaDatas := (p2MetaDatas s1)(d \<mapsto> p\<lparr>p2_original := Some (ph2_req_id msg, remote)\<rparr>)\<rparr>))
        }
        else if committed s1 d \<noteq> None then Some (SendPhase2Reply remote (p2_reply pe msg d COMMIT (Some 0)) s1)
        else if d \<in> aborted s1 then Some (SendPhase2Reply remote (p2_reply pe msg d ABORT (Some 0)) s1)
        else first_phase2 en pe remote msg d s1
      })"

section \<open>Writeback: applying a decision\<close>

definition WritebackCallback :: "params \<Rightarrow> Writeback \<Rightarrow> string \<Rightarrow> Transaction \<Rightarrow> bool \<Rightarrow> server \<Rightarrow> server option" where
  "WritebackCallback pe msg d txn valid s =
     (if \<not> valid then None
      else if committed s d \<noteq> None \<or> d \<in> aborted s then Some s
      else case wb_decision msg of
        COMMIT \<Rightarrow>
          (case wb_proof msg of
             WB_p1_sigs gs \<Rightarrow> Commit_txn pe d txn gs True (- 1) s
           | WB_p2_sigs gs \<Rightarrow> Commit_txn pe d txn gs False (case wb_p2_view msg of None \<Rightarrow> 0 | Some v \<Rightarrow> v) s
           | _ \<Rightarrow> Commit_txn pe d txn [] False 0 s)
      | ABORT \<Rightarrow>
          Abort pe d txn (s\<lparr>writebackMessages := (case writebackMessages s d of
             None \<Rightarrow> (writebackMessages s)(d \<mapsto> msg\<lparr>wb_txn := Some txn\<rparr>) | Some _ \<Rightarrow> writebackMessages s)\<rparr>))"

text \<open>The inner \<open>None\<close> is a message that is dropped without an answer.\<close>

definition validate_writeback ::
  "handler_env \<Rightarrow> params \<Rightarrow> Writeback \<Rightarrow> string \<Rightarrow> Transaction \<Rightarrow> server \<Rightarrow> bool option option" where
  "validate_writeback en pe msg d txn s =
     (let cr = he_crypto en; config = he_config en in
      case wb_proof msg of
        WB_p1_sigs gs \<Rightarrow>
          if \<not> signedMessages pe then Some (Some True)
          else let r = LookupP1Decision d s
               in Some (Some (ValidateP1Replies cr config (map_option (\<lambda>_. server_id pe) r)
                    (case r of None \<Rightarrow> CC_ABORT | Some r \<Rightarrow> r) (wb_decision msg) True txn d gs))
      | WB_p2_sigs gs \<Rightarrow>
          if \<not> signedMessages pe then Some (Some True)
          else (case wb_p2_view msg of
                  None \<Rightarrow> Some None
                | Some view \<Rightarrow>
                    let r = LookupP2Decision d s
                    in map_option Some (ValidateP2Replies cr config (map_option (\<lambda>_. server_id pe) r)
                         (case r of None \<Rightarrow> ABORT | Some r \<Rightarrow> r) (wb_decision msg) view txn d gs))
      | WB_conflict cp \<Rightarrow>
          if wb_decision msg = ABORT
          then map_option Some (ValidateCommittedConflict cr config (signedMessages pe) cp
                 (TransactionDigest (blake3 pe) (cp_txn cp) (hashDigest pe)) txn)
          else Some (Some (\<not> signedMessages pe))
      | WB_none \<Rightarrow> Some (Some (\<not> signedMessages pe)))"

definition validates_later :: "params \<Rightarrow> Writeback \<Rightarrow> bool" where
  "validates_later pe msg =
     (case wb_proof msg of
        WB_p1_sigs _ \<Rightarrow> signedMessages pe
      | WB_p2_sigs _ \<Rightarrow> signedMessages pe \<and> wb_p2_view msg \<noteq> None
      | WB_conflict _ \<Rightarrow> wb_decision msg = ABORT
      | WB_none \<Rightarrow> False)"

definition ManageWritebackValidation ::
  "handler_env \<Rightarrow> params \<Rightarrow> Writeback \<Rightarrow> string \<Rightarrow> Transaction \<Rightarrow> server \<Rightarrow> server option" where
  "ManageWritebackValidation en pe msg d txn s =
     (if \<not> validateProofs pe then WritebackCallback pe msg d txn True s
      else if (multiThreading pe \<or> he_batchVerification en) \<and> validates_later pe msg
      then Some (emit (Job_WritebackValidation msg d txn) s)
      else case validate_writeback en pe msg d txn s of
             None \<Rightarrow> None
           | Some None \<Rightarrow> Some s
           | Some (Some valid) \<Rightarrow> WritebackCallback pe msg d txn valid s)"

definition finished_writeback :: "params \<Rightarrow> string \<Rightarrow> server \<Rightarrow> server option" where
  "finished_writeback pe d s =
     (if multiThreading pe \<or> (mainThreadDispatching pe \<and> \<not> dispatchMessageReceive pe)
      then Clean pe d False False s else Some s)"

definition HandleWriteback :: "handler_env \<Rightarrow> params \<Rightarrow> Writeback \<Rightarrow> server \<Rightarrow> server option" where
  "HandleWriteback en pe msg s =
     (case wb_txn_digest msg of
        Some d \<Rightarrow>
          if committed s d \<noteq> None \<or> d \<in> aborted s then finished_writeback pe d s
          else (case ongoing s d of
                  Some og \<Rightarrow> ManageWritebackValidation en pe msg d (og_txn og) s
                | None \<Rightarrow>
                    (case wb_txn msg of
                       Some txn \<Rightarrow>
                         if d \<noteq> TransactionDigest (blake3 pe) txn (hashDigest pe) then Some s
                         else do {
                           s1 \<leftarrow> RegisterTxTS pe d txn s;
                           ManageWritebackValidation en pe (msg\<lparr>wb_txn := None\<rparr>) d txn s1
                         }
                     | None \<Rightarrow>
                         Some (case ooMessages s d of
                                 Some (OO_wb _) \<Rightarrow> s
                               | _ \<Rightarrow> s\<lparr>ooMessages := (ooMessages s)(d \<mapsto> OO_wb msg)\<rparr>)))
      | None \<Rightarrow> do {
          txn \<leftarrow> wb_txn msg;
          let d = TransactionDigest (blake3 pe) txn (hashDigest pe);
          s1 \<leftarrow> RegisterTxTS pe d txn s;
          if committed s1 d \<noteq> None \<or> d \<in> aborted s1 then finished_writeback pe d s1
          else ManageWritebackValidation en pe (msg\<lparr>wb_txn := None\<rparr>) d txn s1
        })"

section \<open>The handlers of phase 1 and of client aborts\<close>

datatype p1_answer = P1_reply CCResult "CommittedProof option" | P1_process

text \<open>A transaction that has a vote or a decision is not checked again.\<close>

definition known_result ::
  "params \<Rightarrow> remote \<Rightarrow> u64 \<Rightarrow> bool \<Rightarrow> Transaction \<Rightarrow> string \<Rightarrow> server \<Rightarrow> (p1_answer \<times> server) option" where
  "known_result pe remote reqId isGossip txn d s =
     (let c = p1_meta s d in
      if p1_hasP1 c \<and> isGossip then Some (P1_reply CC_IGNORE None, s)
      else if p1_hasP1 c then do {
        result \<leftarrow> p1_result c;
        if result = CC_WAIT then do {
          (_, s1) \<leftarrow> ManageDependencies pe d txn remote reqId False False
            (s\<lparr>p1MetaData := (p1MetaData s)(d \<mapsto> c\<lparr>p1_original := Some remote, p1_reqId := reqId\<rparr>)\<rparr>);
          Some (P1_reply result None, s1)
        }
        else if result = CC_ABORT \<and> p1_conflict c = None then None
        else Some (P1_reply result (if result = CC_ABORT then p1_conflict c else None), s)
      }
      else if committed s d \<noteq> None then Some (P1_reply CC_COMMIT None, s)
      else if d \<in> aborted s then Some (P1_reply CC_ABSTAIN None, s)
      else Some (P1_process, s))"

definition ForwardPhase1 :: "handler_env \<Rightarrow> params \<Rightarrow> Transaction \<Rightarrow> server \<Rightarrow> server" where
  "ForwardPhase1 en pe txn s = emit (Gossip_Phase1 ((server_idx pe + 1) mod of_int (cfg_n (he_config en))) txn) s"

definition proposed_txn :: "handler_env \<Rightarrow> params \<Rightarrow> Phase1 \<Rightarrow> Transaction" where
  "proposed_txn en pe msg =
     (if signClientProposals pe then he_parse_txn en (sm_data (signed_txn_of (ph1_signed_txn msg)))
      else case ph1_txn msg of None \<Rightarrow> empty_txn | Some txn \<Rightarrow> txn)"

text \<open>A later message of the transaction that arrived first is handled instead of the proposal.\<close>

definition HandlePhase1 :: "handler_env \<Rightarrow> params \<Rightarrow> u64 \<Rightarrow> remote \<Rightarrow> Phase1 \<Rightarrow> server \<Rightarrow> server option" where
  "HandlePhase1 en pe now remote msg s =
     (let d = TransactionDigest (blake3 pe) (proposed_txn en pe msg) (hashDigest pe);
          txn = (proposed_txn en pe msg)\<lparr>txndigest := Some d\<rparr>;
          isGossip = ph1_replica_gossip msg
      in case ooMessages s d of
           Some oo \<Rightarrow> do {
             s1 \<leftarrow> AddOngoing pe d txn s;
             s2 \<leftarrow> (case oo of
                OO_p2 p2 r \<Rightarrow> HandlePhase2 en pe r p2 s1
              | OO_wb wb \<Rightarrow> HandleWriteback en pe wb s1);
             Some (s2\<lparr>ooMessages := (ooMessages s2)(d := None)\<rparr>)
           }
         | None \<Rightarrow> do {
             (answer, s1) \<leftarrow> known_result pe remote (ph1_req_id msg) isGossip txn d s;
             case answer of
               P1_process \<Rightarrow>
                 ProcessProposal en pe now (ph1_req_id msg) remote (ph1_signed_txn msg) txn d isGossip False
                   (if replicaGossip pe then ForwardPhase1 en pe txn s1 else s1)
             | P1_reply result conflict \<Rightarrow>
                 if result \<noteq> CC_WAIT \<and> result \<noteq> CC_IGNORE
                 then SendPhase1Reply pe (ph1_req_id msg) result conflict d remote None s1
                 else Some s1
           })"

definition abort_internal :: "handler_env \<Rightarrow> params \<Rightarrow> AbortMsg \<Rightarrow> AbortInternal option option" where
  "abort_internal en pe msg =
     (if validateProofs pe \<and> signedMessages pe \<and> signClientProposals pe then
        (case msg of
           Abort_signed sm \<Rightarrow>
             if \<not> he_client_verify en (sm_process_id sm) (sm_data sm) (sm_signature sm) then Some None
             else Some (case he_parse_abort en (sm_data sm) of
                          None \<Rightarrow> None
                        | Some a \<Rightarrow> if getID (ab_ts a) \<noteq> sm_process_id sm then None else Some a)
         | _ \<Rightarrow> Some None)
      else case msg of Abort_internal a \<Rightarrow> Some (Some a) | _ \<Rightarrow> None)"

definition abort_query :: "params \<Rightarrow> string \<Rightarrow> server \<Rightarrow> server" where
  "abort_query pe query_id s =
     (let s1 = (case queryMetaData s query_id of
                  None \<Rightarrow> s
                | Some md \<Rightarrow>
                    let rid = QueryRetryId (blake3 pe) query_id (qm_retry_version md)
                                (signClientQueries pe \<and> cacheReadSet pe \<and> hashDigest pe);
                        keys = (case Option.bind (qm_result md) qr_query_read_set of
                                  None \<Rightarrow> [] | Some rs \<Rightarrow> map read_key (rs_read_set rs));
                        s1 = ClearRTS pe keys (qm_ts md) (s\<lparr>queryMissingTxns := (queryMissingTxns s)(rid := None)\<rparr>)
                    in s1\<lparr>queryMetaData := (queryMetaData s1)(query_id := None)\<rparr>)
      in s1\<lparr>subscribedQuery := (subscribedQuery s1)(query_id := None)\<rparr>)"

definition HandleAbort :: "handler_env \<Rightarrow> params \<Rightarrow> AbortMsg \<Rightarrow> server \<Rightarrow> server option" where
  "HandleAbort en pe msg s =
     (case abort_internal en pe msg of
        None \<Rightarrow> None
      | Some None \<Rightarrow> Some s
      | Some (Some a) \<Rightarrow> Some (fold (abort_query pe) (ab_query_ids a) (ClearRTS pe (ab_read_set a) (ab_ts a) s)))"

section \<open>Events\<close>

text \<open>Everything that happens at a replica: a message arrives, data is loaded, or a job that it has started runs.\<close>

datatype event =
    E_Read u64 remote Read
  | E_Phase1 u64 remote Phase1
  | E_Phase2 remote Phase2
  | E_Writeback Writeback
  | E_Abort AbortMsg
  | E_Load string string Timestamp
  | E_Job u64 bool effect

text \<open>The flag is the outcome of the validation that the job has performed.\<close>

definition run_job :: "handler_env \<Rightarrow> params \<Rightarrow> u64 \<Rightarrow> bool \<Rightarrow> effect \<Rightarrow> server \<Rightarrow> server option" where
  "run_job en pe now valid e s =
     (case e of
        Job_ProcessProposal q r smsg txn d g f \<Rightarrow> proposal_checked en pe now q r smsg txn d g f s
      | Job_TryPrepare q r d g f \<Rightarrow> try_prepare_job pe now q r d g f s
      | Job_Phase2Validation r msg d txn res \<Rightarrow> HandlePhase2CB pe r msg d valid s
      | Job_WritebackValidation msg d txn \<Rightarrow> WritebackCallback pe msg d txn valid s
      | Job_ApplyTableWrites txn ts d cp commit \<Rightarrow>
          if commit then commit_job pe txn ts d cp s else prepare_job pe txn ts d s
      | _ \<Rightarrow> Some s)"

definition handle :: "handler_env \<Rightarrow> params \<Rightarrow> event \<Rightarrow> server \<Rightarrow> server option" where
  "handle en pe ev s =
     (case ev of
        E_Read now r msg \<Rightarrow> HandleRead pe now r msg s
      | E_Phase1 now r msg \<Rightarrow> HandlePhase1 en pe now r msg s
      | E_Phase2 r msg \<Rightarrow> HandlePhase2 en pe r msg s
      | E_Writeback msg \<Rightarrow> HandleWriteback en pe msg s
      | E_Abort msg \<Rightarrow> HandleAbort en pe msg s
      | E_Load key value ts \<Rightarrow> Load key value ts s
      | E_Job now valid e \<Rightarrow> if e \<in> set (effects s) then run_job en pe now valid e s else Some s)"

end
