(* ===== verification/Handler_Frames.thy ===== *)
theory Handler_Frames
  imports Handlers
begin

text \<open>
  What the helpers of the handlers leave alone.  The life of a transaction at a replica consists of the
  decisions, the transactions that are known, the logged decisions and the work that is pending; most
  helpers change neither that nor the votes.  The rest is shown to change the votes of waiting transactions
  only, or to end the life of one transaction.
\<close>

section \<open>What the helpers leave alone\<close>

definition is_job :: "effect \<Rightarrow> bool" where
  "is_job e = (case e of Job_ProcessProposal _ _ _ _ _ _ _ \<Rightarrow> True | Job_TryPrepare _ _ _ _ _ \<Rightarrow> True
     | Job_Phase2Validation _ _ _ _ _ \<Rightarrow> True | Job_WritebackValidation _ _ _ \<Rightarrow> True | _ \<Rightarrow> False)"

text \<open>The decisions, the transactions that are known, and the work that is pending.\<close>

definition life :: "server \<Rightarrow> _" where
  "life s = (committed s, aborted s, ooMessages s, filter is_job (effects s), (\<lambda>d. map_option (txn_core \<circ> og_txn) (ongoing s d)))"

definition vote_of :: "server \<Rightarrow> string \<Rightarrow> CCResult option" where
  "vote_of s d = Option.bind (p1MetaData s d) p1_result"

text \<open>The votes and the logged decisions for a commit that a replica has sent.  An empty digest names no transaction.\<close>

definition p1_vote_in :: "effect \<Rightarrow> string option" where
  "p1_vote_in e =
     (let vote = (\<lambda>m. if p1r_ccr m = CC_COMMIT then p1r_txn_digest m else None)
      in case e of Send_Phase1Reply _ m \<Rightarrow> vote m | Send_Phase1FBReply _ f \<Rightarrow> Option.bind (fbr_p1r f) vote | _ \<Rightarrow> None)"

definition p2_vote_in :: "effect \<Rightarrow> string option" where
  "p2_vote_in e =
     (let vote = (\<lambda>m. case p2r_decision m of
                        P2_plain x \<Rightarrow> if p2d_decision x = COMMIT \<and> p2d_txn_digest x \<noteq> [] then Some (p2d_txn_digest x) else None | _ \<Rightarrow> None)
      in case e of Send_Phase2Reply _ m \<Rightarrow> vote m | Send_Phase1FBReply _ f \<Rightarrow> Option.bind (fbr_p2r f) vote | _ \<Rightarrow> None)"

definition commit_votes :: "server \<Rightarrow> string set" where
  "commit_votes s = set (List.map_filter p1_vote_in (effects s))"

definition commit_logs :: "server \<Rightarrow> string set" where
  "commit_logs s = set (List.map_filter p2_vote_in (effects s))"

text \<open>The transactions a replica has voted for, or will when their dependencies are decided.\<close>

definition favoured :: "server \<Rightarrow> string set" where
  "favoured s = dom (waitingDependencies_new s) \<union> {d. vote_of s d = Some CC_COMMIT \<or> vote_of s d = Some CC_WAIT} \<union> commit_votes s"

definition votes :: "server \<Rightarrow> _" where
  "votes s = (favoured s, commit_logs s, (\<lambda>d. LookupP2Decision d s))"

lemma commit_votes_emit [simp]: "commit_votes (emit e s) = commit_votes s \<union> set_option (p1_vote_in e)"
  and commit_logs_emit [simp]: "commit_logs (emit e s) = commit_logs s \<union> set_option (p2_vote_in e)"
  by (auto simp: commit_votes_def commit_logs_def emit_def map_filter_def)

lemma life_upd [simp]:
  "life (s\<lparr>store := x_store\<rparr>) = life s"
  "life (s\<lparr>committedReads := x_committedReads\<rparr>) = life s"
  "life (s\<lparr>rts := x_rts\<rparr>) = life s" "life (s\<lparr>rts_list := x_rts_list\<rparr>) = life s"
  "life (s\<lparr>ts_to_tx := x_ts_to_tx\<rparr>) = life s" "life (s\<lparr>prepared := x_prepared\<rparr>) = life s"
  "life (s\<lparr>preparedReads := x_preparedReads\<rparr>) = life s"
  "life (s\<lparr>preparedWrites := x_preparedWrites\<rparr>) = life s"
  "life (s\<lparr>tablePredicates := x_tablePredicates\<rparr>) = life s"
  "life (s\<lparr>tableWrites := x_tableWrites\<rparr>) = life s"
  "life (s\<lparr>highTableVersions := x_highTableVersions\<rparr>) = life s"
  "life (s\<lparr>non_monotonic_writes := x_non_monotonic_writes\<rparr>) = life s"
  "life (s\<lparr>writebackMessages := x_writebackMessages\<rparr>) = life s"
  "life (s\<lparr>p1MetaData := x_p1MetaData\<rparr>) = life s"
  "life (s\<lparr>interestedClients := x_interestedClients\<rparr>) = life s"
  "life (s\<lparr>ElectQuorums := x_ElectQuorums\<rparr>) = life s"
  "life (s\<lparr>dependents := x_dependents\<rparr>) = life s"
  "life (s\<lparr>waitingDependencies_new := x_waitingDependencies_new\<rparr>) = life s"
  "life (s\<lparr>queryMetaData := x_queryMetaData\<rparr>) = life s"
  "life (s\<lparr>alreadyDeleted := x_alreadyDeleted\<rparr>) = life s"
  "life (s\<lparr>clientQueryWatermark := x_clientQueryWatermark\<rparr>) = life s"
  "life (s\<lparr>subscribedQuery := x_subscribedQuery\<rparr>) = life s"
  "life (s\<lparr>TxnMissingQueries := x_TxnMissingQueries\<rparr>) = life s"
  "life (s\<lparr>queryMissingTxns := x_queryMissingTxns\<rparr>) = life s"
  "life (s\<lparr>materialized := x_materialized\<rparr>) = life s"
  "life (s\<lparr>table_encoder := x_table_encoder\<rparr>) = life s"
  "life (s\<lparr>p2MetaDatas := x_p2MetaDatas\<rparr>) = life s"
  by (simp_all add: life_def)

lemmas votes_defs = votes_def favoured_def vote_of_def commit_votes_def commit_logs_def LookupP2Decision_def

lemma votes_upd [simp]:
  "votes (s\<lparr>store := x_store\<rparr>) = votes s"
  "votes (s\<lparr>committedReads := x_committedReads\<rparr>) = votes s"
  "votes (s\<lparr>rts := x_rts\<rparr>) = votes s" "votes (s\<lparr>rts_list := x_rts_list\<rparr>) = votes s"
  "votes (s\<lparr>ongoing := x_ongoing\<rparr>) = votes s"
  "votes (s\<lparr>ooMessages := x_ooMessages\<rparr>) = votes s"
  "votes (s\<lparr>ts_to_tx := x_ts_to_tx\<rparr>) = votes s"
  "votes (s\<lparr>prepared := x_prepared\<rparr>) = votes s"
  "votes (s\<lparr>preparedReads := x_preparedReads\<rparr>) = votes s"
  "votes (s\<lparr>preparedWrites := x_preparedWrites\<rparr>) = votes s"
  "votes (s\<lparr>tablePredicates := x_tablePredicates\<rparr>) = votes s"
  "votes (s\<lparr>tableWrites := x_tableWrites\<rparr>) = votes s"
  "votes (s\<lparr>highTableVersions := x_highTableVersions\<rparr>) = votes s"
  "votes (s\<lparr>non_monotonic_writes := x_non_monotonic_writes\<rparr>) = votes s"
  "votes (s\<lparr>committed := x_committed\<rparr>) = votes s"
  "votes (s\<lparr>aborted := x_aborted\<rparr>) = votes s"
  "votes (s\<lparr>writebackMessages := x_writebackMessages\<rparr>) = votes s"
  "votes (s\<lparr>interestedClients := x_interestedClients\<rparr>) = votes s"
  "votes (s\<lparr>ElectQuorums := x_ElectQuorums\<rparr>) = votes s"
  "votes (s\<lparr>dependents := x_dependents\<rparr>) = votes s"
  "votes (s\<lparr>queryMetaData := x_queryMetaData\<rparr>) = votes s"
  "votes (s\<lparr>alreadyDeleted := x_alreadyDeleted\<rparr>) = votes s"
  "votes (s\<lparr>clientQueryWatermark := x_clientQueryWatermark\<rparr>) = votes s"
  "votes (s\<lparr>subscribedQuery := x_subscribedQuery\<rparr>) = votes s"
  "votes (s\<lparr>TxnMissingQueries := x_TxnMissingQueries\<rparr>) = votes s"
  "votes (s\<lparr>queryMissingTxns := x_queryMissingTxns\<rparr>) = votes s"
  "votes (s\<lparr>materialized := x_materialized\<rparr>) = votes s"
  "votes (s\<lparr>table_encoder := x_table_encoder\<rparr>) = votes s"
  by (simp_all add: votes_defs)

lemma votes_p2 [simp]:
  "votes (s\<lparr>p2MetaDatas := (p2MetaDatas s)(d \<mapsto> (case p2MetaDatas s d of None \<Rightarrow> new_P2MetaData | Some p \<Rightarrow> p))\<rparr>) = votes s"
  by (auto simp: votes_defs new_P2MetaData_def fun_eq_iff split: option.splits)

lemma vote_parts_upd [simp]:
  "favoured (s\<lparr>dependents := x_d\<rparr>) = favoured s"
  "favoured (s\<lparr>ongoing := x_o\<rparr>) = favoured s"
  "favoured (s\<lparr>aborted := x_a\<rparr>) = favoured s"
  "favoured (s\<lparr>committed := x_c\<rparr>) = favoured s"
  "favoured (s\<lparr>writebackMessages := x_wb\<rparr>) = favoured s"
  "favoured (s\<lparr>ooMessages := x_oo\<rparr>) = favoured s"
  "commit_logs (s\<lparr>dependents := x_d\<rparr>) = commit_logs s"
  "commit_logs (s\<lparr>ongoing := x_o\<rparr>) = commit_logs s"
  "commit_logs (s\<lparr>aborted := x_a\<rparr>) = commit_logs s"
  "commit_logs (s\<lparr>committed := x_c\<rparr>) = commit_logs s"
  "commit_logs (s\<lparr>writebackMessages := x_wb\<rparr>) = commit_logs s"
  "commit_logs (s\<lparr>ooMessages := x_oo\<rparr>) = commit_logs s"
  "LookupP2Decision d (s\<lparr>dependents := x_d\<rparr>) = LookupP2Decision d s"
  "LookupP2Decision d (s\<lparr>ongoing := x_o\<rparr>) = LookupP2Decision d s"
  "LookupP2Decision d (s\<lparr>aborted := x_a\<rparr>) = LookupP2Decision d s"
  "LookupP2Decision d (s\<lparr>committed := x_c\<rparr>) = LookupP2Decision d s"
  "LookupP2Decision d (s\<lparr>writebackMessages := x_wb\<rparr>) = LookupP2Decision d s"
  "LookupP2Decision d (s\<lparr>ooMessages := x_oo\<rparr>) = LookupP2Decision d s"
  by (simp_all add: votes_defs)

lemma votes_p1: "p1_result c = vote_of s d \<Longrightarrow> votes (s\<lparr>p1MetaData := (p1MetaData s)(d \<mapsto> c)\<rparr>) = votes s"
  by (auto simp: votes_defs)

lemma life_emit [simp]: "\<not> is_job e \<Longrightarrow> life (emit e s) = life s"
  by (simp add: emit_def life_def)

lemma votes_emit [simp]: "p1_vote_in e = None \<Longrightarrow> p2_vote_in e = None \<Longrightarrow> votes (emit e s) = votes s"
  by (simp add: votes_def favoured_def vote_of_def LookupP2Decision_def) (simp add: emit_def)

lemma lifeD:
  assumes "life s' = life s"
  shows "committed s' = committed s" "aborted s' = aborted s" "ooMessages s' = ooMessages s"
    "filter is_job (effects s') = filter is_job (effects s)"
    "map_option (txn_core \<circ> og_txn) (ongoing s' d) = map_option (txn_core \<circ> og_txn) (ongoing s d)"
  using assms by (auto simp: life_def dest: fun_cong [of _ _ d])

lemma is_job_simps [simp]:
  "\<not> is_job (Send_Phase1Reply r m)" "\<not> is_job (Send_Phase1FBReply r f)" "\<not> is_job (Send_Phase2Reply r n)"
  "\<not> is_job (Send_ReadReply r x)" "\<not> is_job (Send_RelayP1 r y)" "\<not> is_job (Gossip_Phase1 i t)"
  "\<not> is_job (Job_ApplyTableWrites t ts d cp b)" "\<not> is_job (Job_PurgeTableWrites t ts d)"
  "\<not> is_job (Job_UpdateWaitingQueries d b)" "\<not> is_job (Job_UpdateWaitingQueriesTS u d b)"
  "\<not> is_job (Table_Apply tb tw ts d cp b b')"
  "is_job (Job_ProcessProposal q r sm t d b b')" "is_job (Job_TryPrepare q r d b b')"
  "is_job (Job_Phase2Validation r p2 d t res)" "is_job (Job_WritebackValidation wb d t)"
  by (simp_all add: is_job_def)

lemma no_vote_simps [simp]:
  "p1_vote_in (Send_Phase2Reply r n) = None" "p1_vote_in (Send_ReadReply r x) = None" "p1_vote_in (Send_RelayP1 r y) = None"
  "p1_vote_in (Gossip_Phase1 i t) = None" "p1_vote_in (Job_ApplyTableWrites t ts d cp b) = None"
  "p1_vote_in (Job_PurgeTableWrites t ts d) = None" "p1_vote_in (Job_UpdateWaitingQueries d b) = None"
  "p1_vote_in (Job_UpdateWaitingQueriesTS u d b) = None" "p1_vote_in (Table_Apply tb tw ts d cp b b') = None"
  "p1_vote_in (Job_ProcessProposal q r sm t d b b') = None" "p1_vote_in (Job_TryPrepare q r d b b') = None"
  "p1_vote_in (Job_Phase2Validation r p2 d t res) = None" "p1_vote_in (Job_WritebackValidation wb d t) = None"
  "p2_vote_in (Send_Phase1Reply r m) = None" "p2_vote_in (Send_ReadReply r x) = None" "p2_vote_in (Send_RelayP1 r y) = None"
  "p2_vote_in (Gossip_Phase1 i t) = None" "p2_vote_in (Job_ApplyTableWrites t ts d cp b) = None"
  "p2_vote_in (Job_PurgeTableWrites t ts d) = None" "p2_vote_in (Job_UpdateWaitingQueries d b) = None"
  "p2_vote_in (Job_UpdateWaitingQueriesTS u d b) = None" "p2_vote_in (Table_Apply tb tw ts d cp b b') = None"
  "p2_vote_in (Job_ProcessProposal q r sm t d b b') = None" "p2_vote_in (Job_TryPrepare q r d b b') = None"
  "p2_vote_in (Job_Phase2Validation r p2 d t res) = None" "p2_vote_in (Job_WritebackValidation wb d t) = None"
  by (simp_all add: p1_vote_in_def p2_vote_in_def)

text \<open>A helper that touches neither, in the two forms in which the helpers come.\<close>

definition calm :: "(server \<Rightarrow> server) \<Rightarrow> bool" where
  "calm f \<longleftrightarrow> (\<forall>s. life (f s) = life s \<and> votes (f s) = votes s)"

lemma calmI: "(\<And>s. life (f s) = life s) \<Longrightarrow> (\<And>s. votes (f s) = votes s) \<Longrightarrow> calm f"
  by (simp add: calm_def)

lemma calmD: "calm f \<Longrightarrow> life (f s) = life s" "calm f \<Longrightarrow> votes (f s) = votes s"
  by (simp_all add: calm_def)

lemma calm_fold: "(\<And>x. calm (f x)) \<Longrightarrow> calm (fold f xs)"
  by (induction xs) (simp_all add: calm_def)

lemmas calm_defs = commit_rts_def rts_erase_def record_pred_def record_write_def clear_pred_def clear_write_def
  commit_read_def prepare_read_def prepare_write_def clean_read_def clean_write_def SetRTS_def Let_def

lemma calm_steps:
  "calm (commit_rts pe key ts)" "calm (rts_erase ts key)" "calm (record_pred ts x pred)"
  "calm (record_write ts x table)" "calm (clear_pred ts pred)" "calm (clear_write ts table)" "calm (commit_read pe ts cp r)"
  "calm (prepare_read pe d txn r)" "calm (prepare_write pe ts txn w)" "calm (clean_read pe d r)"
  "calm (clean_write pe ts w)" "calm (SetRTS pe ts key)"
  by (rule calmI; simp add: calm_defs split: option.splits)+

lemma calm_loops:
  "calm (ClearRTS pe keys ts)" "calm (ClearPredicateAndWrites pe txn)" "calm (fold (commit_read pe ts cp) rs)"
  "calm (fold (prepare_read pe d txn) rs)" "calm (fold (prepare_write pe ts txn) ws)"
  by (auto simp: ClearRTS_def ClearPredicateAndWrites_def calm_def calmD [OF calm_fold [OF calm_steps(2)]]
      calmD [OF calm_fold [OF calm_steps(5)]] calmD [OF calm_fold [OF calm_steps(6)]]
      calmD [OF calm_fold [OF calm_steps(7)]] calmD [OF calm_fold [OF calm_steps(8)]] calmD [OF calm_fold [OF calm_steps(9)]])

lemmas calm_simps [simp] = calm_steps [THEN calmD(1)] calm_steps [THEN calmD(2)]
  calm_loops [THEN calmD(1)] calm_loops [THEN calmD(2)]

definition calms :: "server \<Rightarrow> server \<Rightarrow> bool" where
  "calms s s' \<longleftrightarrow> life s' = life s \<and> votes s' = votes s"

lemma calms_refl [simp]: "calms s s" and calms_trans: "calms s s' \<Longrightarrow> calms s' s'' \<Longrightarrow> calms s s''"
  by (simp_all add: calms_def)

lemma calms_foldM: "foldM f xs s = Some s' \<Longrightarrow> (\<And>x s s'. f x s = Some s' \<Longrightarrow> calms s s') \<Longrightarrow> calms s s'"
proof (induction xs arbitrary: s)
  case (Cons x xs)
  obtain s1 where "f x s = Some s1" "foldM f xs s1 = Some s'" using Cons.prems(1) by (auto split: option.splits)
  then show ?case using Cons.IH Cons.prems(2) calms_trans by blast
qed simp

lemma calms_RecordReadPredicatesAndWrites: "RecordReadPredicatesAndWrites pe txn ts b s = Some s' \<Longrightarrow> calms s s'"
  by (auto simp: RecordReadPredicatesAndWrites_def calms_def calmD [OF calm_fold [OF calm_steps(3)]]
      calmD [OF calm_fold [OF calm_steps(4)]] split: if_splits)

lemma calms_CleanQueries: "CleanQueries pe txn s = Some s' \<Longrightarrow> calms s s'"
proof -
  have "calms s s'" if "clean_query pe q s = Some s'" for q s s'
    using that by (auto simp: clean_query_def bind_eq_Some_conv Let_def calms_def split: option.splits if_splits)
  then show "CleanQueries pe txn s = Some s' \<Longrightarrow> calms s s'"
    by (auto simp: CleanQueries_def Let_def split: option.splits dest!: calms_foldM) (simp add: calms_def)+
qed

lemma calms_CheckWaitingQueries: "CheckWaitingQueries pe d ts i a m s = Some s' \<Longrightarrow> calms s s'"
  by (auto simp: CheckWaitingQueries_def bind_eq_Some_conv Let_def calms_def split: if_splits)

lemma calms_RegisterTxTS: "RegisterTxTS pe d txn s = Some s' \<Longrightarrow> calms s s'"
  by (auto simp: RegisterTxTS_def bind_eq_Some_conv calms_def split: if_splits option.splits)

lemma calms_ApplyTableWrites:
  assumes "ApplyTableWrites pe txn ts d cp b f s = Some (tables, s')"
  shows "calms s s'"
proof -
  have t: "calms s (snd (apply_tables pe ts d cp b f tws s))" for tws s
    by (induction pe ts d cp b f tws s rule: apply_tables.induct) (auto simp: Let_def calms_def split: prod.splits)
  obtain s1 where s1: "RegisterTxTS pe d txn s = Some s1"
    and w: "CheckWaitingQueries pe d (getTimestamp ts) (getID ts) False 0
      ((snd (apply_tables pe ts d cp b f (table_writes txn) s1))\<lparr>materialized :=
         insert d (materialized (snd (apply_tables pe ts d cp b f (table_writes txn) s1)))\<rparr>) = Some s'"
    using assms by (auto simp: ApplyTableWrites_def bind_eq_Some_conv Let_def case_prod_unfold)
  show ?thesis
    using calms_RegisterTxTS [OF s1] t [of s1 "table_writes txn"] calms_CheckWaitingQueries [OF w] by (simp add: calms_def)
qed

lemma calms_jobs:
  "prepare_job pe txn ts d s = Some s' \<Longrightarrow> calms s s'" "commit_job pe txn ts d cp s = Some s' \<Longrightarrow> calms s s'"
  "ForceMaterialization pe r d txn s = Some s' \<Longrightarrow> calms s s'"
proof -
  have p: "calms s (fold (\<lambda>table s. s\<lparr>preparedWrites := f table s\<rparr>) tables s)" for f tables s
    using calm_fold [of "\<lambda>table s. s\<lparr>preparedWrites := f table s\<rparr>" tables] by (simp add: calm_def calms_def)
  have c: "calms s (fold (\<lambda>table s. s\<lparr>store := f table s\<rparr>) tables s)" for f tables s
    using calm_fold [of "\<lambda>table s. s\<lparr>store := f table s\<rparr>" tables] by (simp add: calm_def calms_def)
  show "prepare_job pe txn ts d s = Some s' \<Longrightarrow> calms s s'"
    by (auto simp: prepare_job_def bind_eq_Some_conv dest!: calms_ApplyTableWrites) (rule calms_trans [OF _ p])
  show "commit_job pe txn ts d cp s = Some s' \<Longrightarrow> calms s s'"
    by (auto simp: commit_job_def bind_eq_Some_conv dest!: calms_ApplyTableWrites) (rule calms_trans [OF _ c])
  show "ForceMaterialization pe r d txn s = Some s' \<Longrightarrow> calms s s'"
    by (auto simp: ForceMaterialization_def dest!: calms_ApplyTableWrites split: if_splits)
qed

lemma calms_SendRelayP1: "SendRelayP1 pe rem dep i dt s = Some s' \<Longrightarrow> calms s s'"
  by (auto simp: SendRelayP1_def bind_eq_Some_conv split: option.splits if_splits) (simp_all add: calms_def)

lemma calms_ForwardWritebackMulti:
  assumes "ForwardWritebackMulti d cs s = Some (b, s')"
  shows "calms s s'"
proof -
  obtain wb where wb: "(case wb of None \<Rightarrow> Some (False, s) | Some wb \<Rightarrow>
      let s1 = fold (\<lambda>c. emit (Send_Phase1FBReply (snd c) (wb_reply 0 d wb))) cs s
      in Some (True, s1\<lparr>interestedClients := (interestedClients s1)(d := None)\<rparr>)) = Some (b, s')"
    using assms unfolding ForwardWritebackMulti_def bind_eq_Some_conv by blast
  have "calm (fold (\<lambda>c. emit (Send_Phase1FBReply (snd c) (wb_reply 0 d w))) cs)" for w
    by (rule calm_fold) (simp add: calm_def p1_vote_in_def p2_vote_in_def wb_reply_def)
  then show ?thesis using wb by (auto simp: calms_def calm_def Let_def split: option.splits)
qed

section \<open>Votes and waiting transactions\<close>

text \<open>
  Only the transactions of a set get new votes; a transaction that waits has its vote already.  A decision is
  sent only when it is logged.
\<close>

definition vote_change :: "string set \<Rightarrow> server \<Rightarrow> server \<Rightarrow> bool" where
  "vote_change D s s' \<longleftrightarrow> favoured s' \<subseteq> favoured s \<union> D \<and> (\<forall>d. LookupP2Decision d s' = LookupP2Decision d s) \<and>
     commit_logs s' \<subseteq> commit_logs s \<union> {d. LookupP2Decision d s = Some COMMIT}"

lemma vote_change_trans: "vote_change D s s' \<Longrightarrow> vote_change D s' s'' \<Longrightarrow> vote_change D s s''"
  unfolding vote_change_def by auto

lemma vote_change_votes: "votes s' = votes s \<Longrightarrow> vote_change D s s'"
  by (auto simp: vote_change_def votes_def fun_eq_iff)

definition voting :: "string set \<Rightarrow> server \<Rightarrow> server \<Rightarrow> bool" where
  "voting D s s' \<longleftrightarrow> life s' = life s \<and> vote_change D s s'"

lemma voting_calms: "calms s s' \<Longrightarrow> voting D s s'"
  by (simp add: voting_def vote_change_votes calms_def)

lemma voting_trans: "voting D s s' \<Longrightarrow> voting D s' s'' \<Longrightarrow> voting D s s''"
  by (auto simp: voting_def intro: vote_change_trans)

lemma voting_mono: "voting D s s' \<Longrightarrow> D \<subseteq> D' \<union> favoured s \<Longrightarrow> voting D' s s'"
  unfolding voting_def vote_change_def by blast

definition in_favour :: "CCResult \<Rightarrow> string \<Rightarrow> string set" where
  "in_favour r d = (if r = CC_COMMIT \<or> r = CC_WAIT then {d} else {})"

lemma merge_vote_in_favour:
  assumes "p1_result (fst (merge_vote r cf c)) = Some x \<or> snd (merge_vote r cf c) = x" "x = CC_COMMIT \<or> x = CC_WAIT"
  shows "p1_result c = Some x \<or> r = CC_COMMIT \<or> r = CC_WAIT"
  using assms by (auto simp: merge_vote_def split: if_splits option.splits)

lemma voting_BufferP1Result:
  assumes "BufferP1Result pe r cf d q rem f g fb s = Some (out, s')" "r \<noteq> CC_IGNORE"
  shows "voting (in_favour r d) s s'" "in_favour (vo_result out) d \<subseteq> favoured s \<union> in_favour r d"
proof -
  have keep: "p1_result (snd (finish_vote x f c)) = p1_result c" "vo_result (fst (finish_vote x f c)) = x"
    "p1_result (subscribe_vote x q rem g fb c) = p1_result c" for x c
    by (simp_all add: finish_vote_def subscribe_vote_def Let_def)
  let ?m = "merge_vote r cf (p1_meta s d)"
  let ?c = "subscribe_vote (snd ?m) q rem g fb (fst ?m)"
  have o: "s' = s\<lparr>p1MetaData := (p1MetaData s)(d \<mapsto> snd (finish_vote (snd ?m) f ?c))\<rparr>" "out = fst (finish_vote (snd ?m) f ?c)"
    using assms by (simp_all add: BufferP1Result_def Let_def case_prod_unfold)
  obtain c where c: "s' = s\<lparr>p1MetaData := (p1MetaData s)(d \<mapsto> c)\<rparr>" "p1_result c = p1_result (fst ?m)"
    using that [OF o(1)] by (simp add: keep)
  have r: "vo_result out = snd ?m" by (simp add: o(2) keep)
  have p: "p1_result (p1_meta s d) = vote_of s d"
    by (simp add: p1_meta_def vote_of_def new_P1MetaData_def split: option.splits)
  have m: "d \<in> favoured s \<union> in_favour r d" if "p1_result c = Some x \<or> vo_result out = x" "x = CC_COMMIT \<or> x = CC_WAIT" for x
    using merge_vote_in_favour [of r cf "p1_meta s d" x] that unfolding c(2) r p by (auto simp: favoured_def in_favour_def)
  show "in_favour (vo_result out) d \<subseteq> favoured s \<union> in_favour r d"
    using m [of CC_COMMIT] m [of CC_WAIT] by (simp add: in_favour_def)
  have "vote_of s' x = (if x = d then p1_result c else vote_of s x)" for x by (simp add: c(1) vote_of_def)
  then have "favoured s' \<subseteq> favoured s \<union> in_favour r d"
    using m [of CC_COMMIT] m [of CC_WAIT] unfolding favoured_def commit_votes_def by (auto simp: c(1) split: if_splits)
  then show "voting (in_favour r d) s s'"
    by (simp add: voting_def vote_change_def c(1) LookupP2Decision_def commit_logs_def)
qed

lemma voting_emit:
  assumes "\<And>x. p1_vote_in e = Some x \<Longrightarrow> x \<in> D" "\<And>x. p2_vote_in e = Some x \<Longrightarrow> LookupP2Decision x s = Some COMMIT" "\<not> is_job e"
  shows "voting D s (emit e s)"
proof -
  have "LookupP2Decision x (emit e s) = LookupP2Decision x s" "vote_of (emit e s) x = vote_of s x"
    "waitingDependencies_new (emit e s) = waitingDependencies_new s" for x
    by (simp_all add: LookupP2Decision_def vote_of_def emit_def)
  then show ?thesis using assms by (auto simp: voting_def vote_change_def favoured_def)
qed

lemma voting_SendPhase1Reply:
  assumes "SendPhase1Reply pe q r cf d rem a s = Some s'"
  shows "voting (in_favour r d) s s'"
proof -
  obtain m where m: "s' = emit (Send_Phase1Reply rem m) s" "p1r_ccr m = r" "p1r_txn_digest m = None \<or> p1r_txn_digest m = Some d"
    using assms by (auto simp: SendPhase1Reply_def Let_def bind_eq_Some_conv split: if_splits)
  then have "p1_vote_in (Send_Phase1Reply rem m) = Some x \<Longrightarrow> x \<in> in_favour r d" for x
    by (auto simp: p1_vote_in_def in_favour_def split: if_splits)
  then show ?thesis unfolding m(1) by (rule voting_emit) simp_all
qed

lemma voting_fold:
  assumes "\<And>x s. (\<forall>d. LookupP2Decision d s = L d) \<Longrightarrow> voting D s (f x s)" "\<forall>d. LookupP2Decision d s = L d"
  shows "voting D s (fold f xs s)"
  using assms(2)
proof (induction xs arbitrary: s)
  case (Cons x xs)
  then have v: "voting D s (f x s)" using assms(1) by blast
  then have "\<forall>d. LookupP2Decision d (f x s) = L d" using Cons.prems by (simp add: voting_def vote_change_def)
  then show ?case using Cons.IH v voting_trans by simp
qed (simp add: voting_calms)

lemma p2_vote_logged:
  "p2_vote_in (Send_Phase1FBReply c \<lparr>fbr_req_id = 0, fbr_txn_digest = d, fbr_wb = None, fbr_p1r = p1,
     fbr_p2r = (if p2_hasP2 p then map_option (\<lambda>dec. SetP2 pe 0 d dec (p2_decision_view p)) (p2_p2Decision p) else None),
     fbr_view = v\<rparr>) = Some x \<Longrightarrow> x = d \<and> p2_hasP2 p \<and> p2_p2Decision p = Some COMMIT"
  by (cases "p2_p2Decision p") (auto simp: p2_vote_in_def SetP2_def split: if_splits)

lemma voting_WakeAllInterestedFallbacks:
  assumes "WakeAllInterestedFallbacks pe d r cf s = Some s'"
  shows "voting (in_favour r d) s s'"
proof (cases "interestedClients s d")
  case (Some cs)
  then obtain b s1 where f: "ForwardWritebackMulti d cs s = Some (b, s1)"
    using assms by (auto simp: WakeAllInterestedFallbacks_def bind_eq_Some_conv)
  show ?thesis
  proof (cases b)
    case False
    let ?p = "case p2MetaDatas s1 d of None \<Rightarrow> new_P2MetaData | Some p \<Rightarrow> p"
    let ?s = "s1\<lparr>p2MetaDatas := (p2MetaDatas s1)(d \<mapsto> ?p)\<rparr>"
    let ?p2r = "if p2_hasP2 ?p then map_option (\<lambda>dec. SetP2 pe 0 d dec (p2_decision_view ?p)) (p2_p2Decision ?p) else None"
    obtain p1r where p: "SetP1 pe 0 d r cf None s1 = Some p1r"
      "SendPhase1FBReply pe \<lparr>fbr_req_id = 0, fbr_txn_digest = d, fbr_wb = None, fbr_p1r = Some p1r, fbr_p2r = ?p2r,
         fbr_view = None\<rparr> (map snd cs) ?s = Some s'"
      using assms Some f False by (auto simp: WakeAllInterestedFallbacks_def bind_eq_Some_conv Let_def)
    have l: "votes ?s = votes s" "life ?s = life s"
      using calms_ForwardWritebackMulti [OF f] by (simp_all add: calms_def)
    let ?r = "\<lambda>v. \<lparr>fbr_req_id = 0, fbr_txn_digest = d, fbr_wb = None, fbr_p1r = Some p1r, fbr_p2r = ?p2r, fbr_view = v\<rparr>"
    obtain v where "s' = ?s \<or> s' = fold (\<lambda>c. emit (Send_Phase1FBReply c (?r v))) (map snd cs) ?s"
      using p(2) by (auto simp: SendPhase1FBReply_def Let_def split: if_splits)
    moreover have st: "voting (in_favour r d) s2 (emit (Send_Phase1FBReply c (?r v)) s2)"
      if "\<forall>x. LookupP2Decision x s2 = LookupP2Decision x ?s" for c s2
    proof -
      have "p1_vote_in (Send_Phase1FBReply c (?r v)) = Some x \<Longrightarrow> x \<in> in_favour r d" for x
        using p(1) by (auto simp: SetP1_def p1_vote_in_def in_favour_def split: if_splits)
      moreover have "p2_vote_in (Send_Phase1FBReply c (?r v)) = Some x \<Longrightarrow> LookupP2Decision x s2 = Some COMMIT" for x
        using that p2_vote_logged [of c d "Some p1r" ?p pe v x] by (simp add: LookupP2Decision_def)
      moreover have "\<not> is_job (Send_Phase1FBReply c (?r v))" by (simp add: is_job_def)
      ultimately show ?thesis by (rule voting_emit)
    qed
    moreover have "voting (in_favour r d) ?s (fold (\<lambda>c. emit (Send_Phase1FBReply c (?r v))) (map snd cs) ?s)"
      by (rule voting_fold [of "\<lambda>x. LookupP2Decision x ?s"], rule st, assumption) simp
    ultimately have "voting (in_favour r d) ?s s'" using voting_calms [OF calms_refl] by metis
    then show ?thesis using l by (simp add: voting_def vote_change_def votes_def fun_eq_iff)
  qed (use assms Some f calms_ForwardWritebackMulti [OF f] voting_calms in \<open>simp add: WakeAllInterestedFallbacks_def\<close>)
qed (use assms in \<open>simp add: WakeAllInterestedFallbacks_def voting_calms\<close>)

lemma voting_answer_dependent:
  assumes "answer_dependent pe t s = Some s'"
  shows "voting {t} s s'"
proof -
  obtain r out s1 s2 s3 where a: "CheckDependencies pe t s = Some r" "BufferP1Result pe r None t 0 None False False 2 s = Some (out, s1)"
    "(case vo_original out of None \<Rightarrow> Some s1 | Some (remote, q) \<Rightarrow>
        SendPhase1Reply pe q (vo_result out) None t remote None s1) = Some s2"
    "WakeAllInterestedFallbacks pe t (vo_result out) None s2 = Some s3"
    "s' = s3\<lparr>waitingDependencies_new := (waitingDependencies_new s3)(t := None)\<rparr>"
    using assms by (auto simp: answer_dependent_def bind_eq_Some_conv split: if_splits)
  have "r \<noteq> CC_IGNORE" using CheckDependencies_result [OF a(1)] by auto
  note v = voting_BufferP1Result [OF a(2) this]
  have t: "in_favour x t \<subseteq> {t}" for x by (simp add: in_favour_def)
  have "voting {t} s s1" by (rule voting_mono [OF v(1)]) (use t in blast)
  moreover have "voting {t} s1 s2"
    using a(3) t by (auto split: option.splits intro: voting_calms voting_mono dest!: voting_SendPhase1Reply)
  moreover have "voting {t} s2 s3"
    by (rule voting_mono [OF voting_WakeAllInterestedFallbacks [OF a(4)]]) (use t in blast)
  ultimately have "voting {t} s s3" by (meson voting_trans)
  then show ?thesis by (auto simp: a(5) voting_def vote_change_def votes_defs)
qed

lemma voting_wake_dependent:
  assumes "wake_dependent pe d t s = Some s'"
  shows "voting {} s s'"
proof (cases "waitingDependencies_new s t")
  case (Some f)
  let ?s = "s\<lparr>waitingDependencies_new := (waitingDependencies_new s)(t \<mapsto> f\<lparr>wd_deps := removeAll d (wd_deps f)\<rparr>)\<rparr>"
  have "voting {} s ?s" using Some by (auto simp: voting_def vote_change_def votes_defs)
  moreover have "s' = ?s \<or> voting {t} ?s s'"
    using assms Some voting_answer_dependent by (auto simp: wake_dependent_def Let_def split: if_splits)
  moreover have "voting {} ?s s'" if "voting {t} ?s s'"
    by (rule voting_mono [OF that]) (simp add: favoured_def)
  ultimately show ?thesis using voting_trans by blast
qed (use assms in \<open>simp add: wake_dependent_def voting_calms\<close>)

lemma voting_CheckDependents:
  assumes "CheckDependents pe d s = Some s'"
  shows "voting {} s s'"
proof -
  have f: "voting {} s s'" if "foldM (wake_dependent pe d) ds s = Some s'" for ds s s'
    using that
  proof (induction ds arbitrary: s)
    case (Cons t ds)
    then obtain s1 where "wake_dependent pe d t s = Some s1" "foldM (wake_dependent pe d) ds s1 = Some s'"
      by (auto split: option.splits)
    then show ?case using Cons.IH voting_wake_dependent voting_trans by blast
  qed (simp add: voting_calms)
  show ?thesis
  proof (cases "dependents s d")
    case (Some ds)
    then obtain s1 where s1: "foldM (wake_dependent pe d) ds s = Some s1" "s' = s1\<lparr>dependents := (dependents s1)(d := None)\<rparr>"
      using assms by (auto simp: CheckDependents_def bind_eq_Some_conv)
    then show ?thesis using f [OF s1(1)] by (simp add: voting_def vote_change_def votes_defs)
  qed (use assms in \<open>simp add: CheckDependents_def voting_calms\<close>)
qed

lemma voting_ManageDependencies:
  assumes "ManageDependencies pe d txn rem q fb g s = Some (b, s')"
  shows "voting {d} s s'"
proof -
  have reg: "calms (snd x) (snd y)" if "RegisterWaitingTxn pe dep d rem q fb g n x = Some y" for dep n x y
    using that by (auto simp: RegisterWaitingTxn_def Let_def bind_eq_Some_conv split: prod.splits if_splits
        dest!: calms_SendRelayP1) (simp_all add: calms_def)
  have loop: "calms (snd x) (snd y)"
    if "foldM (\<lambda>dep. RegisterWaitingTxn pe (dep_id dep) d rem q fb g n) ds x = Some y" for ds n x y
    using that
  proof (induction ds arbitrary: x)
    case (Cons dep ds)
    then obtain x1 where "RegisterWaitingTxn pe (dep_id dep) d rem q fb g n x = Some x1"
      "foldM (\<lambda>dep. RegisterWaitingTxn pe (dep_id dep) d rem q fb g n) ds x1 = Some y" by (auto split: option.splits)
    then show ?case using Cons.IH reg calms_trans by blast
  qed simp
  have "\<exists>s1. calms s s1 \<and> (s' = s1 \<or> (\<exists>w. s' = s1\<lparr>waitingDependencies_new := (waitingDependencies_new s1)(d \<mapsto> w)\<rparr>))"
    using assms
    by (auto simp: ManageDependencies_def manage_deps_def bind_eq_Some_conv split: if_splits dest!: loop)
      (rule exI [of _ s'], simp)
  moreover have "voting {d} s1 (s1\<lparr>waitingDependencies_new := (waitingDependencies_new s1)(d \<mapsto> w)\<rparr>)" for s1 w
    by (auto simp: voting_def vote_change_def votes_defs)
  ultimately show ?thesis using voting_calms voting_trans by blast
qed

section \<open>Deciding a transaction\<close>

text \<open>What a clean-up, an abort and a commit do to the life of a transaction.\<close>

definition ends :: "string \<Rightarrow> server \<Rightarrow> server \<Rightarrow> bool" where
  "ends d s s' \<longleftrightarrow> ooMessages s' = ooMessages s \<and> filter is_job (effects s') = filter is_job (effects s) \<and>
     (\<forall>x. map_option (txn_core \<circ> og_txn) (ongoing s' x) =
        (if x = d then None else map_option (txn_core \<circ> og_txn) (ongoing s x))) \<and>
     vote_change {} s s'"

lemma ends_voting:
  assumes "ends d s s1" "voting {} s1 s'"
  shows "ends d s s'" "committed s' = committed s1" "aborted s' = aborted s1"
proof -
  note l = lifeD [of s' s1]
  have life: "life s' = life s1" using assms(2) by (simp add: voting_def)
  show "committed s' = committed s1" "aborted s' = aborted s1" using l(1,2) [OF life] by auto
  show "ends d s s'" using assms l(3-5) [OF life]
    by (simp add: ends_def voting_def vote_change_trans [of "{}" s s1 s'])
qed

lemma ends_calms:
  assumes "ends d s s1" "calms s1 s'"
  shows "ends d s s'" "committed s' = committed s1" "aborted s' = aborted s1"
  using ends_voting [OF assms(1) voting_calms [OF assms(2)]] by auto

lemma calms_clean_prepared: "calms s (clean_prepared pe d b s)"
proof (cases "prepared s d")
  case (Some p)
  have "calms s (fold (clean_write pe (fst p)) ws (fold (clean_read pe d) rs s))" for ws rs
    by (simp add: calms_def calmD [OF calm_fold [OF calm_steps(10)]] calmD [OF calm_fold [OF calm_steps(11)]])
  then show ?thesis using Some by (auto simp: clean_prepared_def Let_def calms_def split: prod.splits)
qed (simp add: clean_prepared_def)

lemma calms_unsigned:
  "(case p1MetaData t d of None \<Rightarrow> Some t | Some c \<Rightarrow> Some (t\<lparr>p1MetaData := (p1MetaData t)(d \<mapsto> c\<lparr>p1_signed_txn := None\<rparr>)\<rparr>)) = Some s'
   \<Longrightarrow> calms t s'"
  by (cases "p1MetaData t d") (auto simp: calms_def vote_of_def intro!: votes_p1)

lemma Clean_ends:
  assumes "Clean pe d a False s = Some s'"
  shows "ends d s s'" "committed s' = committed s" "aborted s' = aborted s"
proof -
  let ?s = "if ongoing s d \<noteq> None then s\<lparr>ongoing := (ongoing s)(d := None), aborted := aborted s\<rparr> else s"
  let ?c = "clean_prepared pe d a ?s"
  let ?t = "?c\<lparr>interestedClients := (interestedClients ?c)(d := None), ElectQuorums := (ElectQuorums ?c)(d := None),
    TxnMissingQueries := (TxnMissingQueries ?c)(d := None)\<rparr>"
  have e: "ends d s ?s" "committed ?s = committed s" "aborted ?s = aborted s"
    by (auto simp: ends_def vote_change_def)
  obtain t where t: "t = ?t" by blast
  have "Clean pe d a False s = (case p1MetaData t d of None \<Rightarrow> Some t
      | Some c \<Rightarrow> Some (t\<lparr>p1MetaData := (p1MetaData t)(d \<mapsto> c\<lparr>p1_signed_txn := None\<rparr>)\<rparr>))"
    unfolding t by (cases "ongoing s d") (simp_all add: Clean_def Let_def split: option.split)
  then have "calms t s'" using assms calms_unsigned [of t d s'] by simp
  moreover have "calms ?c t" unfolding t by (simp add: calms_def)
  ultimately have "calms ?s s'" using calms_clean_prepared calms_trans by blast
  from ends_calms [OF e(1) this] show "ends d s s'" "committed s' = committed s" "aborted s' = aborted s" using e by auto
qed

lemma Abort_ends:
  assumes "Abort pe d txn s = Some s'"
  shows "ends d s s'" "committed s' = committed s" "aborted s' = insert d (aborted s)"
proof -
  obtain s1 s2 s4 where a: "Clean pe d True False (s\<lparr>aborted := insert d (aborted s)\<rparr>) = Some s1" "CheckDependents pe d s1 = Some s2"
    "CleanQueries pe txn (ClearRTS pe (map read_key (read_set txn)) (timestamp txn) (CleanDependencies d s2)) = Some s4"
    "CheckWaitingQueries pe d (getTimestamp (timestamp txn)) (getID (timestamp txn)) True 0
       (let s5 = (if useSemanticCC pe then ClearPredicateAndWrites pe txn s4 else s4)
        in s5\<lparr>materialized := insert d (materialized s5)\<rparr>) = Some s'"
    using assms by (auto simp: Abort_def bind_eq_Some_conv Let_def)
  note c = Clean_ends [OF a(1)]
  have e1: "ends d s s1" using c(1) by (simp add: ends_def vote_change_def)
  note e2 = ends_voting [OF e1 voting_CheckDependents [OF a(2)]]
  have "voting {} s2 (CleanDependencies d s2)"
    by (auto simp: voting_def vote_change_def CleanDependencies_def votes_defs)
  note e3 = ends_voting [OF e2(1) this]
  have "calms (CleanDependencies d s2) s4" using calms_CleanQueries [OF a(3)] by (simp add: calms_def)
  note e4 = ends_calms [OF e3(1) this]
  have "calms s4 s'" using calms_CheckWaitingQueries [OF a(4)] by (simp add: calms_def Let_def split: if_splits)
  note e5 = ends_calms [OF e4(1) this]
  show "ends d s s'" by (rule e5(1))
  show "committed s' = committed s" "aborted s' = insert d (aborted s)"
    using e5 e4 e3 e2 c by (simp_all add: CleanDependencies_def)
qed

lemma calms_commit_writes: "commit_writes pe txn ts ws val s = Some s' \<Longrightarrow> calms s s'"
proof (induction ws arbitrary: val s)
  case (Cons w ws)
  then show ?case by (fastforce simp: Let_def calms_def split: if_splits)
qed simp

lemma commit_txn_ends:
  assumes "commit_txn pe d txn cp s = Some s'" "committed s d = None" "client_merges pe"
  shows "ends d s s'" "\<exists>cp'. committed s' = (committed s)(d \<mapsto> cp')" "aborted s' = aborted s"
proof -
  obtain txn' cp' s1 s3 s4 where a:
    "CommitToStore pe cp txn d (timestamp txn) (s\<lparr>committed := (committed s)(d \<mapsto> cp)\<rparr>) = Some (txn', cp', s1)"
    "Clean pe d False False (s1\<lparr>committed := (committed s1)(d \<mapsto> cp')\<rparr>) = Some s3"
    "CheckDependents pe d s3 = Some s4" "CleanQueries pe txn' (CleanDependencies d s4) = Some s'"
    using assms(1,2) by (auto simp: commit_txn_def bind_eq_Some_conv Let_def)
  have c: "calms (s\<lparr>committed := (committed s)(d \<mapsto> cp)\<rparr>) s1"
    using a(1) by (auto simp: CommitToStore_def UpdateCommittedReads_def merge_client_merges [OF assms(3)] bind_eq_Some_conv
        Let_def split: if_splits dest!: calms_commit_writes calms_RecordReadPredicatesAndWrites) (simp_all add: calms_def)
  note l = lifeD [OF c [unfolded calms_def, THEN conjunct1]]
  have v: "votes s1 = votes s" using c by (simp add: calms_def)
  have "ends d s s3" using Clean_ends(1) [OF a(2)] l(3-5) v
    by (auto simp: ends_def vote_change_def votes_def fun_eq_iff)
  note e2 = ends_voting [OF this voting_CheckDependents [OF a(3)]]
  have "voting {} s4 (CleanDependencies d s4)"
    by (auto simp: voting_def vote_change_def CleanDependencies_def votes_defs)
  note e3 = ends_voting [OF e2(1) this]
  note e4 = ends_calms [OF e3(1) calms_CleanQueries [OF a(4)]]
  show "ends d s s'" by (rule e4(1))
  have "committed s' = (committed s)(d \<mapsto> cp')"
    using e4 e3 e2 Clean_ends(2) [OF a(2)] l(1) by simp
  then show "\<exists>cp'. committed s' = (committed s)(d \<mapsto> cp')" by blast
  show "aborted s' = aborted s" using e4 e3 e2 Clean_ends(3) [OF a(2)] l(2) by simp
qed

lemma Clean_prepared: "Clean pe d a h s = Some s' \<Longrightarrow> prepared s' = (prepared s)(d := None)"
  using cc_coreD(3) [OF Clean_core] by fastforce

lemma Abort_prepared:
  assumes "Abort pe d txn s = Some s'"
  shows "prepared s' = (prepared s)(d := None)"
proof -
  obtain s1 s2 s4 where a: "Clean pe d True False (s\<lparr>aborted := insert d (aborted s)\<rparr>) = Some s1" "CheckDependents pe d s1 = Some s2"
    "CleanQueries pe txn (ClearRTS pe (map read_key (read_set txn)) (timestamp txn) (CleanDependencies d s2)) = Some s4"
    "CheckWaitingQueries pe d (getTimestamp (timestamp txn)) (getID (timestamp txn)) True 0
       (let s5 = (if useSemanticCC pe then ClearPredicateAndWrites pe txn s4 else s4)
        in s5\<lparr>materialized := insert d (materialized s5)\<rparr>) = Some s'"
    using assms by (auto simp: Abort_def bind_eq_Some_conv Let_def)
  have "cc_core s' = cc_core s1"
    using core_CheckDependents [OF a(2)] core_CleanQueries [OF a(3)] core_CheckWaitingQueries [OF a(4)]
    by (simp add: Let_def split: if_splits)
  then show ?thesis using Clean_prepared [OF a(1)] cc_coreD(3) [of s' s1] by simp
qed

lemma commit_writes_prepared: "commit_writes pe txn ts ws val s = Some s' \<Longrightarrow> prepared s' = prepared s"
  by (induction pe txn ts ws val s rule: commit_writes.induct)
    (auto simp: Let_def commit_rts_def split: if_splits option.splits)

lemma commit_txn_prepared:
  assumes "commit_txn pe d txn cp s = Some s'" "committed s d = None" "client_merges pe"
  shows "prepared s' = (prepared s)(d := None)"
proof -
  obtain txn' cp' s1 s3 s4 where a:
    "CommitToStore pe cp txn d (timestamp txn) (s\<lparr>committed := (committed s)(d \<mapsto> cp)\<rparr>) = Some (txn', cp', s1)"
    "Clean pe d False False (s1\<lparr>committed := (committed s1)(d \<mapsto> cp')\<rparr>) = Some s3"
    "CheckDependents pe d s3 = Some s4" "CleanQueries pe txn' (CleanDependencies d s4) = Some s'"
    using assms(1,2) by (auto simp: commit_txn_def bind_eq_Some_conv Let_def)
  have f: "prepared (fold (commit_read pe ts c) rs s) = prepared s" for ts c rs s
    by (induction rs arbitrary: s) (auto simp: commit_read_def)
  have r: "prepared s2 = prepared s1" if "RecordReadPredicatesAndWrites pe t ts b s1 = Some s2" for t ts b s1 s2
    using cc_coreD(3) [OF core_RecordReadPredicatesAndWrites [OF that]] .
  have "prepared s1 = prepared s"
    using a(1) f by (auto simp: CommitToStore_def UpdateCommittedReads_def merge_client_merges [OF assms(3)] bind_eq_Some_conv
        Let_def emit_def split: if_splits dest!: commit_writes_prepared r)
  moreover have "prepared s' = prepared s3"
    using core_CheckDependents [OF a(3)] core_CleanQueries [OF a(4)] cc_coreD(3) [of s' s3] by simp
  ultimately show ?thesis using Clean_prepared [OF a(2)] by simp
qed

definition decides :: "string \<Rightarrow> server \<Rightarrow> server \<Rightarrow> bool" where
  "decides d s s' \<longleftrightarrow> ends d s s' \<and> prepared s' = (prepared s)(d := None) \<and>
     (committed s' = committed s \<and> aborted s' = insert d (aborted s) \<or>
      (\<exists>cp. committed s' = (committed s)(d \<mapsto> cp)) \<and> aborted s' = aborted s)"

lemma Abort_decides: "Abort pe d txn s = Some s' \<Longrightarrow> decides d s s'"
  using Abort_ends Abort_prepared by (simp add: decides_def)

lemma commit_decides: "commit_txn pe d txn cp s = Some s' \<Longrightarrow> committed s d = None \<Longrightarrow> client_merges pe \<Longrightarrow> decides d s s'"
  using commit_txn_ends commit_txn_prepared by (simp add: decides_def)

section \<open>Checking a transaction\<close>

lemma life_set_ongoing:
  assumes "\<forall>og. ongoing s d = Some og \<longrightarrow> txn_core (og_txn og) = txn_core txn"
  shows "calms s (set_ongoing d txn s)"
  using assms by (cases "ongoing s d") (auto simp: calms_def life_def set_ongoing_def fun_eq_iff)

lemma calms_Prepare:
  assumes "Prepare pe d txn rs s = Some s'"
  shows "calms s s'"
proof (cases "ongoing s d = None \<or> prepared s d \<noteq> None")
  case False
  have np: "prepared s d = None" using False by (cases "prepared s d") simp_all
  obtain og where og: "ongoing s d = Some og" using False by (cases "ongoing s d") simp_all
  let ?s2 = "fold (prepare_write pe (timestamp txn) (og_txn og)) (write_set txn)
    (fold (prepare_read pe d (og_txn og)) rs (s\<lparr>prepared := (prepared s)(d \<mapsto> (timestamp txn, og_txn og))\<rparr>))"
  obtain s3 where s3:
    "(if useSemanticCC pe then RecordReadPredicatesAndWrites pe (og_txn og) (timestamp txn) False ?s2 else Some ?s2) = Some s3"
    "s' = (if disable_prepare_visibility pe then s3
           else emit (Job_ApplyTableWrites (og_txn og) (timestamp txn) d None False) s3)"
    using assms og np by (auto simp: Prepare_def bind_eq_Some_conv Let_def split: if_splits)
  have "calms s ?s2" by (simp add: calms_def)
  moreover have "calms ?s2 s3" using s3(1) calms_RecordReadPredicatesAndWrites by (cases "useSemanticCC pe") auto
  ultimately show ?thesis using s3(2) by (auto simp: calms_def)
qed (use assms in \<open>auto simp: Prepare_def Let_def split: option.splits if_splits\<close>)

lemma calms_mvtso_conflicts:
  assumes "mvtso_conflicts pe now d txn rs ds ps s = Some (v, s1)"
  shows "calms s s1"
proof -
  let ?m = "if useSemanticCC pe \<and> write_set txn \<noteq> [] then CheckMonotonicTableColVersions pe d txn s else (True, s)"
  obtain b s2 where m: "?m = (b, s2)" by (cases ?m)
  have o: "calms s (snd (monotonic_loop pe d t tables s))" for t tables s
    by (induction pe d t tables s rule: monotonic_loop.induct) (auto simp: Let_def calms_def split: option.splits)
  have "calms s s2" using m o
    by (auto simp: CheckMonotonicTableColVersions_def split: if_splits) (metis snd_conv)
  moreover have "s1 = s \<or> s1 = s2"
    using assms m by (auto simp: mvtso_conflicts_def Let_def bind_eq_Some_conv split: if_splits option.splits prod.splits)
  ultimately show ?thesis by auto
qed

text \<open>A check prepares the transaction, or it leaves everything but the bookkeeping of the check alone.\<close>

definition check_step :: "string \<Rightarrow> CCResult \<Rightarrow> server \<Rightarrow> server \<Rightarrow> bool" where
  "check_step d r s s' \<longleftrightarrow> voting {d} s s' \<and> (\<forall>x. x \<noteq> d \<longrightarrow> prepared s' x = prepared s x) \<and>
     (prepared s' d \<noteq> None \<and> r \<noteq> CC_ABORT \<or>
      calms s s' \<and> cc_core s' = cc_core s \<and> (r = CC_ABORT \<or> r = CC_ABSTAIN))"

lemma DoMVTSOOCCCheck_step:
  assumes c: "DoMVTSOOCCCheck pe now q rem d T rs ds ps fb g s = Some (out, s')"
    and og: "ongoing s d = Some og" "og_txn og = T"
  shows "check_step d (co_result out) s s'"
proof -
  have res: "(if \<not> b then CC_WAIT else CheckDependencies_txn pe t s2) \<noteq> CC_ABORT" for b t s2
    using check_deps_loop_result [of s2 "timestamp t" "local_deps pe (txn_deps t)"] by (auto simp: CheckDependencies_txn_def)
  show ?thesis
  proof (cases "prepared s d")
    case (Some p)
    then obtain b where m: "ManageDependencies pe d T rem q fb g s = Some (b, s')"
      and o: "co_result out = (if \<not> b then CC_WAIT else CheckDependencies_txn pe T s')"
      using c by (auto simp: DoMVTSOOCCCheck_def bind_eq_Some_conv verdict_out_def)
    show ?thesis using Some o res voting_ManageDependencies [OF m] cc_coreD(3) [OF core_ManageDependencies [OF m]]
      by (simp add: check_step_def)
  next
    case None
    obtain v s1 where v: "mvtso_conflicts pe now d T rs ds ps s = Some (v, s1)"
      using c None by (auto simp: DoMVTSOOCCCheck_def bind_eq_Some_conv)
    note k = calms_mvtso_conflicts [OF v] mvtso_conflicts_core [OF v]
    show ?thesis
    proof (cases v)
      case (Inl x)
      obtain r y z where x: "x = (r, y, z)" by (cases x)
      have "s' = s1" "co_result out = r" using c None v Inl x by (auto simp: DoMVTSOOCCCheck_def verdict_out_def)
      then show ?thesis using k voting_calms [OF k(1)] cc_coreD(3) [OF k(2)] mvtso_conflicts_verdict [OF v [unfolded Inl x]]
        by (simp add: check_step_def)
    next
      case (Inr T')
      obtain s2 b where pr: "Prepare pe d T' rs (set_ongoing d T' s1) = Some s2"
        and m: "ManageDependencies pe d T' rem q fb g s2 = Some (b, s')"
        and o: "co_result out = (if \<not> b then CC_WAIT else CheckDependencies_txn pe T' s')"
        using c None v Inr by (auto simp: DoMVTSOOCCCheck_def bind_eq_Some_conv verdict_out_def)
      have "calms s1 (set_ongoing d T' s1)"
        using life_set_ongoing k(3) og mvtso_conflicts_pass(1) [OF v [unfolded Inr]] by simp
      then have "calms s s2" using k(1) calms_Prepare [OF pr] calms_trans by blast
      then have "voting {d} s s'" using voting_calms voting_trans voting_ManageDependencies [OF m] by blast
      moreover have "prepared (set_ongoing d T' s1) = prepared s" using cc_coreD(3) [OF k(2)] by (simp add: set_ongoing_def)
      moreover have "ongoing (set_ongoing d T' s1) d = Some (og\<lparr>og_txn := T'\<rparr>)" using og k(3) by (simp add: set_ongoing_def)
      ultimately show ?thesis
        using Prepare_core(3) [OF pr, of "og\<lparr>og_txn := T'\<rparr>"] None cc_coreD(3) [OF core_ManageDependencies [OF m]] o res
        by (simp add: check_step_def)
    qed
  qed
qed

text \<open>With queries merged by the client the check of the whole transaction is such a step, or aborts it.\<close>

lemma DoOCCCheck_step:
  assumes cm: "client_merges pe" "occType pe = MVTSO" and og: "ongoing s d = Some og" "og_txn og = T"
    and c: "DoOCCCheck pe now q rem d T fb g s = Some (out, s')"
  shows "if co_result out = CC_ABORT then \<exists>s1. calms s s1 \<and> cc_core s1 = cc_core s \<and> Abort pe d T s1 = Some s'
    else check_step d (co_result out) s s'"
proof -
  have so: "set_ongoing d T s = s" using og by (cases og) (auto simp: set_ongoing_def fun_upd_idem)
  have merge: "mergeTxReadSets pe a d T s = Some (\<lparr>mo_result = CC_COMMIT, mo_readSet = read_set T,
      mo_depSet = deps T, mo_predSet = read_predicates T, mo_txn = T\<rparr>, s)" for a
    using merge_client_merges [OF cm(1)] by (simp add: base_sets_def)
  obtain out1 s1 where k: "DoMVTSOOCCCheck pe now q rem d T (read_set T) (deps T) (read_predicates T) fb g s = Some (out1, s1)"
    using c cm(2) by (auto simp: DoOCCCheck_def merge so bind_eq_Some_conv split: if_splits)
  have r: "if co_result out1 \<noteq> CC_ABORT then (out, s') = (out1, s1)
       else out = out1 \<and> (\<exists>w. Abort pe d T (s1\<lparr>writebackMessages := w\<rparr>) = Some s')"
    using c cm by (auto simp: DoOCCCheck_def merge so k Let_def client_merges_def bind_eq_Some_conv split: if_splits)
  note v = DoMVTSOOCCCheck_step [OF k og]
  show ?thesis
  proof (cases "co_result out1 = CC_ABORT")
    case True
    then obtain w where a: "out = out1" "Abort pe d T (s1\<lparr>writebackMessages := w\<rparr>) = Some s'" using r by auto
    have "calms s (s1\<lparr>writebackMessages := w\<rparr>) \<and> cc_core (s1\<lparr>writebackMessages := w\<rparr>) = cc_core s"
      using v True by (simp add: check_step_def calms_def)
    then show ?thesis using True a by auto
  qed (use r v in simp)
qed

end
