(* ===== verification/Handler_Example.thy ===== *)
theory Handler_Example
  imports Handlers
begin

text \<open>
  A run of the handlers on concrete messages: two transactions are proposed, both are voted for, and both are
  committed with certificates of all six replicas of the sample group.  The second transaction reads what the
  first one writes.
\<close>

section \<open>Transactions and messages\<close>

definition run_params :: "u64 \<Rightarrow> params" where
  "run_params i = kv_params\<lparr>hashDigest := False, server_id := i, mainThreadDispatching := False\<rparr>"

definition run_T1 :: Transaction where
  "run_T1 = empty_txn\<lparr>client_id := 1, client_seq_num := 1, involved_groups := [0], timestamp := Timestamp 20000 1,
     write_set := [mk_write ''x'' ''1'']\<rparr>"

definition run_T2 :: Transaction where
  "run_T2 = empty_txn\<lparr>client_id := 2, client_seq_num := 1, involved_groups := [0], timestamp := Timestamp 30000 2,
     read_set := [mk_read ''x'' (Timestamp 20000 1)], write_set := [mk_write ''y'' ''2'']\<rparr>"

definition run_d0 :: string where "run_d0 = le_bytes 0 @ le_bytes 0"
definition run_d1 :: string where "run_d1 = le_bytes 1 @ le_bytes 1"
definition run_d2 :: string where "run_d2 = le_bytes 2 @ le_bytes 1"

lemma run_digests [simp]:
  "TransactionDigest (blake3 (run_params i)) run_T1 (hashDigest (run_params i)) = run_d1"
  "TransactionDigest (blake3 (run_params i)) run_T2 (hashDigest (run_params i)) = run_d2"
  "genesis_digest (run_params i) = run_d0"
  by (simp_all add: TransactionDigest_def run_params_def run_T1_def run_T2_def run_d0_def run_d1_def run_d2_def
      genesis_digest_def genesis_txn_def empty_txn_def)

lemma run_distinct [simp]:
  "run_d1 \<noteq> run_d2" "run_d2 \<noteq> run_d1" "run_d1 \<noteq> run_d0" "run_d0 \<noteq> run_d1" "run_d2 \<noteq> run_d0" "run_d0 \<noteq> run_d2"
  "run_d0 \<noteq> []" "run_d1 \<noteq> []" "run_d2 \<noteq> []" "[] \<noteq> run_d0" "[] \<noteq> run_d1" "[] \<noteq> run_d2"
proof -
  have "le_bytes 0 \<noteq> le_bytes 1" "le_bytes 0 \<noteq> le_bytes 2" "le_bytes 1 \<noteq> le_bytes 2"
    by (simp_all add: le_bytes_def byte_at_def upt_rec)
  moreover have "length (le_bytes x) = 8" for x by (simp add: le_bytes_def)
  ultimately show "run_d1 \<noteq> run_d2" "run_d2 \<noteq> run_d1" "run_d1 \<noteq> run_d0" "run_d0 \<noteq> run_d1" "run_d2 \<noteq> run_d0" "run_d0 \<noteq> run_d2"
    "run_d0 \<noteq> []" "run_d1 \<noteq> []" "run_d2 \<noteq> []" "[] \<noteq> run_d0" "[] \<noteq> run_d1" "[] \<noteq> run_d2"
    unfolding run_d0_def run_d1_def run_d2_def by (metis append_eq_append_conv append_is_Nil_conv list.size(3) zero_neq_numeral)+
qed

text \<open>Before the votes are sent no signature verifies; afterwards those on the two commit votes do.\<close>

definition run_crypto :: "string set \<Rightarrow> crypto" where
  "run_crypto D = sample_crypto\<lparr>Verify := (\<lambda>i msg sg. i < 6 \<and> sg = msg \<and> msg \<in> (\<lambda>d. d @ ''1'') ` D), ser_p2 := (\<lambda>_. [])\<rparr>"

definition run_env :: "string set \<Rightarrow> handler_env" where
  "run_env D = \<lparr>he_crypto = run_crypto D, he_config = sample_cfg, he_parse_txn = (\<lambda>_. empty_txn), he_parse_abort = (\<lambda>_. None),
     he_client_verify = (\<lambda>_ _ _. True), he_batchVerification = False\<rparr>"

definition run_proposal :: "Transaction \<Rightarrow> event" where
  "run_proposal T = E_Phase1 40000 ''c'' \<lparr>ph1_req_id = 1, ph1_txn = Some T, ph1_signed_txn = None, ph1_replica_gossip = False\<rparr>"

definition run_sigs :: "string \<Rightarrow> (u64 \<times> Signature list) list" where
  "run_sigs d = [(0, map (\<lambda>i. \<lparr>sig_process_id = i, sig_signature = d @ ''1''\<rparr>) [0, 1, 2, 3, 4, 5])]"

definition run_writeback :: "string \<Rightarrow> event" where
  "run_writeback d = E_Writeback \<lparr>wb_decision = COMMIT, wb_txn_digest = Some d, wb_txn = None,
     wb_proof = WB_p1_sigs (run_sigs d), wb_p2_view = None\<rparr>"

section \<open>The states of the run\<close>

definition run_s0 :: server where
  "run_s0 = the (start_server (run_params 0))"

abbreviation run_W1 :: Transaction where "run_W1 \<equiv> run_T1\<lparr>txndigest := Some run_d1\<rparr>"
abbreviation run_W2 :: Transaction where "run_W2 \<equiv> run_T2\<lparr>txndigest := Some run_d2\<rparr>"

definition run_vote :: P1MetaData where
  "run_vote = \<lparr>p1_reqId = 0, p1_result = Some CC_COMMIT, p1_conflict = None, p1_hasP1 = True, p1_signed_txn = None,
     p1_original = None, p1_fallbacks_interested = False, p1_forceMaterialize = False, p1_alreadyForceMaterialized = False\<rparr>"

definition run_reply :: "string \<Rightarrow> effect" where
  "run_reply d = Send_Phase1Reply ''c'' \<lparr>p1r_req_id = 1, p1r_ccr = CC_COMMIT, p1r_txn_digest = Some d, p1r_involved_group = Some 0,
     p1r_committed_conflict = None, p1r_abstain_conflict = None\<rparr>"

definition run_s1 :: server where
  "run_s1 = run_s0\<lparr>p2MetaDatas := [run_d1 \<mapsto> new_P2MetaData],
     ongoing := [run_d1 \<mapsto> \<lparr>og_txn = run_W1, num_concurrent_clients = 1\<rparr>],
     prepared := [run_d1 \<mapsto> (Timestamp 20000 1, run_W1)], preparedWrites := [''x'' \<mapsto> [(Timestamp 20000 1, run_W1)]],
     p1MetaData := [run_d1 \<mapsto> run_vote],
     effects := [Job_ApplyTableWrites run_W1 (Timestamp 20000 1) run_d1 None False, run_reply run_d1]\<rparr>"

definition run_s2 :: server where
  "run_s2 = run_s0\<lparr>p2MetaDatas := [run_d1 \<mapsto> new_P2MetaData, run_d2 \<mapsto> new_P2MetaData],
     ongoing := [run_d1 \<mapsto> \<lparr>og_txn = run_W1, num_concurrent_clients = 1\<rparr>,
                 run_d2 \<mapsto> \<lparr>og_txn = run_W2, num_concurrent_clients = 1\<rparr>],
     prepared := [run_d1 \<mapsto> (Timestamp 20000 1, run_W1), run_d2 \<mapsto> (Timestamp 30000 2, run_W2)],
     preparedReads := [''x'' \<mapsto> [(run_d2, run_W2)]],
     preparedWrites := [''x'' \<mapsto> [(Timestamp 20000 1, run_W1)], ''y'' \<mapsto> [(Timestamp 30000 2, run_W2)]],
     p1MetaData := [run_d1 \<mapsto> run_vote, run_d2 \<mapsto> run_vote],
     effects := [Job_ApplyTableWrites run_W1 (Timestamp 20000 1) run_d1 None False, run_reply run_d1,
                 Job_ApplyTableWrites run_W2 (Timestamp 30000 2) run_d2 None False, run_reply run_d2]\<rparr>"

definition run_proof :: "string \<Rightarrow> Transaction \<Rightarrow> CommittedProof" where
  "run_proof d W = \<lparr>cp_txn = W, cp_sigs = P1_sigs (run_sigs d), cp_p2_view = None\<rparr>"

definition run_s3 :: server where
  "run_s3 = run_s2\<lparr>ongoing := [run_d2 \<mapsto> \<lparr>og_txn = run_W2, num_concurrent_clients = 1\<rparr>],
     prepared := [run_d2 \<mapsto> (Timestamp 30000 2, run_W2)],
     preparedWrites := [''x'' \<mapsto> [], ''y'' \<mapsto> [(Timestamp 30000 2, run_W2)]],
     store := \<lparr>vs_store = [''x'' \<mapsto> [(Timestamp 20000 1, \<lparr>val_val = ''1'', val_proof = Some (run_proof run_d1 run_W1)\<rparr>)]],
               vs_lastReads = Map.empty\<rparr>,
     committed := (committed run_s0)(run_d1 \<mapsto> Some (run_proof run_d1 run_W1)),
     effects := effects run_s2 @ [Job_ApplyTableWrites run_W1 (Timestamp 20000 1) run_d1 (Some (run_proof run_d1 run_W1)) True]\<rparr>"

definition run_s4 :: server where
  "run_s4 = run_s3\<lparr>ongoing := Map.empty, prepared := Map.empty, preparedReads := [''x'' \<mapsto> []],
     preparedWrites := [''x'' \<mapsto> [], ''y'' \<mapsto> []],
     committedReads := [''x'' \<mapsto> [((Timestamp 30000 2, Timestamp 20000 1), Some (run_proof run_d2 run_W2))]],
     store := \<lparr>vs_store = [''x'' \<mapsto> [(Timestamp 20000 1, \<lparr>val_val = ''1'', val_proof = Some (run_proof run_d1 run_W1)\<rparr>)],
                           ''y'' \<mapsto> [(Timestamp 30000 2, \<lparr>val_val = ''2'', val_proof = Some (run_proof run_d2 run_W2)\<rparr>)]],
               vs_lastReads = Map.empty\<rparr>,
     committed := (committed run_s3)(run_d2 \<mapsto> Some (run_proof run_d2 run_W2)),
     effects := effects run_s3 @ [Job_ApplyTableWrites run_W2 (Timestamp 30000 2) run_d2 (Some (run_proof run_d2 run_W2)) True]\<rparr>"

lemma run_params_simps [simp]:
  "validateProofs (run_params i)" "signedMessages (run_params i)" "\<not> verifyDeps (run_params i)" "maxDepDepth (run_params i) = -1"
  "\<not> signClientProposals (run_params i)" "rtsMode (run_params i) = 0" "\<not> sql_mode (run_params i)"
  "\<not> useSemanticCC (run_params i)" "\<not> cacheReadSet (run_params i)" "mergeActiveAtClient (run_params i)"
  "\<not> optimisticTxID (run_params i)" "\<not> no_fallback (run_params i)" "groupIdx (run_params i) = 0"
  "occType (run_params i) = MVTSO" "\<not> disable_prepare_visibility (run_params i)" "\<not> all_to_all_fb (run_params i)"
  "IsKeyOwned (run_params i) = (\<lambda>_. True)" "\<not> mainThreadDispatching (run_params i)" "\<not> multiThreading (run_params i)"
  "\<not> replicaGossip (run_params i)" "timeDelta (run_params i) = 0" "server_id (run_params i) = i"
  by (simp_all add: run_params_def IsKeyOwned_def kv_params_def fun_eq_iff)

lemma run_start: "start_server (run_params i) = Some run_s0"
  by (simp add: run_s0_def start_server_def Let_def MergeTimestampId_def)

lemma run_txn_simps [simp]:
  "read_set run_T1 = []" "write_set run_T1 = [mk_write ''x'' ''1'']" "timestamp run_T1 = Timestamp 20000 1" "deps run_T1 = []"
  "involved_groups run_T1 = [0]" "query_set run_T1 = []" "read_predicates run_T1 = []" "table_writes run_T1 = []" "merged_read_set run_T1 = None"
  "last_query_seq run_T1 = None" "last_query_seq run_T2 = None"
  "read_set run_T2 = [mk_read ''x'' (Timestamp 20000 1)]" "write_set run_T2 = [mk_write ''y'' ''2'']" "timestamp run_T2 = Timestamp 30000 2"
  "deps run_T2 = []" "involved_groups run_T2 = [0]" "query_set run_T2 = []" "read_predicates run_T2 = []" "table_writes run_T2 = []"
  "merged_read_set run_T2 = None"
  by (simp_all add: run_T1_def run_T2_def empty_txn_def)

lemmas proposal_defs = handle_def run_proposal_def HandlePhase1_def known_result_def ProcessProposal_def proposal_checked_def
  CheckProposalValidity_def AddOngoing_def RegisterTxTS_def TryPrepare_def check_and_vote_def HandlePhase1CB_def BufferP1Result_def
  merge_vote_def subscribe_vote_def finish_vote_def SendPhase1Reply_def p1_meta_def p2_meta_def proposed_txn_def abstain_conflict_msg_def
  new_P1MetaData_def new_P2MetaData_def

lemmas state_defs = mk_write_def mk_read_def less_Timestamp_def less_eq_Timestamp_def emit_def om_pred_lt_def

lemma run_s0_sel [simp]:
  "committed run_s0 run_d1 = None" "committed run_s0 run_d2 = None" "ongoing run_s0 = Map.empty" "ooMessages run_s0 = Map.empty"
  "p1MetaData run_s0 = Map.empty" "aborted run_s0 = {}" "prepared run_s0 = Map.empty" "store run_s0 = vs_empty"
  "preparedReads run_s0 = Map.empty" "preparedWrites run_s0 = Map.empty" "effects run_s0 = []" "p2MetaDatas run_s0 = Map.empty"
  "committedReads run_s0 = Map.empty" "rts run_s0 = Map.empty" "rts_list run_s0 = Map.empty" "dependents run_s0 = Map.empty"
  "waitingDependencies_new run_s0 = Map.empty" "interestedClients run_s0 = Map.empty" "ElectQuorums run_s0 = Map.empty"
  "TxnMissingQueries run_s0 = Map.empty"
  by (simp_all add: run_s0_def start_server_def Let_def MergeTimestampId_def init_server_def)

lemmas run_eval = proposal_defs check_defs state_defs vs_empty_def run_vote_def run_reply_def

lemma run_step1: "handle (run_env {}) (run_params i) (run_proposal run_T1) run_s0 = Some run_s1"
  by (simp add: run_s1_def run_eval)

lemma run_step2: "handle (run_env {}) (run_params i) (run_proposal run_T2) run_s1 = Some run_s2"
  by (simp add: run_s1_def run_s2_def run_eval)

lemmas writeback_defs = handle_def run_writeback_def HandleWriteback_def ManageWritebackValidation_def validate_writeback_def
  LookupP1Decision_def WritebackCallback_def Commit_txn_def commit_txn_def commit_proof_def CommitToStore_def UpdateCommittedReads_def
  Clean_def clean_prepared_def clean_read_def clean_write_def CheckDependents_def CleanDependencies_def CleanQueries_def
  mergeTxReadSets_def base_sets_def commit_read_def commit_rts_def vs_put_def run_env_def Let_def

lemma run_certificate:
  assumes "i < 6" "d \<in> D" "involved_groups T = [0]"
  shows "ValidateP1Replies (run_crypto D) sample_cfg (Some i) CC_COMMIT COMMIT True T d (run_sigs d)"
  using assms by (auto simp: run_sigs_def ValidateP1Replies_groups p1_group_cert_def sample_in_group p1_quorum_def sig_counts_def run_crypto_def
      sample_crypto_def p1_msg_def p1_vote_def)

lemma run_step3:
  assumes "i < 6"
  shows "handle (run_env {run_d1, run_d2}) (run_params i) (run_writeback run_d1) run_s2 = Some run_s3"
proof -
  have "handle (run_env {run_d1, run_d2}) (run_params i) (run_writeback run_d1) run_s2 =
      Commit_txn (run_params i) run_d1 run_W1 (run_sigs run_d1) True (- 1) run_s2"
    using run_certificate [OF assms, of run_d1 "{run_d1, run_d2}" run_W1]
    by (simp add: run_s2_def writeback_defs run_vote_def)
  also have "\<dots> = Some run_s3"
    by (simp add: writeback_defs run_s2_def run_eval om_erase_def run_s3_def run_proof_def)
       (rule server.equality; simp add: fun_upd_twist)
  finally show ?thesis .
qed

lemma run_step4:
  assumes "i < 6"
  shows "handle (run_env {run_d1, run_d2}) (run_params i) (run_writeback run_d2) run_s3 = Some run_s4"
proof -
  have "handle (run_env {run_d1, run_d2}) (run_params i) (run_writeback run_d2) run_s3 =
      Commit_txn (run_params i) run_d2 run_W2 (run_sigs run_d2) True (- 1) run_s3"
    using run_certificate [OF assms, of run_d2 "{run_d1, run_d2}" run_W2]
    by (simp add: run_s3_def run_s2_def writeback_defs run_vote_def)
  also have "\<dots> = Some run_s4"
    by (simp add: writeback_defs run_s3_def run_s2_def run_eval om_erase_def run_s4_def run_proof_def)
  finally show ?thesis .
qed

end
