(* ===== verification/Handler_Runs.thy ===== *)
theory Handler_Runs
  imports Handler_Frames Handler_Example
begin

text \<open>
  Runs of a replica at the level of messages: a run starts in the initial state and handles one event after
  the other, be it a message or a job that a handler has started.  The theory shows that a replica never both
  commits and aborts a transaction, that a logged decision never changes, and that a run of events is a run
  in the sense of \<open>replica_run\<close> in which every commit vote is backed by a successful check.  The
  assumptions on transactions, parameters and messages are \<open>registry\<close>, \<open>deployed\<close> and \<open>event_ok\<close>.
\<close>

section \<open>The invariant of a run\<close>

abbreviation live :: "server \<Rightarrow> string \<Rightarrow> _" where
  "live s d \<equiv> map_option (txn_core \<circ> og_txn) (ongoing s d)"

definition undecided :: "server \<Rightarrow> string \<Rightarrow> bool" where
  "undecided s d \<longleftrightarrow> committed s d = None \<and> d \<notin> aborted s"

definition pending :: "server \<Rightarrow> string \<Rightarrow> bool" where
  "pending s d \<longleftrightarrow> (\<exists>q r g f. Job_TryPrepare q r d g f \<in> set (effects s))"

text \<open>
  The transactions that clients have sent, by digest: digests do not collide and are not empty, no two
  transactions share a timestamp, and none of them deletes.
\<close>

definition registry :: "(string \<rightharpoonup> Transaction) \<Rightarrow> bool" where
  "registry REG \<longleftrightarrow> REG [] = None \<and> (\<forall>d T. REG d = Some T \<longrightarrow> plain_txn T \<and>
     (\<forall>d' T'. REG d' = Some T' \<longrightarrow> d' \<noteq> d \<longrightarrow> timestamp T' \<noteq> timestamp T))"

definition known :: "(string \<rightharpoonup> Transaction) \<Rightarrow> string \<Rightarrow> _ \<Rightarrow> bool" where
  "known REG d c \<longleftrightarrow> (\<exists>T. REG d = Some T \<and> txn_core T = c)"

definition known_job :: "(string \<rightharpoonup> Transaction) \<Rightarrow> effect \<Rightarrow> bool" where
  "known_job REG e = (case e of Job_ProcessProposal _ _ _ _ _ _ _ \<Rightarrow> False
     | Job_WritebackValidation _ d txn \<Rightarrow> known REG d (txn_core txn)
     | Job_Phase2Validation _ m d txn _ \<Rightarrow> known REG d (txn_core txn) \<and> \<not> ph2_simulated_equiv m | _ \<Rightarrow> True)"

text \<open>A message that is kept for later names its transaction by digest only.\<close>

definition known_oo :: "string \<Rightarrow> ooMsg \<Rightarrow> bool" where
  "known_oo d m = (case m of OO_wb wb \<Rightarrow> wb_txn_digest wb = Some d \<and> wb_txn wb = None
     | OO_p2 p2 _ \<Rightarrow> ph2_txn_digest p2 = Some d \<and> ph2_txn p2 = None \<and> \<not> ph2_simulated_equiv p2)"

definition known_txns :: "(string \<rightharpoonup> Transaction) \<Rightarrow> (string \<rightharpoonup> Transaction) \<Rightarrow> server \<Rightarrow> bool" where
  "known_txns REG H s \<longleftrightarrow> (\<forall>d T. H d = Some T \<longrightarrow> known REG d (txn_core T)) \<and>
     (\<forall>d c. live s d = Some c \<longrightarrow> known REG d c) \<and> (\<forall>e \<in> set (effects s). known_job REG e) \<and>
     (\<forall>d m. ooMessages s d = Some m \<longrightarrow> known_oo d m)"

lemma known_txnsD:
  assumes "known_txns REG H s"
  shows "ongoing s d = Some og \<Longrightarrow> known REG d (txn_core (og_txn og))" "e \<in> set (effects s) \<Longrightarrow> known_job REG e"
    "ooMessages s d = Some m \<Longrightarrow> known_oo d m" "H d = Some T \<Longrightarrow> known REG d (txn_core T)"
proof -
  have "\<forall>c. live s d = Some c \<longrightarrow> known REG d c" using assms unfolding known_txns_def by blast
  from spec [OF this, of "txn_core (og_txn og)"]
  show "known REG d (txn_core (og_txn og))" if "ongoing s d = Some og" using that by simp
qed (use assms in \<open>simp_all add: known_txns_def\<close>)

definition lifecycle :: "server \<Rightarrow> bool" where
  "lifecycle s \<longleftrightarrow> (\<forall>d. committed s d \<noteq> None \<longrightarrow> d \<notin> aborted s) \<and> (\<forall>d. prepared s d \<noteq> None \<longrightarrow> undecided s d) \<and>
     (\<forall>d. pending s d \<longrightarrow> ooMessages s d = None \<and> (ongoing s d \<noteq> None \<longleftrightarrow> undecided s d))"

text \<open>
  A transaction that the replica has checked, or need not check any more, and the evidence behind what
  the replica has told others.
\<close>

definition checked :: "(string \<rightharpoonup> Transaction) \<Rightarrow> server \<Rightarrow> string \<Rightarrow> bool" where
  "checked H s d \<longleftrightarrow> H d \<noteq> None \<or> d \<in> aborted s"

definition accepted :: "(string \<rightharpoonup> Transaction) \<Rightarrow> server \<Rightarrow> string \<Rightarrow> bool" where
  "accepted H s d \<longleftrightarrow> checked H s d \<or> committed s d \<noteq> None"

definition backed :: "(string \<rightharpoonup> Transaction) \<Rightarrow> server \<Rightarrow> bool" where
  "backed H s \<longleftrightarrow> (\<forall>d \<in> favoured s. accepted H s d) \<and>
     (\<forall>d \<in> commit_logs s. LookupP2Decision d s = Some COMMIT \<or> committed s d \<noteq> None) \<and>
     (\<forall>r m d T. Job_Phase2Validation r m d T (Some CC_COMMIT) \<in> set (effects s) \<longrightarrow> accepted H s d)"

definition handler_inv :: "params \<Rightarrow> (string \<rightharpoonup> Transaction) \<Rightarrow> (string \<rightharpoonup> Transaction) \<Rightarrow> server \<Rightarrow> bool" where
  "handler_inv pe REG H s \<longleftrightarrow> replica_run pe H s \<and> known_txns REG H s \<and> lifecycle s \<and> backed H s"

lemma handler_invD:
  assumes "handler_inv pe REG H s"
  shows "replica_run pe H s" "known_txns REG H s" "lifecycle s" "backed H s"
  using assms by (simp_all add: handler_inv_def)

lemma pending_jobs: "pending s d \<longleftrightarrow> (\<exists>q r g f. Job_TryPrepare q r d g f \<in> set (filter is_job (effects s)))"
  by (auto simp: pending_def)

lemma known_jobs: "(\<forall>e \<in> set (effects s). known_job REG e) \<longleftrightarrow> (\<forall>e \<in> set (filter is_job (effects s)). known_job REG e)"
proof -
  have "known_job REG e" if "\<not> is_job e" for e using that by (cases e) (simp_all add: known_job_def)
  then show ?thesis by auto
qed

lemma validation_jobs: "Job_Phase2Validation r m d T x \<in> set (effects s) \<longleftrightarrow> Job_Phase2Validation r m d T x \<in> set (filter is_job (effects s))"
  by simp

lemma life_eqs:
  assumes "life s' = life s"
  shows "undecided s' d = undecided s d" "pending s' d = pending s d" "known_txns REG H s' = known_txns REG H s"
    "accepted H s' d = accepted H s d" "(ongoing s' d = None) = (ongoing s d = None)" "ooMessages s' = ooMessages s"
    "committed s' = committed s" "aborted s' = aborted s" "live s' d = live s d" "checked H s' d = checked H s d"
    "Job_Phase2Validation r m d T x \<in> set (effects s') \<longleftrightarrow> Job_Phase2Validation r m d T x \<in> set (effects s)"
proof -
  note l = lifeD [OF assms]
  show "undecided s' d = undecided s d" and "ooMessages s' = ooMessages s"
    "committed s' = committed s" "aborted s' = aborted s" "live s' d = live s d"
    using l(1-3) l(5) [of d] by (simp_all add: undecided_def)
  show "pending s' d = pending s d" "known_txns REG H s' = known_txns REG H s"
    "Job_Phase2Validation r m d T x \<in> set (effects s') \<longleftrightarrow> Job_Phase2Validation r m d T x \<in> set (effects s)"
    unfolding pending_jobs known_txns_def known_jobs validation_jobs [of _ _ _ _ _ s] validation_jobs [of _ _ _ _ _ s'] l(3-5)
    by (rule refl)+
  show "accepted H s' d = accepted H s d" "checked H s' d = checked H s d" using l(1,2) by (simp_all add: accepted_def checked_def)
  show "(ongoing s' d = None) = (ongoing s d = None)" using l(5) [of d] by (metis map_option_is_None)
qed

section \<open>Progress\<close>

text \<open>
  What never goes back: checked transactions stay checked, decisions and logged decisions stay.  The two
  sets bound what a step may newly commit, and for what it may newly log a commit.
\<close>

definition progress ::
  "string set \<Rightarrow> string set \<Rightarrow> (string \<rightharpoonup> Transaction) \<Rightarrow> server \<Rightarrow> (string \<rightharpoonup> Transaction) \<Rightarrow> server \<Rightarrow> bool" where
  "progress C L H s H' s' \<longleftrightarrow> {x. checked H s x} \<subseteq> {x. checked H' s' x} \<and> dom (committed s) \<subseteq> dom (committed s') \<and>
     dom (committed s') \<subseteq> dom (committed s) \<union> C \<and> aborted s \<subseteq> aborted s' \<and>
     (\<lambda>x. LookupP2Decision x s) \<subseteq>\<^sub>m (\<lambda>x. LookupP2Decision x s') \<and>
     {x. LookupP2Decision x s' = Some COMMIT} \<subseteq> {x. LookupP2Decision x s = Some COMMIT} \<union> L"

definition advance ::
  "params \<Rightarrow> (string \<rightharpoonup> Transaction) \<Rightarrow> string set \<Rightarrow> string set \<Rightarrow> (string \<rightharpoonup> Transaction) \<Rightarrow> server \<Rightarrow> server \<Rightarrow> bool" where
  "advance pe REG C L H s s' \<longleftrightarrow> (\<exists>H'. handler_inv pe REG H' s' \<and> progress C L H s H' s')"

lemma progress_trans:
  assumes "progress C L H s H1 s1" "progress C L H1 s1 H' s'"
  shows "progress C L H s H' s'"
proof -
  have "dom (committed s') \<subseteq> dom (committed s) \<union> C" using assms unfolding progress_def by blast
  moreover have "{x. LookupP2Decision x s' = Some COMMIT} \<subseteq> {x. LookupP2Decision x s = Some COMMIT} \<union> L"
    using assms unfolding progress_def by blast
  ultimately show ?thesis using assms unfolding progress_def by (meson map_le_trans order_trans)
qed

lemma advance_refl: "handler_inv pe REG H s \<Longrightarrow> advance pe REG C L H s s"
  unfolding advance_def progress_def by (intro exI [of _ H]) simp

lemma advance_trans:
  assumes "advance pe REG C L H s s1" "\<And>H1. handler_inv pe REG H1 s1 \<Longrightarrow> advance pe REG C L H1 s1 s'"
  shows "advance pe REG C L H s s'"
  using assms progress_trans unfolding advance_def by blast

lemma advance_mono: "advance pe REG C L H s s' \<Longrightarrow> C \<subseteq> C' \<Longrightarrow> L \<subseteq> L' \<Longrightarrow> advance pe REG C' L' H s s'"
  unfolding advance_def progress_def by (meson Un_mono order_refl order_trans)

section \<open>Steps that only vote\<close>

definition quiet :: "string set \<Rightarrow> server \<Rightarrow> server \<Rightarrow> bool" where
  "quiet D s s' \<longleftrightarrow> voting D s s' \<and> cc_core s' = cc_core s"

lemma quiet_calms: "calms s s' \<Longrightarrow> cc_core s' = cc_core s \<Longrightarrow> quiet D s s'"
  by (simp add: quiet_def voting_calms)

lemma quiet_trans: "quiet D s s1 \<Longrightarrow> quiet D s1 s' \<Longrightarrow> quiet D s s'"
  by (auto simp: quiet_def intro: voting_trans)

lemma quiet_mono: "quiet D s s' \<Longrightarrow> D \<subseteq> D' \<union> favoured s \<Longrightarrow> quiet D' s s'"
  by (auto simp: quiet_def intro: voting_mono)

lemma quiet_eqs:
  assumes "quiet D s s'"
  shows "life s' = life s" "prepared s' = prepared s" "favoured s' \<subseteq> favoured s \<union> D" "LookupP2Decision x s' = LookupP2Decision x s"
  using assms cc_coreD(3) [of s' s] by (auto simp: quiet_def voting_def vote_change_def)

text \<open>A step that leaves the life of every transaction alone and votes only for accepted ones.\<close>

lemma backed_voting:
  assumes "backed H s" "voting D s s'" "\<forall>x. checked H s x \<longrightarrow> checked H' s' x" "\<forall>x \<in> D. accepted H' s' x"
  shows "backed H' s'"
proof -
  have l: "life s' = life s" and v: "vote_change D s s'" using assms(2) by (simp_all add: voting_def)
  have acc: "accepted H' s' x" if "accepted H s x" for x
    using that assms(3) life_eqs(7) [OF l] by (auto simp: accepted_def)
  show ?thesis unfolding backed_def
  proof (intro conjI ballI allI impI)
    fix d assume "d \<in> favoured s'"
    then have "d \<in> favoured s \<or> d \<in> D" using v by (auto simp: vote_change_def)
    then show "accepted H' s' d" using assms(1,4) acc by (auto simp: backed_def)
  next
    fix d assume "d \<in> commit_logs s'"
    then show "LookupP2Decision d s' = Some COMMIT \<or> committed s' d \<noteq> None"
      using v assms(1) life_eqs(7) [OF l] unfolding vote_change_def backed_def by auto
  next
    fix r m d T assume "Job_Phase2Validation r m d T (Some CC_COMMIT) \<in> set (effects s')"
    then have "Job_Phase2Validation r m d T (Some CC_COMMIT) \<in> set (effects s)" using life_eqs(11) [OF l] by blast
    then show "accepted H' s' d" using assms(1) acc unfolding backed_def by blast
  qed
qed

lemma handler_inv_voting:
  assumes "handler_inv pe REG H s" "voting D s s'" "replica_run pe H' s'" "\<forall>x. checked H s x \<longrightarrow> checked H' s' x"
    "\<forall>x \<in> D. accepted H' s' x" "\<forall>x T. H' x = Some T \<longrightarrow> known REG x (txn_core T)" "\<forall>x. prepared s' x \<noteq> None \<longrightarrow> undecided s x"
  shows "handler_inv pe REG H' s'"
proof -
  have l: "life s' = life s" using assms(2) by (simp add: voting_def)
  note i = handler_invD [OF assms(1)]
  have "known_txns REG H' s" using i(2) assms(6) by (simp add: known_txns_def)
  then have "known_txns REG H' s'" using life_eqs(3) [OF l, of REG H'] by simp
  moreover have "lifecycle s'"
    using i(3) assms(7) unfolding lifecycle_def life_eqs(1,2,5,6,7,8) [OF l] by blast
  ultimately show ?thesis using assms(3) backed_voting [OF i(4) assms(2,4,5)] by (simp add: handler_inv_def)
qed

lemma handler_inv_quiet:
  assumes "handler_inv pe REG H s" "quiet D s s'" "\<forall>d \<in> D. accepted H s d"
  shows "handler_inv pe REG H s'" "progress {} {} H s H s'"
proof -
  have v: "voting D s s'" "cc_core s' = cc_core s" using assms(2) by (simp_all add: quiet_def)
  note q = quiet_eqs [OF assms(2)] and i = handler_invD [OF assms(1)]
  have "\<forall>x. checked H s x \<longrightarrow> checked H s' x" using life_eqs(10) [OF q(1)] by simp
  moreover have "\<forall>x \<in> D. accepted H s' x" using assms(3) life_eqs(4) [OF q(1)] by simp
  moreover have "\<forall>x T. H x = Some T \<longrightarrow> known REG x (txn_core T)" using i(2) by (simp add: known_txns_def)
  moreover have "\<forall>x. prepared s' x \<noteq> None \<longrightarrow> undecided s x" using i(3) q(2) by (simp add: lifecycle_def)
  ultimately show "handler_inv pe REG H s'"
    by (rule handler_inv_voting [OF assms(1) v(1) replica_run.other [OF i(1) v(2)]])
  show "progress {} {} H s H s'" unfolding progress_def life_eqs(7,8,10) [OF q(1)] q(4) by simp
qed

lemma advance_quiet:
  assumes "handler_inv pe REG H s" "quiet D s s'" "D \<subseteq> favoured s \<or> (\<forall>d \<in> D. accepted H s d)"
  shows "advance pe REG C L H s s'"
proof -
  have "\<forall>d \<in> D. accepted H s d" using assms(3) handler_invD(4) [OF assms(1)] by (auto simp: backed_def)
  from handler_inv_quiet [OF assms(1,2) this] have "advance pe REG {} {} H s s'" unfolding advance_def by blast
  then show ?thesis by (rule advance_mono) simp_all
qed

section \<open>Deciding\<close>

lemma decides_undecided: "decides d s s' \<Longrightarrow> undecided s' x \<longleftrightarrow> undecided s x \<and> x \<noteq> d"
  unfolding decides_def undecided_def by (elim conjE disjE exE) auto

lemma endsD:
  assumes "ends d s s'"
  shows "ooMessages s' = ooMessages s" "filter is_job (effects s') = filter is_job (effects s)"
    "live s' x = (if x = d then None else live s x)" "vote_change {} s s'"
    "ongoing s' x = None \<longleftrightarrow> x = d \<or> ongoing s x = None" "pending s' x = pending s x"
    "Job_Phase2Validation r m x T v \<in> set (effects s') \<longleftrightarrow> Job_Phase2Validation r m x T v \<in> set (effects s)"
proof -
  show "ooMessages s' = ooMessages s" "vote_change {} s s'" and f: "filter is_job (effects s') = filter is_job (effects s)"
    and l: "live s' x = (if x = d then None else live s x)"
    using assms by (simp_all add: ends_def)
  show "ongoing s' x = None \<longleftrightarrow> x = d \<or> ongoing s x = None"
    using l by (cases "ongoing s' x"; cases "ongoing s x") (simp_all split: if_splits)
  show "pending s' x = pending s x"
    "Job_Phase2Validation r m x T v \<in> set (effects s') \<longleftrightarrow> Job_Phase2Validation r m x T v \<in> set (effects s)"
    unfolding pending_jobs validation_jobs [of _ _ _ _ _ s] validation_jobs [of _ _ _ _ _ s'] f by (rule refl)+
qed

lemma known_txns_ends:
  assumes "known_txns REG H s" "ends d s s'" "\<forall>x T. H' x = Some T \<longrightarrow> H x = Some T"
  shows "known_txns REG H' s'"
  using assms(1,3) unfolding known_txns_def known_jobs endsD(1,2,3) [OF assms(2)] by (auto split: if_splits)

lemma lifecycle_decides:
  assumes "lifecycle s" "decides d s s'" "undecided s d"
  shows "lifecycle s'"
proof -
  have e: "ends d s s'" and p: "prepared s' = (prepared s)(d := None)" using assms(2) by (simp_all add: decides_def)
  have "x \<notin> aborted s'" if "committed s' x \<noteq> None" for x
    using that assms by (auto simp: decides_def lifecycle_def undecided_def split: if_splits)
  moreover have "undecided s' x" if "prepared s' x \<noteq> None" for x
    using that assms(1) p decides_undecided [OF assms(2), of x] by (auto simp: lifecycle_def split: if_splits)
  moreover have "ooMessages s' x = None \<and> (ongoing s' x \<noteq> None \<longleftrightarrow> undecided s' x)" if "pending s' x" for x
    using that assms(1) endsD(1,5,6) [OF e] decides_undecided [OF assms(2), of x] by (auto simp: lifecycle_def)
  ultimately show ?thesis by (simp add: lifecycle_def)
qed

lemma decides_decided: "decides d s s' \<Longrightarrow> dom (committed s) \<subseteq> dom (committed s') \<and> aborted s \<subseteq> aborted s' \<and>
    dom (committed s') \<subseteq> insert d (dom (committed s)) \<and> (d \<in> aborted s' \<or> committed s' d \<noteq> None)"
  unfolding decides_def by (elim conjE disjE exE) auto

lemma accepted_decides:
  assumes "decides d s s'" "\<forall>x. x \<noteq> d \<longrightarrow> H' x = H x" "accepted H s x"
  shows "accepted H' s' x"
  using assms decides_decided [OF assms(1)] by (cases "x = d") (auto simp: accepted_def checked_def dom_def)

lemma backed_decides:
  assumes "backed H s" "decides d s s'" "\<forall>x. x \<noteq> d \<longrightarrow> H' x = H x"
  shows "backed H' s'"
proof -
  have e: "ends d s s'" using assms(2) by (simp add: decides_def)
  note acc = accepted_decides [OF assms(2,3)] and v = endsD(4) [OF e]
  show ?thesis unfolding backed_def
  proof (intro conjI ballI allI impI)
    fix x assume "x \<in> favoured s'"
    then show "accepted H' s' x" using v assms(1) acc by (auto simp: vote_change_def backed_def)
  next
    fix x assume "x \<in> commit_logs s'"
    then have "LookupP2Decision x s = Some COMMIT \<or> committed s x \<noteq> None"
      using v assms(1) by (auto simp: vote_change_def backed_def)
    then show "LookupP2Decision x s' = Some COMMIT \<or> committed s' x \<noteq> None"
      using v decides_decided [OF assms(2)] by (auto simp: vote_change_def dom_def)
  next
    fix r m x T assume "Job_Phase2Validation r m x T (Some CC_COMMIT) \<in> set (effects s')"
    then have "Job_Phase2Validation r m x T (Some CC_COMMIT) \<in> set (effects s)" using endsD(7) [OF e] by blast
    then show "accepted H' s' x" using assms(1) acc unfolding backed_def by blast
  qed
qed

lemma advance_decides:
  assumes "handler_inv pe REG H s" "decides d s s'" "undecided s d" "replica_run pe H' s'"
    "\<forall>x. x \<noteq> d \<longrightarrow> H' x = H x" "\<forall>x T. H' x = Some T \<longrightarrow> H x = Some T" "H d \<noteq> None \<longrightarrow> H' d \<noteq> None \<or> d \<in> aborted s'"
    "committed s' d \<noteq> None \<longrightarrow> d \<in> C"
  shows "advance pe REG C {} H s s'"
proof -
  have e: "ends d s s'" using assms(2) by (simp add: decides_def)
  have "handler_inv pe REG H' s'" unfolding handler_inv_def
    using assms(4) known_txns_ends [OF handler_invD(2) [OF assms(1)] e assms(6)]
      lifecycle_decides [OF handler_invD(3) [OF assms(1)] assms(2,3)] backed_decides [OF handler_invD(4) [OF assms(1)] assms(2,5)]
    by (intro conjI)
  moreover have "checked H' s' x" if "checked H s x" for x
    using that assms(5,7) decides_decided [OF assms(2)] by (cases "x = d") (auto simp: checked_def)
  moreover have "LookupP2Decision x s' = LookupP2Decision x s" for x using endsD(4) [OF e] by (simp add: vote_change_def)
  moreover have "dom (committed s') \<subseteq> dom (committed s) \<union> C" using decides_decided [OF assms(2)] assms(8) by blast
  ultimately show ?thesis using decides_decided [OF assms(2)]
    unfolding advance_def progress_def by (intro exI [of _ H']) auto
qed

lemma advance_Abort:
  assumes "handler_inv pe REG H s" "Abort pe d T s = Some s'" "undecided s d"
  shows "advance pe REG {} {} H s s'"
proof -
  have "replica_run pe (H(d := None)) s'" by (rule replica_run.abort [OF handler_invD(1) [OF assms(1)] assms(2)])
  moreover have "d \<in> aborted s'" "committed s' d = None"
    using Abort_ends(2,3) [OF assms(2)] assms(3) by (simp_all add: undecided_def)
  ultimately show ?thesis
    by (intro advance_decides [OF assms(1) Abort_decides [OF assms(2)] assms(3)]) (auto split: if_splits)
qed

lemma knownD:
  assumes "registry REG" "known REG d (txn_core T)" "known_txns REG H s"
  shows "plain_txn T" "\<forall>d' T'. H d' = Some T' \<longrightarrow> d' \<noteq> d \<longrightarrow> timestamp T' \<noteq> timestamp T"
    "\<forall>T'. H d = Some T' \<longrightarrow> txn_core T = txn_core T'" "d \<noteq> []"
proof -
  obtain T0 where T0: "REG d = Some T0" "txn_core T0 = txn_core T" using assms(2) by (auto simp: known_def)
  have "plain_txn T0" using assms(1) T0(1) by (simp add: registry_def)
  then show "plain_txn T" using T0(2) by (simp add: plain_txn_def txn_core_def)
  show "d \<noteq> []" using assms(1) T0(1) by (auto simp: registry_def)
  have h: "\<exists>T1. REG d' = Some T1 \<and> txn_core T1 = txn_core T'" if "H d' = Some T'" for d' T'
    using that assms(3) by (auto simp: known_txns_def known_def)
  show "\<forall>T'. H d = Some T' \<longrightarrow> txn_core T = txn_core T'" using h T0 by fastforce
  show "\<forall>d' T'. H d' = Some T' \<longrightarrow> d' \<noteq> d \<longrightarrow> timestamp T' \<noteq> timestamp T"
  proof (intro allI impI)
    fix d' T' assume a: "H d' = Some T'" "d' \<noteq> d"
    obtain T1 where "REG d' = Some T1" "txn_core T1 = txn_core T'" using h [OF a(1)] by blast
    then show "timestamp T' \<noteq> timestamp T" using assms(1) T0 a(2) unfolding registry_def txn_core_def by force
  qed
qed

lemma advance_commit:
  assumes "handler_inv pe REG H s" "registry REG" "client_merges pe" "known REG d (txn_core T)" "undecided s d"
    "Commit_txn pe d T gs p1 v s = Some s'" "d \<in> C"
  shows "advance pe REG C {} H s s'"
proof -
  note i = handler_invD [OF assms(1)] and k = knownD [OF assms(2,4) handler_invD(2) [OF assms(1)]]
  have "decides d s s'" using commit_decides assms(3,5,6) by (simp add: Commit_txn_def undecided_def)
  then show ?thesis
    by (rule advance_decides [OF assms(1) _ assms(5) replica_run.commit [OF i(1) k(1,3) assms(6)]]) (use assms(7) in simp_all)
qed

section \<open>Checking and voting\<close>

definition deployed :: "params \<Rightarrow> bool" where
  "deployed pe \<longleftrightarrow> client_merges pe \<and> occType pe = MVTSO \<and> validateProofs pe \<and> signedMessages pe \<and>
     \<not> (multiThreading pe \<and> signClientProposals pe)"

lemma quiet_sends:
  "SendPhase1Reply pe q r cf d rem a s = Some s' \<Longrightarrow> quiet (in_favour r d) s s'"
  "WakeAllInterestedFallbacks pe d r cf s = Some s' \<Longrightarrow> quiet (in_favour r d) s s'"
  "ForceMaterialization pe r d txn s = Some s' \<Longrightarrow> quiet D s s'"
  "ManageDependencies pe d txn rem q fb g s = Some (b, s') \<Longrightarrow> quiet {d} s s'"
  "RegisterTxTS pe d txn s = Some s' \<Longrightarrow> quiet D s s'"
proof -
  show "SendPhase1Reply pe q r cf d rem a s = Some s' \<Longrightarrow> quiet (in_favour r d) s s'"
    using voting_SendPhase1Reply core_sends [OF SendPhase1Reply_sends] by (simp add: quiet_def)
  show "WakeAllInterestedFallbacks pe d r cf s = Some s' \<Longrightarrow> quiet (in_favour r d) s s'"
    by (frule WakeAllInterestedFallbacks_wakes) (auto simp: quiet_def voting_WakeAllInterestedFallbacks elim!: wakesE)
  show "ForceMaterialization pe r d txn s = Some s' \<Longrightarrow> quiet D s s'"
    using calms_jobs(3) [of pe r d txn s s'] by (auto simp: ForceMaterialization_def split: if_splits
        intro!: quiet_calms dest!: core_ApplyTableWrites)
  show "ManageDependencies pe d txn rem q fb g s = Some (b, s') \<Longrightarrow> quiet {d} s s'"
    by (simp add: quiet_def voting_ManageDependencies core_ManageDependencies)
  show "RegisterTxTS pe d txn s = Some s' \<Longrightarrow> quiet D s s'"
    by (simp add: quiet_calms calms_RegisterTxTS core_RegisterTxTS)
qed

lemma quiet_BufferP1Result:
  assumes "BufferP1Result pe r cf d q rem f g fb s = Some (out, s')" "r \<noteq> CC_IGNORE"
  shows "quiet (in_favour r d) s s'" "in_favour (vo_result out) d \<subseteq> favoured s \<union> in_favour r d"
proof -
  have "cc_core s' = cc_core s" using assms by (auto simp: BufferP1Result_def Let_def case_prod_unfold)
  then show "quiet (in_favour r d) s s'" using voting_BufferP1Result(1) [OF assms] by (simp add: quiet_def)
  show "in_favour (vo_result out) d \<subseteq> favoured s \<union> in_favour r d" by (rule voting_BufferP1Result(2) [OF assms])
qed

lemma quiet_HandlePhase1CB:
  assumes "HandlePhase1CB pe q r cf d T rem a g f s = Some s'"
  shows "quiet (in_favour r d) s s'"
proof (cases "r = CC_IGNORE")
  case False
  let ?D = "favoured s \<union> in_favour r d"
  obtain out s1 s2 s3 where c: "BufferP1Result pe r cf d q (Some rem) f g 0 s = Some (out, s1)"
    "(if (vo_result out \<noteq> CC_WAIT \<and> \<not> g) \<or> vo_original out \<noteq> None
      then SendPhase1Reply pe q (vo_result out) cf d (case vo_original out of None \<Rightarrow> rem | Some (r, _) \<Rightarrow> r) a s1
      else Some s1) = Some s2"
    "(if vo_wake_fallbacks out then WakeAllInterestedFallbacks pe d (vo_result out) cf s2 else Some s2) = Some s3"
    "(if vo_forceMaterialize out then ForceMaterialization pe (vo_result out) d T s3 else Some s3) = Some s'"
    using assms False by (auto simp: HandlePhase1CB_def bind_eq_Some_conv)
  note b = quiet_BufferP1Result [OF c(1) False]
  have m: "quiet ?D x y" if "quiet (in_favour (vo_result out) d) x y" for x y by (rule quiet_mono [OF that]) (use b(2) in blast)
  have r: "quiet ?D x x" for x by (simp add: quiet_calms)
  have "quiet ?D s s1" by (rule quiet_mono [OF b(1)]) blast
  moreover have "quiet ?D s1 s2" using c(2) m [OF quiet_sends(1)] r by (fastforce split: if_splits)
  moreover have "quiet ?D s2 s3" using c(3) m [OF quiet_sends(2)] r by (cases "vo_wake_fallbacks out") simp_all
  moreover have "quiet ?D s3 s'" using c(4) quiet_sends(3) r by (cases "vo_forceMaterialize out") simp_all
  ultimately have "quiet ?D s s'" by (meson quiet_trans)
  then show ?thesis by (rule quiet_mono) blast
qed (use assms in \<open>simp add: HandlePhase1CB_def quiet_calms\<close>)

text \<open>A check of an undecided transaction, and the vote that follows it.\<close>

lemma advance_check:
  assumes inv: "handler_inv pe REG H s" and reg: "registry REG" and dep: "deployed pe"
    and og: "ongoing s d = Some og" "og_txn og = T" and un: "undecided s d"
    and c: "DoOCCCheck pe now q rem d T fb g s = Some (out, s')"
  shows "advance pe REG {} {} H s s' \<and> (\<forall>H'. handler_inv pe REG H' s' \<longrightarrow> (\<forall>x \<in> in_favour (co_result out) d. accepted H' s' x))"
proof -
  have dp: "client_merges pe" "occType pe = MVTSO" using dep by (simp_all add: deployed_def)
  note i = handler_invD [OF inv]
  have "known REG d (txn_core T)" using known_txnsD(1) [OF i(2) og(1)] og(2) by simp
  note k = knownD [OF reg this i(2)] and kn = this
  note step = DoOCCCheck_step [OF dp og c]
  note run = replica_run.check [OF i(1) og k(1,2) c]
  show ?thesis
  proof (cases "co_result out = CC_ABORT")
    case True
    then obtain s1 where s1: "calms s s1" "cc_core s1 = cc_core s" "Abort pe d T s1 = Some s'" using step by auto
    note q = quiet_calms [OF s1(1,2), of "{}"]
    have un1: "undecided s1 d" using un life_eqs(1) [OF quiet_eqs(1) [OF q]] by simp
    have "advance pe REG {} {} H s s1" by (rule advance_quiet [OF inv q]) simp
    then have "advance pe REG {} {} H s s'" by (rule advance_trans) (rule advance_Abort [OF _ s1(3) un1])
    then show ?thesis using True by (simp add: in_favour_def)
  next
    case False
    let ?H = "if prepared s d = None \<and> prepared s' d \<noteq> None then H(d \<mapsto> T) else H"
    have st: "check_step d (co_result out) s s'" and run': "replica_run pe ?H s'" using step run False by simp_all
    show ?thesis
    proof (cases "prepared s' d")
      case None
      then have q: "quiet {} s s'" "in_favour (co_result out) d = {}"
        using st by (auto simp: check_step_def quiet_calms in_favour_def)
      show ?thesis using advance_quiet [OF inv q(1)] q(2) by simp
    next
      case (Some p)
      have acc: "H' d \<noteq> None" if "replica_run pe H' s'" for H'
        using prepared_knownD(1) [OF cc_invD(3) [OF replica_run_inv [OF that dp]], of d "fst p" "snd p"] Some by auto
      have v: "voting {d} s s'" using st by (simp add: check_step_def)
      then have l: "life s' = life s" by (simp add: voting_def)
      have ch: "\<forall>x. checked H s x \<longrightarrow> checked ?H s' x" using life_eqs(8) [OF l] by (simp add: checked_def)
      have kh: "\<forall>x T'. ?H x = Some T' \<longrightarrow> known REG x (txn_core T')" using i(2) kn by (simp add: known_txns_def)
      have pr: "\<forall>x. prepared s' x \<noteq> None \<longrightarrow> undecided s x"
      proof (intro allI impI)
        fix x assume "prepared s' x \<noteq> None"
        then show "undecided s x" using st un i(3) by (cases "x = d") (auto simp: check_step_def lifecycle_def)
      qed
      have "handler_inv pe REG ?H s'"
        by (rule handler_inv_voting [OF inv v run' ch _ kh pr]) (use acc [OF run'] in \<open>simp add: accepted_def checked_def\<close>)
      moreover have "progress {} {} H s ?H s'"
        using ch v unfolding progress_def life_eqs(7,8) [OF l] by (auto simp: voting_def vote_change_def)
      ultimately have "advance pe REG {} {} H s s'" unfolding advance_def by blast
      moreover have "accepted H' s' d" if "handler_inv pe REG H' s'" for H'
        using acc [OF handler_invD(1) [OF that]] by (simp add: accepted_def checked_def)
      ultimately show ?thesis by (simp add: in_favour_def)
    qed
  qed
qed

lemma advance_check_and_vote:
  assumes "handler_inv pe REG H s" "registry REG" "deployed pe" "ongoing s d = Some og" "og_txn og = T" "undecided s d"
    "check_and_vote pe now q rem T d g f s = Some s'"
  shows "advance pe REG {} {} H s s'"
proof -
  obtain out s1 where c: "DoOCCCheck pe now q rem d T False g s = Some (out, s1)"
    "HandlePhase1CB pe q (co_result out) (co_conflict out) d (co_txn out) rem (co_abstain_conflict out) g f s1 = Some s'"
    using assms(7) by (auto simp: check_and_vote_def bind_eq_Some_conv)
  note a = advance_check [OF assms(1-6) c(1)]
  show ?thesis
  proof (rule advance_trans)
    show "advance pe REG {} {} H s s1" using a by blast
    fix H1 assume "handler_inv pe REG H1 s1"
    then show "advance pe REG {} {} H1 s1 s'" using a by (intro advance_quiet [OF _ quiet_HandlePhase1CB [OF c(2)]]) blast+
  qed
qed

section \<open>Steps that register work\<close>

lemma advance_life:
  assumes "handler_inv pe REG H s" "cc_core s' = cc_core s" "vote_change {} s s'" "committed s' = committed s"
    "aborted s' = aborted s" "known_txns REG H s'" "lifecycle s'"
    "\<forall>r m d T. Job_Phase2Validation r m d T (Some CC_COMMIT) \<in> set (effects s') \<longrightarrow>
       Job_Phase2Validation r m d T (Some CC_COMMIT) \<in> set (effects s) \<or> accepted H s d"
  shows "handler_inv pe REG H s'" "advance pe REG {} {} H s s'"
proof -
  note i = handler_invD [OF assms(1)]
  have e: "checked H s' x = checked H s x" "accepted H s' x = accepted H s x" for x
    using assms(4,5) by (simp_all add: accepted_def checked_def)
  have "backed H s'" unfolding backed_def e
  proof (intro conjI ballI allI impI)
    fix d assume "d \<in> favoured s'"
    then show "accepted H s d" using i(4) assms(3) by (auto simp: backed_def vote_change_def)
  next
    fix d assume "d \<in> commit_logs s'"
    then show "LookupP2Decision d s' = Some COMMIT \<or> committed s' d \<noteq> None"
      using i(4) assms(3,4) by (auto simp: backed_def vote_change_def)
  next
    fix r m d T assume "Job_Phase2Validation r m d T (Some CC_COMMIT) \<in> set (effects s')"
    then show "accepted H s d" using assms(8) i(4) unfolding backed_def by blast
  qed
  then show inv: "handler_inv pe REG H s'"
    using assms(6,7) replica_run.other [OF i(1) assms(2)] by (simp add: handler_inv_def)
  have "progress {} {} H s H s'" using assms(3-5) unfolding progress_def e by (simp add: vote_change_def)
  then show "advance pe REG {} {} H s s'" using inv unfolding advance_def by blast
qed

lemma vote_change_refl: "votes s' = votes s \<Longrightarrow> vote_change {} s s'"
  by (rule vote_change_votes)

lemma emit_sel [simp]:
  "effects (emit e s) = effects s @ [e]" "committed (emit e s) = committed s" "aborted (emit e s) = aborted s"
  "ongoing (emit e s) = ongoing s" "ooMessages (emit e s) = ooMessages s" "prepared (emit e s) = prepared s"
  by (simp_all add: emit_def)

lemma RegisterTxTS_ts: "RegisterTxTS pe d T s = Some s' \<Longrightarrow> \<exists>x. s' = s\<lparr>ts_to_tx := x\<rparr>"
proof -
  assume a: "RegisterTxTS pe d T s = Some s'"
  have "s' = s \<or> (\<exists>x. s' = s\<lparr>ts_to_tx := x\<rparr>)"
    using a by (auto simp: RegisterTxTS_def bind_eq_Some_conv split: if_splits option.split_asm)
  moreover have "s = s\<lparr>ts_to_tx := ts_to_tx s\<rparr>" by simp
  ultimately show ?thesis by metis
qed

lemma advance_AddOngoing:
  assumes inv: "handler_inv pe REG H s" and k: "known REG d (txn_core T)" and p: "pending s d \<longrightarrow> undecided s d"
    and a: "AddOngoing pe d T s = Some s'"
  shows "handler_inv pe REG H s'" "advance pe REG {} {} H s s'" "\<exists>og. ongoing s' d = Some og \<and> og_txn og = T"
    "votes s' = votes s" "committed s' = committed s" "aborted s' = aborted s" "ooMessages s' = ooMessages s"
    "effects s' = effects s"
proof -
  obtain s1 n where s1: "RegisterTxTS pe d T s = Some s1" "s' = s1\<lparr>ongoing := (ongoing s1)(d \<mapsto> \<lparr>og_txn = T, num_concurrent_clients = n\<rparr>)\<rparr>"
    using a by (auto simp: AddOngoing_def bind_eq_Some_conv)
  obtain x where x: "s1 = s\<lparr>ts_to_tx := x\<rparr>" using RegisterTxTS_ts [OF s1(1)] by blast
  show f: "committed s' = committed s" "aborted s' = aborted s" "ooMessages s' = ooMessages s" "effects s' = effects s"
    "votes s' = votes s" "\<exists>og. ongoing s' d = Some og \<and> og_txn og = T"
    by (simp_all add: s1(2) x)
  note i = handler_invD [OF inv]
  have kt: "known_txns REG H s'" using i(2) k unfolding known_txns_def f(3,4) by (auto simp: s1(2) x)
  have u: "undecided s' y = undecided s y" "pending s' y = pending s y" for y
    using f by (simp_all add: undecided_def pending_def)
  have pr: "prepared s' = prepared s" "ongoing s' = (ongoing s)(d \<mapsto> \<lparr>og_txn = T, num_concurrent_clients = n\<rparr>)"
    by (simp_all add: s1(2) x)
  have "lifecycle s'" using i(3) p unfolding lifecycle_def u f pr by simp
  then show "handler_inv pe REG H s'" "advance pe REG {} {} H s s'"
    using advance_life [OF inv _ vote_change_votes [OF f(5)] f(1,2) kt] f(4) by (simp_all add: s1(2) x)
qed

lemma advance_emit_job:
  assumes "handler_inv pe REG H s" "is_job e" "known_job REG e"
    "\<forall>q r d g f. e = Job_TryPrepare q r d g f \<longrightarrow> undecided s d \<and> ongoing s d \<noteq> None \<and> ooMessages s d = None"
    "\<forall>r m d T. e = Job_Phase2Validation r m d T (Some CC_COMMIT) \<longrightarrow> accepted H s d"
  shows "advance pe REG {} {} H s (emit e s)"
proof -
  note i = handler_invD [OF assms(1)]
  have "votes (emit e s) = votes s" using assms(2) by (cases e) simp_all
  moreover have "known_txns REG H (emit e s)" using i(2) assms(3) by (simp add: known_txns_def ball_Un)
  moreover have "lifecycle (emit e s)" using i(3) assms(4) by (simp add: lifecycle_def undecided_def pending_def) blast
  ultimately show ?thesis using assms(5) by (intro advance_life(2) [OF assms(1)] vote_change_votes) auto
qed

lemma advance_keep_message:
  assumes "handler_inv pe REG H s" "x = None \<or> x = Some m \<and> known_oo d m \<and> undecided s d \<and> ongoing s d = None"
  shows "advance pe REG {} {} H s (s\<lparr>ooMessages := (ooMessages s)(d := x)\<rparr>)"
proof -
  note i = handler_invD [OF assms(1)]
  let ?s = "s\<lparr>ooMessages := (ooMessages s)(d := x)\<rparr>"
  have "known_txns REG H ?s" using i(2) assms(2) by (auto simp: known_txns_def)
  moreover have "undecided ?s y = undecided s y" "pending ?s y = pending s y" for y by (simp_all add: undecided_def pending_def)
  then have "lifecycle ?s" using i(3) assms(2) by (auto simp: lifecycle_def)
  ultimately show ?thesis by (intro advance_life(2) [OF assms(1)] vote_change_votes) auto
qed

text \<open>Cleaning up again after a transaction has been decided.\<close>

lemma advance_Clean:
  assumes "handler_inv pe REG H s" "\<not> undecided s d" "Clean pe d False False s = Some s'"
  shows "advance pe REG {} {} H s s'"
proof -
  note i = handler_invD [OF assms(1)] and e = Clean_ends [OF assms(3)] and p = Clean_prepared [OF assms(3)]
  have np: "prepared s d = None" using i(3) assms(2) by (cases "prepared s d") (simp_all add: lifecycle_def)
  have core: "cc_core s' = cc_core s" using Clean_core [OF assms(3)] np by (simp add: clean_prepared_def)
  have kt: "known_txns REG H s'" by (rule known_txns_ends [OF i(2) e(1)]) blast
  have u: "undecided s' x = undecided s x" for x using e(2,3) by (simp add: undecided_def)
  have "lifecycle s'" unfolding lifecycle_def u
  proof (intro conjI allI impI)
    fix x
    show "committed s' x \<noteq> None \<Longrightarrow> x \<notin> aborted s'" using i(3) e(2,3) by (simp add: lifecycle_def)
    show "prepared s' x \<noteq> None \<Longrightarrow> undecided s x" using i(3) p np by (auto simp: lifecycle_def split: if_splits)
    assume "pending s' x"
    then have "pending s x" using endsD(6) [OF e(1)] by simp
    then have o: "ooMessages s x = None" "(ongoing s x \<noteq> None) = undecided s x" using i(3) by (simp_all add: lifecycle_def)
    show "ooMessages s' x = None" using o(1) endsD(1) [OF e(1)] by simp
    show "(ongoing s' x \<noteq> None) = undecided s x" using o(2) endsD(5) [OF e(1), of x] assms(2) by (cases "x = d") auto
  qed
  then show ?thesis using endsD(7) [OF e(1)] by (intro advance_life(2) [OF assms(1) core endsD(4) [OF e(1)] e(2,3) kt]) blast+
qed

section \<open>Writebacks\<close>

text \<open>
  The evidence for a commit that a replica has when it decides or logs: a certificate that passes, in which
  the replica counts its own vote only when it has cast it.
\<close>

definition own_vote :: "server \<Rightarrow> string \<Rightarrow> bool" where
  "own_vote s d \<longleftrightarrow> d \<in> favoured s \<or> (\<exists>r m T. Job_Phase2Validation r m d T (Some CC_COMMIT) \<in> set (effects s))"

definition p1_evidence :: "handler_env \<Rightarrow> params \<Rightarrow> (string \<rightharpoonup> Transaction) \<Rightarrow> server \<Rightarrow> string \<Rightarrow> bool" where
  "p1_evidence en pe REG s d \<longleftrightarrow> (\<exists>T fast r gs. known REG d (txn_core T) \<and> (r = Some CC_COMMIT \<longrightarrow> own_vote s d) \<and>
     ValidateP1Replies (he_crypto en) (he_config en) (map_option (\<lambda>_. server_id pe) r)
       (case r of None \<Rightarrow> CC_ABORT | Some r \<Rightarrow> r) COMMIT fast T d gs)"

definition p2_evidence :: "handler_env \<Rightarrow> params \<Rightarrow> (string \<rightharpoonup> Transaction) \<Rightarrow> server \<Rightarrow> string \<Rightarrow> bool" where
  "p2_evidence en pe REG s d \<longleftrightarrow> (\<exists>T r view gs. known REG d (txn_core T) \<and> (r = Some COMMIT \<longrightarrow> LookupP2Decision d s = Some COMMIT) \<and>
     ValidateP2Replies (he_crypto en) (he_config en) (map_option (\<lambda>_. server_id pe) r)
       (case r of None \<Rightarrow> ABORT | Some r \<Rightarrow> r) COMMIT view T d gs = Some True)"

definition evidence :: "handler_env \<Rightarrow> params \<Rightarrow> (string \<rightharpoonup> Transaction) \<Rightarrow> server \<Rightarrow> string set" where
  "evidence en pe REG s = {d. p1_evidence en pe REG s d \<or> p2_evidence en pe REG s d}"

lemma LookupP1Decision_own_vote: "LookupP1Decision d s = Some CC_COMMIT \<Longrightarrow> own_vote s d"
  by (auto simp: LookupP1Decision_def own_vote_def favoured_def vote_of_def split: option.splits if_splits)

lemma own_vote_accepted: "handler_inv pe REG H s \<Longrightarrow> own_vote s d \<Longrightarrow> accepted H s d"
  using handler_invD(4) unfolding own_vote_def backed_def by blast

lemma evidence_cong: "votes s' = votes s \<Longrightarrow> effects s' = effects s \<Longrightarrow> evidence en pe REG s' = evidence en pe REG s"
  by (simp add: evidence_def p1_evidence_def p2_evidence_def own_vote_def votes_def fun_eq_iff)

lemma validate_writeback_evidence:
  assumes "validate_writeback en pe msg d T s = Some (Some True)" "wb_decision msg = COMMIT" "signedMessages pe"
    "known REG d (txn_core T)"
  shows "d \<in> evidence en pe REG s"
proof (cases "wb_proof msg")
  case (WB_p1_sigs gs)
  then have "ValidateP1Replies (he_crypto en) (he_config en) (map_option (\<lambda>_. server_id pe) (LookupP1Decision d s))
      (case LookupP1Decision d s of None \<Rightarrow> CC_ABORT | Some r \<Rightarrow> r) COMMIT True T d gs"
    using assms(1-3) by (simp add: validate_writeback_def Let_def)
  then have "p1_evidence en pe REG s d" using assms(4) LookupP1Decision_own_vote unfolding p1_evidence_def by blast
  then show ?thesis by (simp add: evidence_def)
next
  case (WB_p2_sigs gs)
  then obtain view where "ValidateP2Replies (he_crypto en) (he_config en) (map_option (\<lambda>_. server_id pe) (LookupP2Decision d s))
      (case LookupP2Decision d s of None \<Rightarrow> ABORT | Some r \<Rightarrow> r) COMMIT view T d gs = Some True"
    using assms(1-3) by (auto simp: validate_writeback_def Let_def split: option.splits)
  then have "p2_evidence en pe REG s d" using assms(4) unfolding p2_evidence_def by blast
  then show ?thesis by (simp add: evidence_def)
qed (use assms in \<open>simp_all add: validate_writeback_def Let_def\<close>)

lemma advance_WritebackCallback:
  assumes "handler_inv pe REG H s" "registry REG" "deployed pe" "known REG d (txn_core T)"
    "WritebackCallback pe msg d T valid s = Some s'" "valid \<longrightarrow> wb_decision msg = COMMIT \<longrightarrow> d \<in> C"
  shows "advance pe REG C {} H s s'"
proof (cases "undecided s d")
  case False
  then have "s' = s" using assms(5) by (auto simp: WritebackCallback_def undecided_def split: if_splits)
  then show ?thesis using advance_refl [OF assms(1)] by simp
next
  case True
  have v: "valid" using assms(5) by (simp add: WritebackCallback_def split: if_splits)
  have cm: "client_merges pe" using assms(3) by (simp add: deployed_def)
  show ?thesis
  proof (cases "wb_decision msg")
    case COMMIT
    then obtain gs p1 view where "Commit_txn pe d T gs p1 view s = Some s'"
      using assms(5) True v by (auto simp: WritebackCallback_def undecided_def split: wb_oneof.splits)
    then show ?thesis using advance_commit [OF assms(1,2) cm assms(4) True] assms(6) v COMMIT by blast
  next
    case ABORT
    then obtain w where a: "Abort pe d T (s\<lparr>writebackMessages := w\<rparr>) = Some s'"
      using assms(5) True v by (auto simp: WritebackCallback_def undecided_def)
    have q: "quiet {} s (s\<lparr>writebackMessages := w\<rparr>)" by (simp add: quiet_calms calms_def)
    have "advance pe REG {} {} H s s'"
    proof (rule advance_trans)
      show "advance pe REG {} {} H s (s\<lparr>writebackMessages := w\<rparr>)" by (rule advance_quiet [OF assms(1) q]) simp
      show "advance pe REG {} {} H1 (s\<lparr>writebackMessages := w\<rparr>) s'" if "handler_inv pe REG H1 (s\<lparr>writebackMessages := w\<rparr>)" for H1
        by (rule advance_Abort [OF that a]) (use True in \<open>simp add: undecided_def\<close>)
    qed
    then show ?thesis by (rule advance_mono) simp_all
  qed
qed

lemma advance_ManageWritebackValidation:
  assumes "handler_inv pe REG H s" "registry REG" "deployed pe" "known REG d (txn_core T)"
    "ManageWritebackValidation en pe msg d T s = Some s'" "evidence en pe REG s = C"
  shows "advance pe REG C {} H s s'"
proof -
  have dp: "validateProofs pe" "signedMessages pe" using assms(3) by (simp_all add: deployed_def)
  show ?thesis
  proof (cases "(multiThreading pe \<or> he_batchVerification en) \<and> validates_later pe msg")
    case True
    then have "s' = emit (Job_WritebackValidation msg d T) s" using assms(5) dp by (auto simp: ManageWritebackValidation_def)
    then have "advance pe REG {} {} H s s'" using advance_emit_job [OF assms(1)] assms(4) by (simp add: known_job_def)
    then show ?thesis by (rule advance_mono) simp_all
  next
    case False
    then consider "s' = s"
      | valid where "validate_writeback en pe msg d T s = Some (Some valid)" "WritebackCallback pe msg d T valid s = Some s'"
      using assms(5) dp by (auto simp: ManageWritebackValidation_def split: option.splits)
    then show ?thesis
    proof cases
      case 1
      then show ?thesis using advance_refl [OF assms(1)] by simp
    next
      case 2
      then show ?thesis
        using validate_writeback_evidence [OF _ _ dp(2) assms(4)] assms(6) by (intro advance_WritebackCallback [OF assms(1-4)]) auto
    qed
  qed
qed

lemma advance_registered:
  assumes "handler_inv pe REG H s" "RegisterTxTS pe d T s = Some s1"
    "\<And>H1. handler_inv pe REG H1 s1 \<Longrightarrow> evidence en pe REG s1 = evidence en pe REG s \<Longrightarrow> undecided s1 = undecided s \<Longrightarrow>
       advance pe REG C L H1 s1 s'"
  shows "advance pe REG C L H s s'"
proof -
  obtain x where x: "s1 = s\<lparr>ts_to_tx := x\<rparr>" using RegisterTxTS_ts [OF assms(2)] by blast
  have "votes s1 = votes s" "effects s1 = effects s" by (simp_all add: x)
  note ev = evidence_cong [OF this, of en pe REG]
  have un: "undecided s1 = undecided s" by (intro ext) (simp add: x undecided_def)
  show ?thesis
  proof (rule advance_trans)
    show "advance pe REG C L H s s1" by (rule advance_quiet [OF assms(1) quiet_sends(5) [OF assms(2), of "{}"]]) simp
    show "advance pe REG C L H1 s1 s'" if "handler_inv pe REG H1 s1" for H1
      by (rule assms(3) [OF that ev un])
  qed
qed

definition names :: "params \<Rightarrow> (string \<rightharpoonup> Transaction) \<Rightarrow> Transaction \<Rightarrow> bool" where
  "names pe REG T \<longleftrightarrow> known REG (TransactionDigest (blake3 pe) T (hashDigest pe)) (txn_core T)"

lemma advance_finished_writeback:
  "handler_inv pe REG H s \<Longrightarrow> \<not> undecided s d \<Longrightarrow> finished_writeback pe d s = Some s' \<Longrightarrow> advance pe REG C L H s s'"
  by (auto simp: finished_writeback_def advance_refl split: if_splits intro: advance_mono [OF advance_Clean])

lemma advance_HandleWriteback:
  assumes inv: "handler_inv pe REG H s" and en: "registry REG" "deployed pe" "\<forall>T. wb_txn msg = Some T \<longrightarrow> names pe REG T"
    and h: "HandleWriteback en pe msg s = Some s'"
  shows "advance pe REG (evidence en pe REG s) {} H s s'"
proof (cases "wb_txn_digest msg")
  case None
  obtain T where T: "wb_txn msg = Some T" using h None by (cases "wb_txn msg") (simp_all add: HandleWriteback_def)
  let ?d = "TransactionDigest (blake3 pe) T (hashDigest pe)"
  obtain s1 where r: "RegisterTxTS pe ?d T s = Some s1"
    and d: "(if committed s1 ?d \<noteq> None \<or> ?d \<in> aborted s1 then finished_writeback pe ?d s1
        else ManageWritebackValidation en pe (msg\<lparr>wb_txn := None\<rparr>) ?d T s1) = Some s'"
    using h None T by (simp add: HandleWriteback_def bind_eq_Some_conv Let_def) blast
  show ?thesis
  proof (rule advance_registered [where en = en, OF inv r])
    fix H1 assume a: "handler_inv pe REG H1 s1" "evidence en pe REG s1 = evidence en pe REG s"
    have n: "names pe REG T" using en(3) T by blast
    show "advance pe REG (evidence en pe REG s) {} H1 s1 s'"
    proof (cases "undecided s1 ?d")
      case True
      then have "ManageWritebackValidation en pe (msg\<lparr>wb_txn := None\<rparr>) ?d T s1 = Some s'" using d by (simp add: undecided_def)
      then show ?thesis by (rule advance_ManageWritebackValidation [OF a(1) en(1,2) n [unfolded names_def] _ a(2)])
    next
      case False
      then have "finished_writeback pe ?d s1 = Some s'" using d by (auto simp: undecided_def)
      then show ?thesis by (rule advance_finished_writeback [OF a(1) False])
    qed
  qed
next
  case (Some d)
  note hw = h [unfolded HandleWriteback_def Some option.case]
  consider (over) "\<not> undecided s d" "finished_writeback pe d s = Some s'"
    | (current) og where "ongoing s d = Some og" "ManageWritebackValidation en pe msg d (og_txn og) s = Some s'"
    | (drop) "s' = s"
    | (attached) T s1 where "wb_txn msg = Some T" "d = TransactionDigest (blake3 pe) T (hashDigest pe)" "RegisterTxTS pe d T s = Some s1"
        "ManageWritebackValidation en pe (msg\<lparr>wb_txn := None\<rparr>) d T s1 = Some s'"
    | (early) "undecided s d" "ongoing s d = None" "wb_txn msg = None" "s' = s\<lparr>ooMessages := (ooMessages s)(d \<mapsto> OO_wb msg)\<rparr>"
  proof (cases "undecided s d")
    case un: True
    show ?thesis
    proof (cases "ongoing s d")
      case (Some og)
      then show ?thesis using current hw un by (simp add: undecided_def)
    next
      case no: None
      show ?thesis
      proof (cases "wb_txn msg")
        case (Some T)
        then show ?thesis using drop attached hw un no by (auto simp: undecided_def bind_eq_Some_conv split: if_splits)
      next
        case None
        then show ?thesis using drop early hw un no by (auto simp: undecided_def split: option.splits ooMsg.splits)
      qed
    qed
  next
    case False
    then show ?thesis using over hw by (auto simp: undecided_def)
  qed
  then show ?thesis
  proof cases
    case over
    then show ?thesis using advance_finished_writeback [OF inv] by blast
  next
    case current
    from known_txnsD(1) [OF handler_invD(2) [OF inv] this(1)] show ?thesis
      by (rule advance_ManageWritebackValidation [OF inv en(1,2) _ current(2) refl])
  next
    case drop
    then show ?thesis using advance_refl [OF inv] by simp
  next
    case attached
    show ?thesis
    proof (rule advance_registered [where en = en, OF inv attached(3)])
      fix H1 assume a: "handler_inv pe REG H1 s1" "evidence en pe REG s1 = evidence en pe REG s"
      have "known REG d (txn_core T)" using en(3) attached(1,2) unfolding names_def by blast
      then show "advance pe REG (evidence en pe REG s) {} H1 s1 s'"
        by (rule advance_ManageWritebackValidation [OF a(1) en(1,2) _ attached(4) a(2)])
    qed
  next
    case early
    have "advance pe REG {} {} H s s'" unfolding early(4)
      by (rule advance_keep_message [OF inv, of _ "OO_wb msg"]) (use early Some in \<open>simp add: known_oo_def\<close>)
    then show ?thesis by (rule advance_mono) simp_all
  qed
qed

section \<open>Logging a decision\<close>

lemma advance_log:
  assumes "handler_inv pe REG H s" "life s' = life s" "cc_core s' = cc_core s" "favoured s' \<subseteq> favoured s"
    "(\<lambda>x. LookupP2Decision x s) \<subseteq>\<^sub>m (\<lambda>x. LookupP2Decision x s')"
    "{x. LookupP2Decision x s' = Some COMMIT} \<subseteq> {x. LookupP2Decision x s = Some COMMIT} \<union> L"
    "\<forall>x \<in> commit_logs s'. x \<in> commit_logs s \<or> LookupP2Decision x s' = Some COMMIT \<or> committed s x \<noteq> None"
  shows "advance pe REG C L H s s'"
proof -
  note i = handler_invD [OF assms(1)] and l = life_eqs [OF assms(2)]
  have keep: "LookupP2Decision x s' = Some v" if "LookupP2Decision x s = Some v" for x v
    using assms(5) that by (force simp: map_le_def)
  have "backed H s'" unfolding backed_def l(4,11)
  proof (intro conjI ballI allI impI)
    fix d assume "d \<in> favoured s'"
    then show "accepted H s d" using i(4) assms(4) by (auto simp: backed_def)
  next
    fix d assume "d \<in> commit_logs s'"
    then show "LookupP2Decision d s' = Some COMMIT \<or> committed s' d \<noteq> None"
      using i(4) assms(7) keep [of d COMMIT] l(7) unfolding backed_def by auto
  next
    fix r m d T assume "Job_Phase2Validation r m d T (Some CC_COMMIT) \<in> set (effects s)"
    then show "accepted H s d" using i(4) unfolding backed_def by blast
  qed
  moreover have "lifecycle s'" using i(3) unfolding lifecycle_def l(1,2,5-8) cc_coreD(3) [OF assms(3)] .
  ultimately have "handler_inv pe REG H s'"
    using i(2) l(3) replica_run.other [OF i(1) assms(3)] by (simp add: handler_inv_def)
  moreover have "progress C L H s H s'" using assms(5,6) unfolding progress_def l(7,8,10) by blast
  ultimately show ?thesis unfolding advance_def by blast
qed

text \<open>An answer with a decision that is logged now or was before, or that a commit has settled.\<close>

lemma advance_answer:
  assumes "handler_inv pe REG H s" "p2_hasP2 p" "p2_p2Decision p = Some v" "LookupP2Decision d s = None \<or> LookupP2Decision d s = Some v"
    "LookupP2Decision d s = None \<longrightarrow> v = COMMIT \<longrightarrow> d \<in> L"
  shows "advance pe REG C L H s (SendPhase2Reply r (p2_reply pe msg d v w) (s\<lparr>p2MetaDatas := (p2MetaDatas s)(d \<mapsto> p)\<rparr>))"
    (is "advance pe REG C L H s ?s")
proof -
  have lk: "LookupP2Decision x ?s = (if x = d then Some v else LookupP2Decision x s)" for x
    using assms(2,3) by (simp add: SendPhase2Reply_def LookupP2Decision_def emit_def)
  have lf: "life ?s = life s" by (simp add: SendPhase2Reply_def)
  have core: "cc_core ?s = cc_core s" by (simp add: SendPhase2Reply_def)
  have fav: "favoured ?s \<subseteq> favoured s" 
    by (simp add: SendPhase2Reply_def favoured_def vote_of_def commit_votes_def map_filter_def) (auto simp: emit_def)
  have log: "\<forall>x \<in> commit_logs ?s. x \<in> commit_logs s \<or> LookupP2Decision x ?s = Some COMMIT \<or> committed s x \<noteq> None"
    unfolding lk by (auto simp: SendPhase2Reply_def commit_logs_def p2_vote_in_def p2_reply_def map_filter_def split: if_splits)
  show ?thesis
    by (rule advance_log [OF assms(1) lf core fav _ _ log]) (use assms(4,5) in \<open>auto simp: lk map_le_def split: if_splits\<close>)
qed

lemma advance_HandlePhase2CB:
  assumes "handler_inv pe REG H s" "HandlePhase2CB pe r msg d valid s = Some s'" "\<not> ph2_simulated_equiv msg"
    "valid \<longrightarrow> ph2_decision msg = COMMIT \<longrightarrow> d \<in> L"
  shows "advance pe REG {} L H s s'"
proof -
  let ?p = "p2_meta s d"
  have v: valid using assms(2,3) by (auto simp: HandlePhase2CB_def split: if_splits)
  obtain x where x: "(if p2_hasP2 ?p then p2_p2Decision ?p else Some (ph2_decision msg)) = Some x"
    and s': "s' = SendPhase2Reply r (p2_reply pe msg d x (if validateProofs pe then Some (p2_decision_view ?p) else None))
      (s\<lparr>p2MetaDatas := (p2MetaDatas s)(d \<mapsto> ?p\<lparr>p2_hasP2 := True, p2_p2Decision := Some x, p2_original := Some (ph2_req_id msg, r)\<rparr>)\<rparr>)"
    using assms(2) v by (auto simp: HandlePhase2CB_def Let_def bind_eq_Some_conv)
  have lk: "LookupP2Decision d s = (if p2_hasP2 ?p then p2_p2Decision ?p else None)"
    by (simp add: LookupP2Decision_def p2_meta_def new_P2MetaData_def split: option.splits)
  show ?thesis unfolding s'
    by (rule advance_answer [OF assms(1)]) (use x assms(4) v in \<open>auto simp: lk split: if_splits\<close>)
qed

definition validate_p2 :: "handler_env \<Rightarrow> params \<Rightarrow> Phase2 \<Rightarrow> string \<Rightarrow> Transaction \<Rightarrow> CCResult option \<Rightarrow> bool" where
  "validate_p2 en pe msg d T r = ValidateP1Replies (he_crypto en) (he_config en) (map_option (\<lambda>_. server_id pe) r)
     (case r of None \<Rightarrow> CC_ABORT | Some r \<Rightarrow> r) (ph2_decision msg) False T d
     (case ph2_grouped_sigs msg of None \<Rightarrow> [] | Some gs \<Rightarrow> gs)"

lemma advance_ManagePhase2Validation:
  assumes "handler_inv pe REG H s" "known REG d (txn_core T)" "\<not> ph2_simulated_equiv msg" "r = LookupP1Decision d s"
    "ManagePhase2Validation en pe rem msg d T r s = Some s'"
  shows "advance pe REG {} {} H s s'"
proof (cases "multiThreading pe \<or> he_batchVerification en")
  case True
  have "r = Some CC_COMMIT \<Longrightarrow> accepted H s d"
    using LookupP1Decision_own_vote [of d s] assms(4) own_vote_accepted [OF assms(1)] by simp
  then have "advance pe REG {} {} H s (emit (Job_Phase2Validation rem msg d T r) s)"
    using assms(2,3) by (intro advance_emit_job [OF assms(1)]) (auto simp: known_job_def)
  then show ?thesis using assms(5) True by (auto simp: ManagePhase2Validation_def)
next
  case False
  then have "s' = s" using assms(3,5) by (auto simp: ManagePhase2Validation_def HandlePhase2CB_def split: if_splits)
  then show ?thesis using advance_refl [OF assms(1)] by simp
qed

lemma advance_first_phase2:
  assumes inv: "handler_inv pe REG H s" and dep: "deployed pe" and un: "undecided s d" and sim: "\<not> ph2_simulated_equiv msg"
    and txn: "\<forall>T. ph2_txn msg = Some T \<longrightarrow> names pe REG T"
    and d: "case ph2_txn_digest msg of Some x \<Rightarrow> d = x | None \<Rightarrow> \<exists>T. ph2_txn msg = Some T \<and> d = TransactionDigest (blake3 pe) T (hashDigest pe)"
    and h: "first_phase2 en pe rem msg d s = Some s'"
  shows "advance pe REG {} {} H s s'"
proof -
  note m = advance_ManagePhase2Validation [OF _ _ sim]
  have dp: "validateProofs pe" "signedMessages pe" using dep by (simp_all add: deployed_def)
  note fp = h [unfolded first_phase2_def Let_def if_not_P [OF sim]]
  show ?thesis
  proof (cases "ph2_txn_digest msg")
    case None
    then obtain T where T: "ph2_txn msg = Some T" "d = TransactionDigest (blake3 pe) T (hashDigest pe)" using d by auto
    then have "ManagePhase2Validation en pe rem msg d T (LookupP1Decision d s) s = Some s'" using fp None dp by simp
    then show ?thesis using txn T m [OF inv _ refl] unfolding names_def by blast
  next
    case dig: (Some x)
    show ?thesis
    proof (cases "ongoing s d")
      case (Some og)
      then have "ManagePhase2Validation en pe rem msg d (og_txn og) (LookupP1Decision d s) s = Some s'" using fp dig dp by simp
      then show ?thesis using known_txnsD(1) [OF handler_invD(2) [OF inv] Some] m [OF inv _ refl] by blast
    next
      case no: None
      show ?thesis
      proof (cases "ph2_txn msg")
        case None
        have "s' = (if ooMessages s d = None then s\<lparr>ooMessages := (ooMessages s)(d \<mapsto> OO_p2 msg rem)\<rparr> else s)"
          using fp dig dp no None by simp
        moreover have "known_oo d (OO_p2 msg rem)" using dig d None sim by (simp add: known_oo_def)
        ultimately show ?thesis using advance_refl [OF inv] advance_keep_message [OF inv, of _ "OO_p2 msg rem" d] un no by auto
      next
        case T: (Some T)
        show ?thesis
        proof (cases "d = TransactionDigest (blake3 pe) T (hashDigest pe)")
          case True
          then obtain s1 where s1: "RegisterTxTS pe d T s = Some s1"
            "ManagePhase2Validation en pe rem msg d T (LookupP1Decision d s) s1 = Some s'"
            using fp dig dp no T by (auto simp: bind_eq_Some_conv)
          obtain x where x: "s1 = s\<lparr>ts_to_tx := x\<rparr>" using RegisterTxTS_ts [OF s1(1)] by blast
          have l: "LookupP1Decision d s = LookupP1Decision d s1" by (simp add: x LookupP1Decision_def)
          have k: "known REG d (txn_core T)" using txn T True unfolding names_def by blast
          show ?thesis by (rule advance_registered [OF inv s1(1)]) (rule m [OF _ k l s1(2)])
        qed (use fp dig dp no T advance_refl [OF inv] in simp)
      qed
    qed
  qed
qed

lemma quiet_p2_meta: "quiet D s (s\<lparr>p2MetaDatas := (p2MetaDatas s)(d \<mapsto> p2_meta s d)\<rparr>)"
  by (simp add: quiet_calms calms_def p2_meta_def)

lemma advance_HandlePhase2:
  assumes inv: "handler_inv pe REG H s" and dep: "deployed pe" and sim: "\<not> ph2_simulated_equiv msg"
    and txn: "\<forall>T. ph2_txn msg = Some T \<longrightarrow> names pe REG T" and h: "HandlePhase2 en pe rem msg s = Some s'"
  shows "advance pe REG {} {} H s s'"
proof (cases "ph2_txn msg = None \<and> ph2_txn_digest msg = None")
  case True
  then have "s' = s" using h dep by (simp add: HandlePhase2_def deployed_def)
  then show ?thesis using advance_refl [OF inv] by simp
next
  case False
  have dp: "validateProofs pe" using dep by (simp add: deployed_def)
  define rest where "rest = (\<lambda>d s0. let p = p2_meta s0 d; s1 = s0\<lparr>p2MetaDatas := (p2MetaDatas s0)(d \<mapsto> p)\<rparr> in
    if p2_hasP2 p then do {
      decision \<leftarrow> p2_p2Decision p;
      Some (SendPhase2Reply rem (p2_reply pe msg d decision (if validateProofs pe then Some (p2_decision_view p) else None))
        (s1\<lparr>p2MetaDatas := (p2MetaDatas s1)(d \<mapsto> p\<lparr>p2_original := Some (ph2_req_id msg, rem)\<rparr>)\<rparr>)) }
    else if committed s1 d \<noteq> None then Some (SendPhase2Reply rem (p2_reply pe msg d COMMIT (Some 0)) s1)
    else if d \<in> aborted s1 then Some (SendPhase2Reply rem (p2_reply pe msg d ABORT (Some 0)) s1)
    else first_phase2 en pe rem msg d s1)"
  have at: "advance pe REG {} {} H0 s0 s'" if i: "handler_inv pe REG H0 s0" and r: "rest d s0 = Some s'"
    and d: "case ph2_txn_digest msg of Some x \<Rightarrow> d = x | None \<Rightarrow> \<exists>T. ph2_txn msg = Some T \<and> d = TransactionDigest (blake3 pe) T (hashDigest pe)"
    for H0 d s0
  proof -
    let ?p = "p2_meta s0 d" and ?s = "s0\<lparr>p2MetaDatas := (p2MetaDatas s0)(d \<mapsto> p2_meta s0 d)\<rparr>"
    have q: "advance pe REG {} {} H0 s0 ?s" by (rule advance_quiet [OF i quiet_p2_meta [of "{}"]]) simp
    show ?thesis
    proof (rule advance_trans [OF q])
      fix H1 assume i1: "handler_inv pe REG H1 ?s"
      consider (logged) v w where "p2_hasP2 ?p" "p2_p2Decision ?p = Some v" "s' = SendPhase2Reply rem (p2_reply pe msg d v w)
            (?s\<lparr>p2MetaDatas := (p2MetaDatas ?s)(d \<mapsto> ?p\<lparr>p2_original := Some (ph2_req_id msg, rem)\<rparr>)\<rparr>)"
        | (settled) v where "v = COMMIT \<longrightarrow> committed s0 d \<noteq> None" "s' = SendPhase2Reply rem (p2_reply pe msg d v (Some 0)) ?s"
        | (first) "undecided ?s d" "first_phase2 en pe rem msg d ?s = Some s'"
        using r by (auto simp: rest_def Let_def bind_eq_Some_conv undecided_def split: if_splits)
      then show "advance pe REG {} {} H1 ?s s'"
      proof cases
        case logged
        show ?thesis unfolding logged(3) by (rule advance_answer [OF i1]) (use logged(1,2) in \<open>simp_all add: LookupP2Decision_def\<close>)
      next
        case settled
        have lk: "LookupP2Decision x s' = LookupP2Decision x ?s" for x
          by (simp add: settled(2) SendPhase2Reply_def LookupP2Decision_def emit_def)
        have "favoured s' \<subseteq> favoured ?s"
          by (simp add: settled(2) SendPhase2Reply_def favoured_def vote_of_def commit_votes_def map_filter_def) (auto simp: emit_def)
        moreover have "\<forall>x \<in> commit_logs s'. x \<in> commit_logs ?s \<or> LookupP2Decision x s' = Some COMMIT \<or> committed ?s x \<noteq> None"
          using settled(1) by (auto simp: settled(2) SendPhase2Reply_def commit_logs_def p2_vote_in_def p2_reply_def map_filter_def split: if_splits)
        moreover have "life s' = life ?s" "cc_core s' = cc_core ?s" by (simp_all add: settled(2) SendPhase2Reply_def)
        ultimately show ?thesis using lk by (intro advance_log [OF i1]) simp_all
      next
        case first
        show ?thesis by (rule advance_first_phase2 [OF i1 dep first(1) sim txn d first(2)])
      qed
    qed
  qed
  show ?thesis
  proof (cases "ph2_txn_digest msg")
    case (Some d)
    then have "HandlePhase2 en pe rem msg s = rest d s" using dp unfolding HandlePhase2_def phase2_digest_def rest_def by simp
    then have "rest d s = Some s'" using h by simp
    then show ?thesis using at [OF inv] Some by simp
  next
    case None
    then obtain T where T: "ph2_txn msg = Some T" using False by auto
    let ?d = "TransactionDigest (blake3 pe) T (hashDigest pe)"
    obtain s1 where s1: "RegisterTxTS pe ?d T s = Some s1" "rest ?d s1 = Some s'"
      using h dp None T by (auto simp: HandlePhase2_def phase2_digest_def rest_def Let_def bind_eq_Some_conv)
    show ?thesis by (rule advance_registered [OF inv s1(1)]) (rule at [OF _ s1(2)], use None T in simp_all)
  qed
qed

section \<open>Proposals\<close>

lemma advance_TryPrepare:
  assumes inv: "handler_inv pe REG H s" and en: "registry REG" "deployed pe"
    and og: "ongoing s d = Some og" "og_txn og = T" "undecided s d" "ooMessages s d = None"
    and h: "TryPrepare pe now q rem T d g f s = Some s'"
  shows "advance pe REG {} {} H s s'"
proof -
  let ?s = "s\<lparr>p2MetaDatas := (p2MetaDatas s)(d \<mapsto> p2_meta s d)\<rparr>"
  have q: "advance pe REG {} {} H s ?s" by (rule advance_quiet [OF inv quiet_p2_meta [of "{}"]]) simp
  have o: "ongoing ?s d = Some og" "undecided ?s d" "ooMessages ?s d = None" using og by (simp_all add: undecided_def)
  show ?thesis
  proof (rule advance_trans [OF q])
    fix H1 assume i1: "handler_inv pe REG H1 ?s"
    show "advance pe REG {} {} H1 ?s s'"
    proof (cases "\<not> parallel_CCC pe \<or> \<not> mainThreadDispatching pe")
      case True
      then have "check_and_vote pe now q rem T d g f ?s = Some s'" using h by (simp add: TryPrepare_def Let_def)
      then show ?thesis by (rule advance_check_and_vote [OF i1 en o(1) og(2) o(2)])
    next
      case False
      then have "s' = emit (Job_TryPrepare q rem d g f) ?s" using h by (simp add: TryPrepare_def Let_def)
      then show ?thesis using advance_emit_job [OF i1] o by (simp add: known_job_def)
    qed
  qed
qed

lemma CheckProposalValidity_quiet:
  assumes "CheckProposalValidity en pe smsg T d s = Some (valid, s')"
  shows "quiet {} s s'" "ongoing s' = ongoing s" "ooMessages s' = ooMessages s"
proof -
  have "p1_result (p1_meta s d) = vote_of s d" by (simp add: p1_meta_def vote_of_def new_P1MetaData_def split: option.splits)
  then have "votes (s\<lparr>p1MetaData := (p1MetaData s)(d \<mapsto> (p1_meta s d)\<lparr>p1_signed_txn := smsg\<rparr>)\<rparr>) = votes s" by (intro votes_p1) simp
  moreover have "s' = s \<or> s' = s\<lparr>p1MetaData := (p1MetaData s)(d \<mapsto> (p1_meta s d)\<lparr>p1_signed_txn := smsg\<rparr>)\<rparr>"
    using assms by (auto simp: CheckProposalValidity_def VerifyClientProposal_def Let_def split: if_splits)
  ultimately show "quiet {} s s'" "ongoing s' = ongoing s" "ooMessages s' = ooMessages s"
    by (auto simp: quiet_calms calms_def)
qed

lemma advance_proposal_checked:
  assumes inv: "handler_inv pe REG H s" and en: "registry REG" "deployed pe"
    and og: "ongoing s d = Some og" "og_txn og = T" "undecided s d" "ooMessages s d = None"
    and h: "proposal_checked en pe now q rem smsg T d g f s = Some s'"
  shows "advance pe REG {} {} H s s'"
proof -
  obtain valid s1 where v: "CheckProposalValidity en pe smsg T d s = Some (valid, s1)"
    "(if valid then TryPrepare pe now q rem T d g f s1 else RemoveOngoing d s1) = Some s'"
    using h by (auto simp: proposal_checked_def bind_eq_Some_conv)
  note c = CheckProposalValidity_quiet [OF v(1)]
  have o: "ongoing s1 d = Some og" "ooMessages s1 d = None" "undecided s1 d"
    using og c(2,3) life_eqs(1) [OF quiet_eqs(1) [OF c(1)]] by simp_all
  have t: "TryPrepare pe now q rem T d g f s1 = Some s'" using v(2) o(1) by (simp add: RemoveOngoing_def split: if_splits)
  have "advance pe REG {} {} H s s1" by (rule advance_quiet [OF inv c(1)]) simp
  then show ?thesis by (rule advance_trans) (rule advance_TryPrepare [OF _ en o(1) og(2) o(3,2) t])
qed

lemma known_result_quiet:
  assumes "known_result pe rem q g T d s = Some (a, s')"
  shows "quiet (favoured s) s s' \<and> (a = P1_process \<longrightarrow> s' = s \<and> undecided s d) \<and>
    (\<forall>r cf. a = P1_reply r cf \<longrightarrow> r \<noteq> CC_WAIT \<longrightarrow> s' = s \<and> (in_favour r d \<subseteq> favoured s \<or> committed s d \<noteq> None))"
proof (cases "p1_hasP1 (p1_meta s d)")
  case False
  then show ?thesis using assms
    by (auto simp: known_result_def Let_def undecided_def in_favour_def quiet_calms split: if_splits)
next
  case has: True
  have v: "p1_result (p1_meta s d) = vote_of s d" by (simp add: p1_meta_def vote_of_def new_P1MetaData_def split: option.splits)
  show ?thesis
  proof (cases g)
    case True
    then show ?thesis using assms has by (auto simp: known_result_def Let_def quiet_calms in_favour_def)
  next
    case False
    then obtain r where r: "vote_of s d = Some r" using assms has v by (auto simp: known_result_def Let_def bind_eq_Some_conv)
    have fav: "in_favour r d \<subseteq> favoured s" using r by (auto simp: in_favour_def favoured_def)
    show ?thesis
    proof (cases "r = CC_WAIT")
      case True
      let ?s = "s\<lparr>p1MetaData := (p1MetaData s)(d \<mapsto> (p1_meta s d)\<lparr>p1_original := Some rem, p1_reqId := q\<rparr>)\<rparr>"
      obtain b where m: "ManageDependencies pe d T rem q False False ?s = Some (b, s')" "a = P1_reply CC_WAIT None"
        using assms has False v r True by (auto simp: known_result_def Let_def bind_eq_Some_conv)
      have "votes ?s = votes s" by (rule votes_p1) (use v in simp)
      then have q: "quiet (favoured s) s ?s" by (simp add: quiet_calms calms_def)
      have d: "d \<in> favoured s" using fav True by (simp add: in_favour_def)
      have "quiet (favoured s) ?s s'" by (rule quiet_mono [OF quiet_sends(4) [OF m(1)]]) (use d in simp)
      then show ?thesis using quiet_trans [OF q] m(2) d by (simp add: in_favour_def)
    next
      case ne: False
      then show ?thesis using assms has False v r fav
        by (auto simp: known_result_def Let_def quiet_calms split: if_splits)
    qed
  qed
qed

lemma advance_ProcessProposal:
  assumes inv: "handler_inv pe REG H s" and en: "registry REG" "deployed pe" and k: "known REG d (txn_core T)"
    and u: "undecided s d" "ooMessages s d = None" and h: "ProcessProposal en pe now q rem smsg T d g f s = Some s'"
  shows "advance pe REG {} {} H s s'"
proof -
  obtain s1 where s1: "AddOngoing pe d T s = Some s1" "proposal_checked en pe now q rem smsg T d g f s1 = Some s'"
    using h en(2) by (auto simp: ProcessProposal_def bind_eq_Some_conv deployed_def split: if_splits)
  note a = advance_AddOngoing [OF inv k _ s1(1)]
  have a': "handler_inv pe REG H s1" "advance pe REG {} {} H s s1" using a(1,2) u by simp_all
  obtain og where og: "ongoing s1 d = Some og" "og_txn og = T" using a(3) u by auto
  have "undecided s1 d" "ooMessages s1 d = None" using a(5,6,7) u by (simp_all add: undecided_def)
  then show ?thesis using advance_trans [OF a'(2)] advance_proposal_checked [OF _ en og _ _ s1(2)] by blast
qed

lemma advance_HandlePhase1:
  assumes inv: "handler_inv pe REG H s" and en: "registry REG" "deployed pe" and k: "names pe REG (proposed_txn en pe msg)"
    and h: "HandlePhase1 en pe now rem msg s = Some s'"
  shows "advance pe REG (evidence en pe REG s) {} H s s'"
proof -
  let ?d = "TransactionDigest (blake3 pe) (proposed_txn en pe msg) (hashDigest pe)"
  let ?T = "(proposed_txn en pe msg)\<lparr>txndigest := Some ?d\<rparr>"
  have kn: "known REG ?d (txn_core ?T)" using k by (simp add: names_def txn_core_def)
  note i = handler_invD [OF inv]
  note hp = h [unfolded HandlePhase1_def Let_def]
  show ?thesis
  proof (cases "ooMessages s ?d")
    case (Some oo)
    then obtain s1 s2 where s1: "AddOngoing pe ?d ?T s = Some s1"
      and s2: "(case oo of OO_p2 p2 r \<Rightarrow> HandlePhase2 en pe r p2 s1 | OO_wb wb \<Rightarrow> HandleWriteback en pe wb s1) = Some s2"
      and s': "s' = s2\<lparr>ooMessages := (ooMessages s2)(?d := None)\<rparr>"
      using hp by (auto simp: bind_eq_Some_conv)
    have np: "pending s ?d \<longrightarrow> undecided s ?d" using i(3) Some by (auto simp: lifecycle_def)
    note a = advance_AddOngoing [OF inv kn np s1]
    have ev: "evidence en pe REG s1 = evidence en pe REG s" by (rule evidence_cong [OF a(4,8)])
    have ko: "known_oo ?d oo" using known_txnsD(3) [OF i(2) Some] .
    have step: "advance pe REG (evidence en pe REG s) {} H1 s1 s2" if i1: "handler_inv pe REG H1 s1" for H1
    proof (cases oo)
      case (OO_wb wb)
      then show ?thesis using advance_HandleWriteback [OF i1 en _ s2 [unfolded OO_wb ooMsg.case]] ko ev by (simp add: known_oo_def)
    next
      case (OO_p2 p2 r)
      then have "advance pe REG {} {} H1 s1 s2"
        using advance_HandlePhase2 [OF i1 en(2) _ _ s2 [unfolded OO_p2 ooMsg.case]] ko by (simp add: known_oo_def)
      then show ?thesis by (rule advance_mono) simp_all
    qed
    have "advance pe REG (evidence en pe REG s) {} H s s2"
      by (rule advance_trans [OF advance_mono [OF a(2)]]) (use step in simp_all)
    then show ?thesis unfolding s'
      by (rule advance_trans) (rule advance_mono [OF advance_keep_message [of _ _ _ _ None]], simp_all)
  next
    case None
    then obtain ans s1 where r: "known_result pe rem (ph1_req_id msg) (ph1_replica_gossip msg) ?T ?d s = Some (ans, s1)"
      and c: "(case ans of P1_process \<Rightarrow> ProcessProposal en pe now (ph1_req_id msg) rem (ph1_signed_txn msg) ?T ?d (ph1_replica_gossip msg) False
            (if replicaGossip pe then ForwardPhase1 en pe ?T s1 else s1)
        | P1_reply result conflict \<Rightarrow> if result \<noteq> CC_WAIT \<and> result \<noteq> CC_IGNORE
            then SendPhase1Reply pe (ph1_req_id msg) result conflict ?d rem None s1 else Some s1) = Some s'"
      using hp by (auto simp: bind_eq_Some_conv)
    note q = known_result_quiet [OF r]
    have a: "advance pe REG {} {} H s s1" by (rule advance_quiet [OF inv]) (use q in auto)
    have "advance pe REG {} {} H s s'"
    proof (cases ans)
      case P1_process
      let ?s = "if replicaGossip pe then ForwardPhase1 en pe ?T s else s"
      have "quiet {} s ?s" by (simp add: quiet_calms calms_def ForwardPhase1_def)
      then have f: "advance pe REG {} {} H s ?s" by (rule advance_quiet [OF inv]) simp
      have o: "undecided ?s ?d" "ooMessages ?s ?d = None" using q P1_process None by (simp_all add: ForwardPhase1_def undecided_def)
      have p: "ProcessProposal en pe now (ph1_req_id msg) rem (ph1_signed_txn msg) ?T ?d (ph1_replica_gossip msg) False ?s = Some s'"
        using c P1_process q by (auto split: if_splits)
      show ?thesis by (rule advance_trans [OF f]) (rule advance_ProcessProposal [OF _ en kn o p])
    next
      case (P1_reply x cf)
      show ?thesis
      proof (rule advance_trans [OF a])
        fix H1 assume i1: "handler_inv pe REG H1 s1"
        have "s' = s1 \<or> x \<noteq> CC_WAIT \<and> SendPhase1Reply pe (ph1_req_id msg) x cf ?d rem None s1 = Some s'" using c P1_reply by (auto split: if_splits)
        then show "advance pe REG {} {} H1 s1 s'"
        proof
          assume "s' = s1"
          then show ?thesis using advance_refl [OF i1] by simp
        next
          assume s: "x \<noteq> CC_WAIT \<and> SendPhase1Reply pe (ph1_req_id msg) x cf ?d rem None s1 = Some s'"
          then have "in_favour x ?d \<subseteq> favoured s1 \<or> (\<forall>y \<in> in_favour x ?d. accepted H1 s1 y)"
            using q P1_reply by (auto simp: in_favour_def accepted_def)
          then show ?thesis by (rule advance_quiet [OF i1 quiet_sends(1) [OF conjunct2 [OF s]]])
        qed
      qed
    qed
    then show ?thesis by (rule advance_mono) simp_all
  qed
qed

section \<open>The other events\<close>

lemma quiet_HandleRead:
  assumes "HandleRead pe now rem msg s = Some s'"
  shows "quiet {} s s'"
proof -
  have core: "cc_core (SetRTS pe ts key s) = cc_core s" for ts key by (simp add: SetRTS_def split: option.splits)
  have "s' = s \<or> (\<exists>m. s' = emit (Send_ReadReply rem m) s) \<or>
      (\<exists>m. s' = emit (Send_ReadReply rem m) (SetRTS pe (rd_timestamp msg) (rd_key msg) s))"
    using assms by (auto simp: HandleRead_def Let_def bind_eq_Some_conv split: if_splits option.splits OCCType.splits)
  then show ?thesis using core by (auto intro!: quiet_calms simp: calms_def)
qed

lemma quiet_HandleAbort:
  assumes "HandleAbort en pe msg s = Some s'"
  shows "quiet {} s s'"
proof -
  have one: "calm (abort_query pe q) \<and> (\<forall>s. cc_core (abort_query pe q s) = cc_core s)" for q
    by (auto simp: calm_def abort_query_def Let_def split: option.splits)
  have "calms s (fold (abort_query pe) qs s)" "cc_core (fold (abort_query pe) qs s) = cc_core s" for qs s
    using one calm_fold [of "abort_query pe" qs] core_fold [of "abort_query pe" qs s] by (simp_all add: calms_def calm_def)
  then have "calms s (fold (abort_query pe) qs (ClearRTS pe ks ts s)) \<and> cc_core (fold (abort_query pe) qs (ClearRTS pe ks ts s)) = cc_core s" for qs ks ts
    by (simp add: calms_def)
  then show ?thesis using assms by (auto simp: HandleAbort_def quiet_calms split: option.splits)
qed

lemma advance_grows:
  assumes inv: "handler_inv pe REG H s" and c: "calms s s'" and run: "replica_run pe H s'" and p: "prepared s' = prepared s"
  shows "advance pe REG C L H s s'"
proof -
  have v: "voting {} s s'" by (rule voting_calms [OF c])
  then have l: "life s' = life s" by (simp add: voting_def)
  note i = handler_invD [OF inv]
  have "handler_inv pe REG H s'"
    by (rule handler_inv_voting [OF inv v run]) (use i(2,3) p life_eqs(10) [OF l] in \<open>simp_all add: known_txns_def lifecycle_def\<close>)
  moreover have "progress C L H s H s'" using v unfolding progress_def life_eqs(7,8,10) [OF l] by (auto simp: voting_def vote_change_def)
  ultimately show ?thesis unfolding advance_def by blast
qed

lemma advance_table_job:
  assumes inv: "handler_inv pe REG H s" and h: "prepare_job pe T ts d s = Some s' \<or> commit_job pe T ts d cp s = Some s'"
  shows "advance pe REG C L H s s'"
  using h
proof
  assume p: "prepare_job pe T ts d s = Some s'"
  show ?thesis by (rule advance_grows [OF inv calms_jobs(1) [OF p] replica_run.prepare_job [OF handler_invD(1) [OF inv] p]
        growsD(1) [OF grows_jobs(1) [OF p]]])
next
  assume p: "commit_job pe T ts d cp s = Some s'"
  show ?thesis by (rule advance_grows [OF inv calms_jobs(2) [OF p] replica_run.commit_job [OF handler_invD(1) [OF inv] p]
        growsD(1) [OF grows_jobs(2) [OF p]]])
qed

lemma advance_Load:
  assumes inv: "handler_inv pe REG H s" and v: "value \<noteq> ''d''" and h: "Load key value ts s = Some s'"
  shows "advance pe REG C L H s s'"
proof (rule advance_grows [OF inv _ replica_run.load [OF handler_invD(1) [OF inv] v h]])
  show "calms s s'" "prepared s' = prepared s" using h by (auto simp: Load_def calms_def split: option.splits)
qed

lemma advance_try_prepare_job:
  assumes inv: "handler_inv pe REG H s" and en: "registry REG" "deployed pe" and p: "pending s d"
    and h: "try_prepare_job pe now q rem d g f s = Some s'"
  shows "advance pe REG {} {} H s s'"
proof (cases "ongoing s d")
  case (Some og)
  then have "undecided s d" using handler_invD(3) [OF inv] p by (auto simp: lifecycle_def)
  then show ?thesis using advance_check_and_vote [OF inv en Some refl] h Some by (simp add: try_prepare_job_def)
next
  case None
  then consider "committed s d \<noteq> None" "SendPhase1Reply pe q CC_COMMIT None d rem None s = Some s'"
    | "SendPhase1Reply pe q CC_ABSTAIN None d rem None s = Some s'"
    using h by (auto simp: try_prepare_job_def split: if_splits)
  then show ?thesis
  proof cases
    case 1
    then show ?thesis using advance_quiet [OF inv quiet_sends(1) [OF 1(2)]] by (simp add: in_favour_def accepted_def)
  next
    case 2
    then show ?thesis using advance_quiet [OF inv quiet_sends(1) [OF 2]] by (simp add: in_favour_def)
  qed
qed

section \<open>Runs\<close>

text \<open>
  What a run asks of an event: the transactions in it are those that clients have sent, and a validation job
  reports what the synchronous check of the certificate gives.
\<close>

definition job_ok :: "handler_env \<Rightarrow> params \<Rightarrow> server \<Rightarrow> bool \<Rightarrow> effect \<Rightarrow> bool" where
  "job_ok en pe s valid e =
     (case e of
        Job_Phase2Validation _ m d T r \<Rightarrow> valid \<longrightarrow> validate_p2 en pe m d T r
      | Job_WritebackValidation m d T \<Rightarrow> valid \<longrightarrow> validate_writeback en pe m d T s = Some (Some True)
      | _ \<Rightarrow> True)"

definition event_ok :: "handler_env \<Rightarrow> params \<Rightarrow> (string \<rightharpoonup> Transaction) \<Rightarrow> server \<Rightarrow> event \<Rightarrow> bool" where
  "event_ok en pe REG s ev =
     (case ev of
        E_Phase1 _ _ msg \<Rightarrow> names pe REG (proposed_txn en pe msg)
      | E_Phase2 _ msg \<Rightarrow> \<not> ph2_simulated_equiv msg \<and> pred_option (names pe REG) (ph2_txn msg)
      | E_Writeback msg \<Rightarrow> pred_option (names pe REG) (wb_txn msg)
      | E_Load _ value _ \<Rightarrow> value \<noteq> ''d''
      | E_Job _ valid e \<Rightarrow> job_ok en pe s valid e
      | _ \<Rightarrow> True)"

lemma advance_run_job:
  assumes inv: "handler_inv pe REG H s" and en: "registry REG" "deployed pe" and e: "e \<in> set (effects s)" "job_ok en pe s valid e"
    and h: "run_job en pe now valid e s = Some s'"
  shows "advance pe REG (evidence en pe REG s) {d. p1_evidence en pe REG s d} H s s'"
proof -
  note i = handler_invD [OF inv] and k = known_txnsD(2) [OF handler_invD(2) [OF inv] e(1)]
  show ?thesis
  proof (cases e)
    case (Job_TryPrepare q r d g f)
    have "pending s d" using e(1) Job_TryPrepare by (auto simp: pending_def)
    then have "advance pe REG {} {} H s s'" using advance_try_prepare_job [OF inv en] h Job_TryPrepare by (simp add: run_job_def)
    then show ?thesis by (rule advance_mono) simp_all
  next
    case (Job_Phase2Validation r m d T x)
    have kt: "known REG d (txn_core T)" "\<not> ph2_simulated_equiv m" using k Job_Phase2Validation by (simp_all add: known_job_def)
    have "p1_evidence en pe REG s d" if "valid" "ph2_decision m = COMMIT"
    proof -
      have "x = Some CC_COMMIT \<longrightarrow> own_vote s d" using e(1) Job_Phase2Validation unfolding own_vote_def by blast
      moreover have "validate_p2 en pe m d T x" using e(2) that Job_Phase2Validation by (simp add: job_ok_def)
      ultimately show ?thesis using kt(1) that(2) unfolding p1_evidence_def validate_p2_def by metis
    qed
    then have "advance pe REG {} {d. p1_evidence en pe REG s d} H s s'"
      using h Job_Phase2Validation kt(2) by (intro advance_HandlePhase2CB [OF inv]) (auto simp: run_job_def)
    then show ?thesis by (rule advance_mono) simp_all
  next
    case (Job_WritebackValidation m d T)
    have kt: "known REG d (txn_core T)" using k Job_WritebackValidation by (simp add: known_job_def)
    have "advance pe REG (evidence en pe REG s) {} H s s'"
      using h Job_WritebackValidation e(2) en(2) validate_writeback_evidence [OF _ _ _ kt]
      by (intro advance_WritebackCallback [OF inv en kt]) (auto simp: run_job_def job_ok_def deployed_def)
    then show ?thesis by (rule advance_mono) simp_all
  next
    case (Job_ApplyTableWrites T ts d cp commit)
    then show ?thesis using h by (intro advance_table_job [OF inv]) (auto simp: run_job_def split: if_splits)
  next
    case (Job_ProcessProposal q r sm T d g f)
    then show ?thesis using k by (simp add: known_job_def)
  qed (use h advance_refl [OF inv] in \<open>simp_all add: run_job_def\<close>)
qed

lemma advance_handle:
  assumes inv: "handler_inv pe REG H s" and en: "registry REG" "deployed pe" and ev: "event_ok en pe REG s ev"
    and h: "handle en pe ev s = Some s'"
  shows "advance pe REG (evidence en pe REG s) {d. p1_evidence en pe REG s d} H s s'"
proof -
  have m: "advance pe REG (evidence en pe REG s) {d. p1_evidence en pe REG s d} H s s'"
    if "advance pe REG (evidence en pe REG s) {} H s s' \<or> advance pe REG {} {} H s s'"
    using that by (auto intro: advance_mono)
  show ?thesis
  proof (cases ev)
    case (E_Read now r msg)
    then show ?thesis using h advance_quiet [OF inv quiet_HandleRead] by (simp add: handle_def)
  next
    case (E_Phase1 now r msg)
    then show ?thesis using h ev by (intro m disjI1 advance_HandlePhase1 [OF inv en]) (simp_all add: handle_def event_ok_def)
  next
    case (E_Phase2 r msg)
    then show ?thesis using h ev by (intro m disjI2 advance_HandlePhase2 [OF inv en(2)]) (auto simp: handle_def event_ok_def)
  next
    case (E_Writeback msg)
    then show ?thesis using h ev by (intro m disjI1 advance_HandleWriteback [OF inv en]) (auto simp: handle_def event_ok_def)
  next
    case (E_Abort msg)
    then show ?thesis using h advance_quiet [OF inv quiet_HandleAbort] by (simp add: handle_def)
  next
    case (E_Load key v ts)
    then show ?thesis using h ev by (intro advance_Load [OF inv]) (simp_all add: handle_def event_ok_def)
  next
    case (E_Job now valid e)
    then show ?thesis using h ev advance_run_job [OF inv en] advance_refl [OF inv] by (auto simp: handle_def event_ok_def split: if_splits)
  qed
qed

inductive handler_run :: "params \<Rightarrow> (string \<rightharpoonup> Transaction) \<Rightarrow> server \<Rightarrow> bool" for pe REG where
  start: "start_server pe = Some s \<Longrightarrow> handler_run pe REG s"
| event: "handler_run pe REG s \<Longrightarrow> event_ok en pe REG s ev \<Longrightarrow> handle en pe ev s = Some s' \<Longrightarrow> handler_run pe REG s'"

lemma start_server_inv:
  assumes "start_server pe = Some s"
  shows "handler_inv pe REG Map.empty s" "committed s d \<noteq> None \<Longrightarrow> d = [] \<or> d = genesis_digest pe" "LookupP2Decision d s = None"
proof -
  obtain c x y where s: "s = init_server\<lparr>committed := c, ts_to_tx := x, materialized := y\<rparr>"
    and c: "c = [[] \<mapsto> Some \<lparr>cp_txn = genesis_txn\<lparr>txndigest := Some (genesis_digest pe)\<rparr>, cp_sigs = No_sigs, cp_p2_view = None\<rparr>,
      genesis_digest pe \<mapsto> Some \<lparr>cp_txn = genesis_txn\<lparr>txndigest := Some (genesis_digest pe)\<rparr>, cp_sigs = No_sigs, cp_p2_view = None\<rparr>]"
    using assms by (auto simp: start_server_def Let_def bind_eq_Some_conv)
  have "replica_run pe Map.empty s" by (rule replica_run.other [OF replica_run.start]) (simp add: s)
  moreover have "favoured s = {}" "commit_logs s = {}"
    by (simp_all add: s init_server_def favoured_def vote_of_def commit_votes_def commit_logs_def map_filter_def)
  ultimately show "handler_inv pe REG Map.empty s"
    by (simp add: handler_inv_def known_txns_def lifecycle_def backed_def pending_def) (simp add: s init_server_def)
  show "committed s d \<noteq> None \<Longrightarrow> d = [] \<or> d = genesis_digest pe" by (simp add: s c split: if_splits)
  show "LookupP2Decision d s = None" by (simp add: s init_server_def LookupP2Decision_def)
qed

lemma handler_run_inv:
  assumes "handler_run pe REG s" "registry REG" "deployed pe"
  shows "\<exists>H. handler_inv pe REG H s"
  using assms(1)
proof induction
  case (start s)
  then show ?case using start_server_inv(1) by blast
next
  case (event s en ev s')
  then show ?case using advance_handle [OF _ assms(2,3)] unfolding advance_def by blast
qed

section \<open>The sample run\<close>

definition run_registry :: "string \<rightharpoonup> Transaction" where
  "run_registry = [run_d1 \<mapsto> run_T1, run_d2 \<mapsto> run_T2]"

lemma registry_run: "registry run_registry"
  by (auto simp: registry_def run_registry_def plain_txn_def mk_write_def mk_read_def)

lemma deployed_run: "deployed (run_params i)"
  by (simp add: deployed_def client_merges_def)

lemma events_run:
  "event_ok (run_env D) (run_params i) run_registry s (run_proposal run_T1)"
  "event_ok (run_env D) (run_params i) run_registry s (run_proposal run_T2)"
  "event_ok (run_env D) (run_params i) run_registry s (run_writeback d)"
  by (simp_all add: event_ok_def run_proposal_def run_writeback_def proposed_txn_def names_def known_def run_registry_def)

lemma sample_run:
  "handler_run (run_params i) run_registry run_s2"
  "i < 6 \<Longrightarrow> handler_run (run_params i) run_registry run_s3"
proof -
  show s2: "handler_run (run_params i) run_registry run_s2"
    by (rule handler_run.event [OF handler_run.event [OF handler_run.start [OF run_start] events_run(1) run_step1] events_run(2) run_step2])
  show "handler_run (run_params i) run_registry run_s3" if "i < 6"
    by (rule handler_run.event [OF s2 events_run(3) run_step3 [OF that]])
qed

lemma sample_votes [simp]:
  "commit_votes run_s2 = {run_d1, run_d2}" "commit_votes run_s3 = {run_d1, run_d2}" "commit_votes run_s4 = {run_d1, run_d2}"
  by (auto simp: commit_votes_def run_s2_def run_s3_def run_s4_def run_reply_def map_filter_def p1_vote_in_def)

lemma sample_committed [simp]:
  "committed run_s2 run_d1 = None" "committed run_s2 run_d2 = None" "committed run_s3 run_d1 = Some (Some (run_proof run_d1 run_W1))"
  "committed run_s3 run_d2 = None" "committed run_s4 run_d1 = Some (Some (run_proof run_d1 run_W1))"
  "committed run_s4 run_d2 = Some (Some (run_proof run_d2 run_W2))"
  "aborted run_s2 = {}" "aborted run_s3 = {}" "aborted run_s4 = {}"
  by (simp_all add: run_s2_def run_s3_def run_s4_def)

section \<open>What the handlers guarantee\<close>







end
