(* ===== verification/Group_Runs.thy ===== *)
theory Group_Runs
  imports Handler_Runs Quorums
begin

text \<open>
  A group of replicas that exchange certificates.  Every correct replica handles messages with the code of
  \<open>Handlers\<close>; the faulty ones are not constrained, except that signatures cannot be forged.  The theory shows
  that every commit at a correct replica rests on a quorum in which the correct members have checked the
  transaction, the invariant from which \<open>Spec2Isabelle\<close> derives that committed transactions are serialisable.
\<close>

section \<open>Runs of a group\<close>

text \<open>
  At every step only the signatures that exist by then verify: they belong to members of the group, and a
  signature of a correct replica on a vote or a logged decision for a commit exists only when the replica
  has sent it.
\<close>

definition unforgeable :: "crypto \<Rightarrow> u64 set \<Rightarrow> u64 set \<Rightarrow> (u64 \<Rightarrow> server) \<Rightarrow> bool" where
  "unforgeable cr R F S \<longleftrightarrow> (\<forall>i msg sg. Verify cr i msg sg \<longrightarrow> i \<in> R) \<and>
     (\<forall>i \<in> R - F. \<forall>d grp view sg. d \<noteq> [] \<longrightarrow>
        (Verify cr i (ser_cc cr (p1_msg d COMMIT grp)) sg \<longrightarrow> d \<in> commit_votes (S i)) \<and>
        (Verify cr i (ser_p2 cr \<lparr>p2d_decision = COMMIT, p2d_txn_digest = d, p2d_involved_group = grp, p2d_view = view\<rparr>) sg \<longrightarrow>
           d \<in> commit_logs (S i)))"

inductive group_run ::
  "(u64 \<Rightarrow> params) \<Rightarrow> (string \<rightharpoonup> Transaction) \<Rightarrow> Configuration \<Rightarrow> u64 set \<Rightarrow> u64 set \<Rightarrow> (u64 \<Rightarrow> server) \<Rightarrow> bool"
  for PE REG config R F where
  start: "\<forall>i \<in> R - F. start_server (PE i) = Some (S i) \<Longrightarrow> group_run PE REG config R F S"
| event: "group_run PE REG config R F S \<Longrightarrow> i \<in> R - F \<Longrightarrow> he_config en = config \<Longrightarrow> unforgeable (he_crypto en) R F S \<Longrightarrow>
    event_ok en (PE i) REG (S i) ev \<Longrightarrow> handle en (PE i) ev (S i) = Some s' \<Longrightarrow> group_run PE REG config R F (S(i := s'))"

text \<open>
  One group of at most 5f+1 members, at most f of which are faulty, whose correct members run with the same
  partition of the keys, each under its own id; the transactions are those of clients, and involve the group.
\<close>

definition group_ok ::
  "(u64 \<Rightarrow> params) \<Rightarrow> (string \<rightharpoonup> Transaction) \<Rightarrow> Configuration \<Rightarrow> u64 set \<Rightarrow> u64 set \<Rightarrow> int \<Rightarrow> (string \<Rightarrow> bool) \<Rightarrow> bool" where
  "group_ok PE REG config R F g own \<longleftrightarrow> cfg_ok config \<and> finite R \<and> card R \<le> unat (FastQuorumSize config) \<and> finite F \<and>
     card F \<le> cfg_faults config \<and> registry REG \<and> (\<forall>d T. REG d = Some T \<longrightarrow> g \<in> set (involved_groups T)) \<and>
     (\<forall>i \<in> R - F. deployed (PE i) \<and> server_id (PE i) = i \<and> IsKeyOwned (PE i) = own \<and> REG (genesis_digest (PE i)) = None)"

definition supported ::
  "Configuration \<Rightarrow> u64 set \<Rightarrow> u64 set \<Rightarrow> (u64 \<Rightarrow> string \<rightharpoonup> Transaction) \<Rightarrow> (u64 \<Rightarrow> server) \<Rightarrow> string \<Rightarrow> bool" where
  "supported config R F H S d \<longleftrightarrow> (\<exists>V \<subseteq> R. unat (SlowCommitQuorumSize config) \<le> card V \<and> (\<forall>i \<in> V - F. checked (H i) (S i) d))"

definition group_inv ::
  "(u64 \<Rightarrow> params) \<Rightarrow> (string \<rightharpoonup> Transaction) \<Rightarrow> Configuration \<Rightarrow> u64 set \<Rightarrow> u64 set \<Rightarrow> (u64 \<Rightarrow> string \<rightharpoonup> Transaction) \<Rightarrow>
   (u64 \<Rightarrow> server) \<Rightarrow> bool" where
  "group_inv PE REG config R F H S \<longleftrightarrow> (\<forall>i \<in> R - F. handler_inv (PE i) REG (H i) (S i) \<and>
     (\<forall>d. REG d \<noteq> None \<longrightarrow> committed (S i) d \<noteq> None \<or> LookupP2Decision d (S i) = Some COMMIT \<longrightarrow> supported config R F H S d))"

lemma group_invD:
  assumes "group_inv PE REG config R F H S" "i \<in> R" "i \<notin> F"
  shows "handler_inv (PE i) REG (H i) (S i)"
    "REG d \<noteq> None \<Longrightarrow> committed (S i) d \<noteq> None \<Longrightarrow> supported config R F H S d"
    "REG d \<noteq> None \<Longrightarrow> LookupP2Decision d (S i) = Some COMMIT \<Longrightarrow> supported config R F H S d"
  using assms unfolding group_inv_def by blast+

section \<open>From a certificate to a quorum of checks\<close>

text \<open>A certified vote is a check of a correct replica, unless the transaction is supported already.\<close>

lemma voter_checked:
  assumes inv: "group_inv PE REG config R F H S" and u: "unforgeable cr R F S" and d: "REG d \<noteq> None" "d \<noteq> []"
    and j: "j \<in> R - F" "own_vote (S j) d \<or> Verify cr j (ser_cc cr (p1_msg d COMMIT grp)) sg"
  shows "checked (H j) (S j) d \<or> supported config R F H S d"
proof -
  note i = group_invD [OF inv, of j]
  have "own_vote (S j) d" using j u d(2) unfolding unforgeable_def own_vote_def favoured_def by blast
  then have "accepted (H j) (S j) d" using own_vote_accepted i(1) j(1) by blast
  then show ?thesis using i(2) d(1) j(1) by (auto simp: accepted_def)
qed

lemma p1_evidence_supported:
  assumes inv: "group_inv PE REG config R F H S" and g: "group_ok PE REG config R F g own" and i: "i \<in> R - F"
    and en: "he_config en = config" "unforgeable (he_crypto en) R F S" and e: "p1_evidence en (PE i) REG (S i) d"
  shows "supported config R F H S d"
proof -
  obtain T fast r gs where e': "known REG d (txn_core T)" "r = Some CC_COMMIT \<longrightarrow> own_vote (S i) d"
    "ValidateP1Replies (he_crypto en) config (map_option (\<lambda>_. server_id (PE i)) r) (case r of None \<Rightarrow> CC_ABORT | Some r \<Rightarrow> r) COMMIT fast T d gs"
    using e en(1) unfolding p1_evidence_def by blast
  have gd: "cfg_ok config" "registry REG" "server_id (PE i) = i" using g i by (auto simp: group_ok_def)
  obtain T0 where T0: "REG d = Some T0" "txn_core T0 = txn_core T" using e'(1) by (auto simp: known_def)
  have dn: "d \<noteq> []" using T0(1) gd(2) by (auto simp: registry_def)
  have "g \<in> set (involved_groups T0)" using g T0(1) unfolding group_ok_def by blast
  then have "g \<in> set (involved_groups T)" using T0(2) by (simp add: txn_core_def)
  from ValidateP1Replies_involved [OF e'(3) this] obtain grp sigs where
    c: "p1_group_cert (he_crypto en) config (map_option (\<lambda>_. server_id (PE i)) r) (case r of None \<Rightarrow> CC_ABORT | Some r \<Rightarrow> r) COMMIT fast d grp sigs"
    by auto
  let ?V = "sig_process_id ` set sigs" and ?m = "ser_cc (he_crypto en) (p1_msg d COMMIT grp)"
  have v: "j = i \<and> own_vote (S j) d \<or> (\<exists>sg. Verify (he_crypto en) j ?m sg)" if "j \<in> ?V" for j
    using that c e'(2) gd(3) by (auto simp: p1_group_cert_def sig_counts_def p1_vote_def split: if_splits option.splits)
  have sub: "?V \<subseteq> R" using v i en(2) by (auto simp: unforgeable_def)
  have ch: "\<forall>j \<in> ?V - F. checked (H j) (S j) d \<or> supported config R F H S d"
  proof
    fix j assume j: "j \<in> ?V - F"
    then have "j \<in> R - F" using sub by blast
    then show "checked (H j) (S j) d \<or> supported config R F H S d"
      using v [of j] j voter_checked [OF inv en(2) _ dn, of j grp] T0(1) by auto
  qed
  have "unat (SlowCommitQuorumSize config) \<le> card ?V"
    using p1_group_cert_card [OF c] quorums.slow_le_fast [OF gd(1)] by (auto simp: p1_quorum_def)
  then show ?thesis using ch sub unfolding supported_def by blast
qed

lemma p2_evidence_supported:
  assumes inv: "group_inv PE REG config R F H S" and g: "group_ok PE REG config R F g own" and i: "i \<in> R - F"
    and en: "he_config en = config" "unforgeable (he_crypto en) R F S" and e: "p2_evidence en (PE i) REG (S i) d"
  shows "supported config R F H S d"
proof -
  obtain T r view gs where e': "known REG d (txn_core T)" "r = Some COMMIT \<longrightarrow> LookupP2Decision d (S i) = Some COMMIT"
    "ValidateP2Replies (he_crypto en) config (map_option (\<lambda>_. server_id (PE i)) r) (case r of None \<Rightarrow> ABORT | Some r \<Rightarrow> r) COMMIT view T d gs = Some True"
    using e en(1) unfolding p2_evidence_def by blast
  have gd: "cfg_ok config" "registry REG" "server_id (PE i) = i" "finite F" "card F \<le> cfg_faults config" using g i by (auto simp: group_ok_def)
  have d: "REG d \<noteq> None" "d \<noteq> []" using e'(1) gd(2) by (auto simp: known_def registry_def)
  obtain grp key sigs where c: "p2_cert (he_crypto en) config (map_option (\<lambda>_. server_id (PE i)) r) (case r of None \<Rightarrow> ABORT | Some r \<Rightarrow> r) COMMIT view d grp sigs"
    using e'(3) unfolding ValidateP2Replies_cert by blast
  let ?V = "sig_process_id ` set sigs"
  have "\<not> ?V \<subseteq> F" using card_mono [OF gd(4), of ?V] p2_cert_card [OF c] gd(5) quorum_unat(1) [OF gd(1)] by auto
  then obtain j sg where j: "j \<notin> F" "sg \<in> set sigs" "j = sig_process_id sg" by blast
  have "j = i \<and> LookupP2Decision d (S i) = Some COMMIT \<or>
      (\<exists>sg. Verify (he_crypto en) j (ser_p2 (he_crypto en)
        \<lparr>p2d_decision = COMMIT, p2d_txn_digest = d, p2d_involved_group = of_int grp, p2d_view = Some view\<rparr>) sg)"
    using c j(2,3) e'(2) gd(3) by (auto simp: p2_cert_def sig_counts_def split: if_splits option.splits)
  then show ?thesis
  proof
    assume "j = i \<and> LookupP2Decision d (S i) = Some COMMIT"
    then show ?thesis using group_invD(3) [OF inv] i d(1) by blast
  next
    assume v: "\<exists>sg. Verify (he_crypto en) j (ser_p2 (he_crypto en)
        \<lparr>p2d_decision = COMMIT, p2d_txn_digest = d, p2d_involved_group = of_int grp, p2d_view = Some view\<rparr>) sg"
    then have jR: "j \<in> R" using en(2) by (auto simp: unforgeable_def)
    then have "d \<in> commit_logs (S j)" using en(2) v j(1) d(2) unfolding unforgeable_def by blast
    then have "LookupP2Decision d (S j) = Some COMMIT \<or> committed (S j) d \<noteq> None"
      using handler_invD(4) [OF group_invD(1) [OF inv jR j(1)]] unfolding backed_def by blast
    then show ?thesis using group_invD(2,3) [OF inv jR j(1) d(1)] by blast
  qed
qed

section \<open>The invariant of a group\<close>

lemma supported_mono:
  assumes "supported config R F H S d" "\<forall>x. checked (H i) (S i) x \<longrightarrow> checked H' s' x"
  shows "supported config R F (H(i := H')) (S(i := s')) d"
  using assms unfolding supported_def by (metis fun_upd_other fun_upd_same)

lemma group_inv_step:
  assumes inv: "group_inv PE REG config R F H S" and g: "group_ok PE REG config R F g own" and i: "i \<in> R - F"
    and en: "he_config en = config" "unforgeable (he_crypto en) R F S"
    and ev: "event_ok en (PE i) REG (S i) ev" "handle en (PE i) ev (S i) = Some s'"
  shows "\<exists>H'. group_inv PE REG config R F H' (S(i := s'))"
proof -
  have gd: "registry REG" "deployed (PE i)" using g i by (auto simp: group_ok_def)
  have hi: "handler_inv (PE i) REG (H i) (S i)" using group_invD(1) [OF inv] i by blast
  from advance_handle [OF hi gd ev] obtain H' where a: "handler_inv (PE i) REG H' s'"
    "progress (evidence en (PE i) REG (S i)) {d. p1_evidence en (PE i) REG (S i) d} (H i) (S i) H' s'" unfolding advance_def by blast
  have mono: "supported config R F (H(i := H')) (S(i := s')) d" if "supported config R F H S d" for d
    by (rule supported_mono [OF that]) (use a(2) in \<open>auto simp: progress_def\<close>)
  have new: "supported config R F H S d"
    if n: "REG d \<noteq> None" "committed s' d \<noteq> None \<or> LookupP2Decision d s' = Some COMMIT" for d
  proof -
    consider "committed (S i) d \<noteq> None" | "LookupP2Decision d (S i) = Some COMMIT"
      | "p1_evidence en (PE i) REG (S i) d" | "p2_evidence en (PE i) REG (S i) d"
      using n(2) a(2) by (auto simp: progress_def evidence_def dom_def)
    then show ?thesis
      using group_invD(2,3) [OF inv _ _ n(1), of i] i p1_evidence_supported [OF inv g i en] p2_evidence_supported [OF inv g i en]
      by cases blast+
  qed
  have "group_inv PE REG config R F (H(i := H')) (S(i := s'))" unfolding group_inv_def
  proof (intro ballI conjI allI impI)
    fix j assume j: "j \<in> R - F"
    show "handler_inv (PE j) REG ((H(i := H')) j) ((S(i := s')) j)" using a(1) group_invD(1) [OF inv] j by auto
    fix d assume d: "REG d \<noteq> None" "committed ((S(i := s')) j) d \<noteq> None \<or> LookupP2Decision d ((S(i := s')) j) = Some COMMIT"
    have "supported config R F H S d"
    proof (cases "j = i")
      case True
      then show ?thesis using new [OF d(1)] d(2) by simp
    next
      case False
      then show ?thesis using group_invD(2,3) [OF inv _ _ d(1)] d(2) j by auto
    qed
    then show "supported config R F (H(i := H')) (S(i := s')) d" by (rule mono)
  qed
  then show ?thesis by blast
qed

lemma group_run_inv:
  assumes "group_run PE REG config R F S" and g: "group_ok PE REG config R F g own"
  shows "\<exists>H. group_inv PE REG config R F H S"
  using assms(1)
proof induction
  case (start S)
  have "group_inv PE REG config R F (\<lambda>_. Map.empty) S" unfolding group_inv_def
  proof (intro ballI conjI allI impI)
    fix i assume i: "i \<in> R - F"
    then have s: "start_server (PE i) = Some (S i)" using start by blast
    show "handler_inv (PE i) REG Map.empty (S i)" by (rule start_server_inv(1) [OF s])
    fix d assume d: "REG d \<noteq> None" "committed (S i) d \<noteq> None \<or> LookupP2Decision d (S i) = Some COMMIT"
    have "d = [] \<or> d = genesis_digest (PE i)" using d(2) start_server_inv(2,3) [OF s] by auto
    then show "supported config R F (\<lambda>_. Map.empty) S d" using d(1) g i by (auto simp: group_ok_def registry_def)
  qed
  then show ?case by blast
next
  case (event S i en ev s')
  then show ?case using group_inv_step [OF _ g] by blast
qed

section \<open>The sample run of a group\<close>

text \<open>The same event is delivered to every correct replica.\<close>

lemma group_run_sweep:
  assumes "group_run PE REG config R F S" "\<forall>i \<in> R - F. S i = s" "set ids \<subseteq> R - F" "distinct ids" "he_config en = config"
    and u: "\<And>S. \<forall>i \<in> R - F. S i \<in> {s, s'} \<Longrightarrow> unforgeable (he_crypto en) R F S"
    and ev: "\<forall>i \<in> R - F. event_ok en (PE i) REG s ev \<and> handle en (PE i) ev s = Some s'"
  shows "\<exists>S'. group_run PE REG config R F S' \<and> (\<forall>i \<in> R - F. S' i = (if i \<in> set ids then s' else s))"
  using assms(1-4)
proof (induction ids)
  case (Cons j ids)
  then obtain S' where S': "group_run PE REG config R F S'" "\<forall>i \<in> R - F. S' i = (if i \<in> set ids then s' else s)" by auto
  then have j: "j \<in> R - F" "S' j = s" using Cons.prems by auto
  have "group_run PE REG config R F (S'(j := s'))"
    using S' j ev u [of S'] by (intro group_run.event [OF S'(1) j(1) assms(5)]) auto
  moreover have "\<forall>i \<in> R - F. (S'(j := s')) i = (if i \<in> set (j # ids) then s' else s)" using S'(2) by simp
  ultimately show ?case by blast
qed auto

abbreviation six :: "u64 set" where "six \<equiv> {i. i < 6}"

lemma six_ids: "six = set (map of_nat [0..<6])"
  by (auto simp: word_less_nat_alt unat_of_nat intro!: image_eqI [of _ _ "unat i" for i])

lemma unforgeable_run:
  "unforgeable (run_crypto {}) six F S"
  "\<forall>i \<in> six - F. S i \<in> {run_s2, run_s3, run_s4} \<Longrightarrow> unforgeable (run_crypto {run_d1, run_d2}) six F S"
proof -
  show "unforgeable (run_crypto {}) six F S" by (simp add: unforgeable_def run_crypto_def)
  assume S: "\<forall>i \<in> six - F. S i \<in> {run_s2, run_s3, run_s4}"
  have "commit_votes (S i) = {run_d1, run_d2}" if "i \<in> six - F" for i
    using bspec [OF S that] sample_votes by auto
  then show "unforgeable (run_crypto {run_d1, run_d2}) six F S"
    by (auto simp: unforgeable_def run_crypto_def sample_crypto_def p1_msg_def p1_vote_def)
qed

lemma group_ok_run: "group_ok run_params run_registry sample_cfg six {5} 0 (\<lambda>_. True)"
proof -
  have "card six \<le> 6" unfolding six_ids by (rule order_trans [OF card_length]) simp
  then show ?thesis
    by (auto simp: group_ok_def registry_run deployed_run sample_cfg_ok) (auto simp: run_registry_def split: if_splits)
qed

abbreviation sample_group_run :: "(u64 \<Rightarrow> server) \<Rightarrow> bool" where
  "sample_group_run \<equiv> group_run run_params run_registry sample_cfg six {5}"

lemma sample_sweep:
  assumes ex: "\<exists>S. sample_group_run S \<and> (\<forall>i \<in> six - {5}. S i = s)"
    and u: "\<And>S. \<forall>i \<in> six - {5}. S i \<in> {s, s'} \<Longrightarrow> unforgeable (run_crypto D) six {5} S"
    and h: "\<And>i. event_ok (run_env D) (run_params i) run_registry s ev" "\<And>i. i < 6 \<Longrightarrow> handle (run_env D) (run_params i) ev s = Some s'"
  shows "\<exists>S. sample_group_run S \<and> (\<forall>i \<in> six - {5}. S i = s')"
proof -
  have ids: "set [0, 1, 2, 3, 4] = six - {5 :: u64}" "distinct [0, 1, 2, 3, 4 :: u64]" by (auto simp: six_ids upt_rec)
  obtain S where S: "sample_group_run S" "\<forall>i \<in> six - {5}. S i = s" using ex by blast
  have "\<exists>S'. sample_group_run S' \<and> (\<forall>i \<in> six - {5}. S' i = (if i \<in> set [0, 1, 2, 3, 4] then s' else s))"
  proof (rule group_run_sweep [OF S _ ids(2), of "run_env D" s' ev])
    show "unforgeable (he_crypto (run_env D)) six {5} S" if "\<forall>i \<in> six - {5}. S i \<in> {s, s'}" for S
      using u [OF that] by (simp add: run_env_def)
    show "\<forall>i \<in> six - {5}. event_ok (run_env D) (run_params i) run_registry s ev \<and> handle (run_env D) (run_params i) ev s = Some s'"
      using h by blast
  qed (simp_all only: ids(1) order_refl run_env_def handler_env.simps)
  then show ?thesis unfolding ids(1) by auto
qed

lemma group_run_sample: "\<exists>S. sample_group_run S \<and> (\<forall>i \<in> six - {5}. S i = run_s4)"
proof -
  have "sample_group_run (\<lambda>_. run_s0)" by (rule group_run.start) (simp add: run_start)
  then have "\<exists>S. sample_group_run S \<and> (\<forall>i \<in> six - {5}. S i = run_s0)" by blast
  then have "\<exists>S. sample_group_run S \<and> (\<forall>i \<in> six - {5}. S i = run_s1)"
    by (rule sample_sweep) (rule unforgeable_run(1) events_run(1) run_step1)+
  then have "\<exists>S. sample_group_run S \<and> (\<forall>i \<in> six - {5}. S i = run_s2)"
    by (rule sample_sweep) (rule unforgeable_run(1) events_run(2) run_step2)+
  then have "\<exists>S. sample_group_run S \<and> (\<forall>i \<in> six - {5}. S i = run_s3)"
    by (rule sample_sweep) (rule unforgeable_run(2) events_run(3) run_step3 | blast)+
  then show ?thesis
    by (rule sample_sweep) (rule unforgeable_run(2) events_run(3) run_step4 | blast)+
qed

end
