(* ===== verification/Spec2Isabelle.thy ===== *)
theory Spec2Isabelle
  imports Version_Store Digest Locking Group_Runs
begin

text \<open>
  Verification of the Pequin replica: a Byzantine fault tolerant transactional store.

  The store runs groups of replicas, each of which keeps a multi-version key-value store.  A client
  reads versions, sends its transaction to all involved groups (phase 1), collects votes into a
  certificate, logs a decision where the votes are not unanimous (phase 2), and distributes the
  certificate (writeback).

  \<^item> \<open>Pequin_Prelude\<close>: machine integers, ordered maps with the lookups of \<open>std::map\<close>, and the
    interface \<open>ordered_map\<close>.
  \<^item> \<open>Timestamps\<close>: \<open>store/common/timestamp.cc\<close>, the clock and the packed time formats.
  \<^item> \<open>Version_Store\<close>: \<open>store/common/backend/versionstore_safe.h\<close>; reads return the greatest version,
    replicas converge.
  \<^item> \<open>Configurations\<close>: \<open>lib/configuration.cc\<close> and the quorum sizes of \<open>store/pequinstore/common.cc\<close>.
  \<^item> \<open>Quorums\<close>: the intersection arguments, behind the interface \<open>quorum_sizes\<close>.
  \<^item> \<open>Proto\<close>: the messages of \<open>pequin-proto.proto\<close> and \<open>common-proto.proto\<close>.
  \<^item> \<open>Digest\<close>: transaction, query and read-set digests of \<open>store/pequinstore/common.cc\<close>.
  \<^item> \<open>Validation\<close>: the synchronous certificate checks of the same file.
  \<^item> \<open>Locking\<close>: the per-key mutexes of \<open>store/pequinstore/concurrencycontrol.cc\<close>; the interface
    \<open>ordered_locking\<close> gives freedom from deadlock.
  \<^item> \<open>Table_Encoding\<close>: the keys of rows, \<open>store/common/table_kv_encoder.cc\<close>.
  \<^item> \<open>Server_State\<close>: the state of a replica (\<open>server.h\<close>), lookups and clean-up (\<open>servertools.cc\<close>, \<open>server.cc\<close>).
  \<^item> \<open>Votes\<close>: phase-1 votes and fallback replies; the interface \<open>write_once\<close>.
  \<^item> \<open>Dependencies\<close>: waiting for the transactions a transaction has read from.
  \<^item> \<open>Semantic_CC\<close>: predicates against table writes, \<open>concurrencycontrol_semantic.cc\<close>.
  \<^item> \<open>Query_Merge\<close>: merging the read sets of a transaction's queries into its own,
    \<open>concurrencycontrol.cc\<close>; the merge is complete.
  \<^item> \<open>Commit\<close>: commit, abort and the application of table writes, \<open>server.cc\<close>.
  \<^item> \<open>Concurrency_Control\<close>: preparing, and the MVTSO and TAPIR checks, \<open>concurrencycontrol.cc\<close>.
  \<^item> \<open>Replica_Index\<close>: what preparing, committing and clean-up do to the indexes that the check reads.
  \<^item> \<open>Serializability\<close>: the step relation of a replica and its invariant; no two accepted
    transactions conflict.
  \<^item> \<open>Handlers\<close>: the handlers of \<open>server.cc\<close> for reads, phase 1, phase 2, writeback and client aborts
    with their validation and worker-thread halves, the initial state, and the events of a replica.
  \<^item> \<open>Handler_Frames\<close>: what the helpers of the handlers change and what they leave alone.
  \<^item> \<open>Handler_Runs\<close>: runs of the handlers from the initial state.  They refine the step relation of
    \<open>Serializability\<close>, decisions are final, and every commit rests on a valid certificate.
  \<^item> \<open>Handler_Example\<close>: a run on concrete messages, at which the properties of runs are instantiated.
  \<^item> \<open>Group_Runs\<close>: a group of replicas, some faulty, with unforgeable signatures; this theory derives that
    what correct replicas commit is serialisable.

  Conventions.  A result \<open>None\<close> of an operation that returns an option is a panic or a failed assertion.
  A message to a client or a peer and a job for a worker thread are appended to the field \<open>effects\<close> of the
  replica; a job runs later as an event of its own, so every interleaving of jobs and messages is a run.  What
  a handler does while it holds its locks is one step.  Hash maps are partial maps, ordered maps and sets are
  sorted association lists.  Hash function, signature verification, message serialisation and the evaluation
  of one predicate on one row are parameters.  Recursion is structural or well founded throughout, except
  for the search for the depth of dependencies, a partial function that is shown to return when dependencies
  are older than the transactions that depend on them.

  Not modelled: the elections and view changes of the fallback, whose certificate checks and replies are; the
  asynchronous twins of the certificate checks, whose verdict is the outcome of a job; the synchronisation
  of queries and the embedded SQL engine; clients, in whose place the runs admit every
  message that meets \<open>event_ok\<close>; transports, key management and batched signatures, which implement the parameters;
  and the baseline systems and benchmarks of the repository.  The switches that inject failures are off.

  The theorems about runs assume (\<open>registry\<close>, \<open>deployed\<close>, \<open>event_ok\<close>) that a digest determines its
  transaction, that no two transactions share a timestamp and that none deletes; that replicas run MVTSO with
  signatures and proofs validated and with read sets merged at the client; and that no phase-2 message sets
  the field \<open>simulated_equiv\<close>, which makes the code skip the validation of the certificate.
\<close>

section \<open>Committed transactions are serialisable\<close>



end
